(* ===== verification/Zoog_Prelude.thy ===== *)
theory Zoog_Prelude
  imports Main "HOL-Library.Word" "HOL-Library.Monad_Syntax" "HOL-Library.Multiset"
begin

unbundle bit_operations_syntax

text \<open>
  Shared vocabulary of the development: the machine integer types of the C sources, the
  assertion primitive \<^verbatim>\<open>lite_assert\<close>, and the generic facts on words, lists and the option
  monad that several components use.

  A run of the C code that trips \<^verbatim>\<open>lite_assert\<close> (a deliberate write through a null pointer,
  \<^verbatim>\<open>common/utils/LiteAssert.h\<close>), dereferences a null pointer or reads or writes outside an array is
  modelled as the value \<^const>\<open>None\<close> of an option: the process is gone and there is no later state.
\<close>

section \<open>Machine integers\<close>

type_synonym u8 = "8 word"
type_synonym u16 = "16 word"
type_synonym u32 = "32 word"

named_theorems word_nat_simps
  \<comment> \<open>rules that move a word computation to \<open>nat\<close>, under explicit no-overflow side conditions\<close>

section \<open>Assertions\<close>

definition lite_assert :: "bool \<Rightarrow> unit option" where
  "lite_assert cond = (if cond then Some () else None)"

lemma lite_assert_simps [simp]:
  "lite_assert True = Some ()"
  "lite_assert False = None"
  by (simp_all add: lite_assert_def)

lemma lite_assert_eq [simp]:
  "(lite_assert c = Some u) \<longleftrightarrow> c"
  "(lite_assert c = None) \<longleftrightarrow> \<not> c"
  by (simp_all add: lite_assert_def)

lemma lite_assert_bind [simp]:
  "(lite_assert c \<bind> f = Some r) \<longleftrightarrow> c \<and> f () = Some r"
  by (simp add: lite_assert_def)

lemma lite_assert_bind_None [simp]:
  "(lite_assert c \<bind> f = None) \<longleftrightarrow> (c \<longrightarrow> f () = None)"
  by (simp add: lite_assert_def)

lemmas opt_simps = Option.bind_eq_Some_conv Option.bind_eq_None_conv

section \<open>Words as naturals\<close>

lemma unat_add_no_wrap [word_nat_simps]:
  "unat a + unat b < 2 ^ 32 \<Longrightarrow> unat (a + b :: u32) = unat a + unat b"
  by (simp add: unat_word_ariths)

lemma unat_add_one_no_wrap [word_nat_simps]:
  "unat a + 1 < 2 ^ 32 \<Longrightarrow> unat (a + 1 :: u32) = unat a + 1"
  by (simp add: unat_word_ariths)

lemma unat_sub_no_wrap [word_nat_simps]:
  "unat b \<le> unat a \<Longrightarrow> unat (a - b :: u32) = unat a - unat b"
  by (simp add: unat_sub word_le_nat_alt)

lemma unat_push_bit_no_wrap [word_nat_simps]:
  "unat a * 2 ^ n < 2 ^ 32 \<Longrightarrow> unat (push_bit n a :: u32) = unat a * 2 ^ n"
  by (simp only: unsigned_push_bit_eq) (simp add: take_bit_eq_mod push_bit_eq_mult)

lemma unat_drop_bit [word_nat_simps]:
  "unat (drop_bit n a :: u32) = unat a div 2 ^ n"
  by (subst unat_drop_bit_eq) (rule drop_bit_eq_div)

lemma unat_of_nat_u32 [word_nat_simps]: "n < 2 ^ 32 \<Longrightarrow> unat (of_nat n :: u32) = n"
  by (simp add: unat_of_nat)

lemma unat_take_bit_u32 [word_nat_simps]: "unat (take_bit n a :: u32) = unat a mod 2 ^ n"
  by (subst unsigned_take_bit_eq) (rule take_bit_eq_mod)

lemma unat_u32_bound [simp]: "unat (a :: u32) < 4294967296"
  using unsigned_less [of a] by simp

section \<open>Lists of buckets\<close>

lemma mset_concat_update:
  "i < length bs \<Longrightarrow> mset (concat (bs[i := xs])) + mset (bs ! i) = mset (concat bs) + mset xs"
proof (induction bs arbitrary: i)
  case (Cons b bs)
  then show ?case by (cases i) (auto simp: ac_simps)
qed simp

lemma mset_concat_push:
  "i < length bs \<Longrightarrow> mset (concat (bs[i := x # bs ! i])) = add_mset x (mset (concat bs))"
  using mset_concat_update [of i bs "x # bs ! i"] by simp

lemma mset_concat_pop:
  "i < length bs \<Longrightarrow> bs ! i = ys @ x # zs
    \<Longrightarrow> add_mset x (mset (concat (bs[i := ys @ zs]))) = mset (concat bs)"
  using mset_concat_update [of i bs "ys @ zs"] by simp

end
