(* ===== verification/Tree_Math.thy ===== *)
theory Tree_Math
  imports Zoog_Prelude
begin

text \<open>
  The arithmetic of the ZFTP Merkle tree: byte length to block count to tree depth
  (\<^verbatim>\<open>common/zftp_module/zftp_protocol.h\<close>), the heap-order numbering of tree nodes
  (\<^verbatim>\<open>common/zftp_module/tree_math.c\<close>) and the integer logarithm it uses
  (\<^verbatim>\<open>common/utils/lite_log2.c\<close>). Node 0 is the root, the children of node \<open>n\<close> are
  \<open>2n+1\<close> and \<open>2n+2\<close>; all of it is computed on 32-bit unsigned words.
\<close>

section \<open>Definitions\<close>

subsection \<open>lite\_log2.c\<close>

fun lite_log2_loop :: "nat \<Rightarrow> u32 \<Rightarrow> nat \<Rightarrow> nat" where
  "lite_log2_loop 0 val logval = logval"
| "lite_log2_loop (Suc bits) val logval =
     (let scale = 2 ^ bits in
      if push_bit scale 1 \<le> val
      then lite_log2_loop bits (drop_bit scale val) (logval + scale)
      else lite_log2_loop bits val logval)"

definition lite_log2 :: "u32 \<Rightarrow> nat" where
  "lite_log2 len = lite_log2_loop 5 len 0 + 1"

subsection \<open>zftp\_protocol.h\<close>

definition ZFTP_LG_BLOCK_SIZE :: nat where
  "ZFTP_LG_BLOCK_SIZE = 16"

definition ZFTP_BLOCK_SIZE :: u32 where
  "ZFTP_BLOCK_SIZE = 65536"

definition compute_num_blocks :: "u32 \<Rightarrow> u32" where
  "compute_num_blocks file_len = drop_bit ZFTP_LG_BLOCK_SIZE (file_len + ZFTP_BLOCK_SIZE - 1)"

function ceillg2_loop :: "u32 \<Rightarrow> nat \<Rightarrow> nat" where
  "ceillg2_loop n r = (if n > 0 then ceillg2_loop (drop_bit 1 n) (r + 1) else r)"
  by pat_completeness auto
termination
  by (relation "measure (\<lambda>(n, r). unat n)")
    (auto simp: unat_drop_bit word_less_nat_alt)

definition ceillg2 :: "u32 \<Rightarrow> nat" where
  "ceillg2 n = ceillg2_loop n 0"

definition compute_tree_depth :: "u32 \<Rightarrow> nat" where
  "compute_tree_depth num_blocks = (if num_blocks = 0 then 0 else ceillg2 (num_blocks - 1))"

definition compute_tree_size :: "nat \<Rightarrow> u32" where
  "compute_tree_size depth = push_bit (depth + 1) 1 - 1"

definition compute_tree_location :: "nat \<Rightarrow> int \<Rightarrow> u32 option" where
  "compute_tree_location level col = do {
     lite_assert (col < 2 ^ level);
     (if level = 0 then Some 0
      else Some (compute_tree_size (level - 1) + word_of_int col)) }"

subsection \<open>tree\_math.c\<close>

definition tree_index :: "nat \<Rightarrow> int \<Rightarrow> u32 \<Rightarrow> u32 option" where
  "tree_index level col tree_size = do {
     index \<leftarrow> compute_tree_location level col;
     lite_assert (index < tree_size);
     Some index }"

definition tree_unindex :: "u32 \<Rightarrow> nat \<times> u32" where
  "tree_unindex location =
     (let level = lite_log2 (location + 1) - 1;
          col = (location + 1) AND (push_bit level 1 - 1)
      in (level, col))"

definition left_child :: "u32 \<Rightarrow> u32" where
  "left_child location = push_bit 1 (location + 1) - 1"

definition right_child :: "u32 \<Rightarrow> u32" where
  "right_child location = left_child location + 1"

definition sibling_location :: "u32 \<Rightarrow> u32 option" where
  "sibling_location location = do {
     lite_assert (location \<noteq> 0);
     (let shifted = location + 1; shifted = shifted XOR 1 in Some (shifted - 1)) }"

definition parent_location :: "u32 \<Rightarrow> u32" where
  "parent_location location =
     (let shifted_loc = location + 1; shifted_parent = drop_bit 1 shifted_loc
      in shifted_parent - 1)"

section \<open>The integer logarithm\<close>

lemma lite_log2_loop_bounds:
  assumes "unat val < 2 ^ 2 ^ k" and "0 < unat val" and "k \<le> 5"
  shows "lg \<le> lite_log2_loop k val lg
    \<and> 2 ^ (lite_log2_loop k val lg - lg) \<le> unat val
    \<and> unat val < 2 ^ Suc (lite_log2_loop k val lg - lg)"
  using assms
proof (induction k arbitrary: val lg)
  case 0
  then have "unat val = 1" by simp
  then show ?case by simp
next
  case (Suc k)
  have scale: "unat (push_bit (2 ^ k) 1 :: u32) = 2 ^ 2 ^ k"
  proof -
    have "(2::nat) ^ k \<le> 2 ^ 4" using Suc.prems(3) by (intro power_increasing) auto
    then have "(2::nat) ^ 2 ^ k \<le> 2 ^ 16" by (intro power_increasing) auto
    then show ?thesis by (subst unat_push_bit_no_wrap) auto
  qed
  show ?case
  proof (cases "push_bit (2 ^ k) 1 \<le> val")
    case True
    let ?v = "drop_bit (2 ^ k) val"
    have ge: "2 ^ 2 ^ k \<le> unat val" using True scale by (simp add: word_le_nat_alt)
    have uv: "unat ?v = unat val div 2 ^ 2 ^ k" by (rule unat_drop_bit)
    have "unat val < 2 ^ 2 ^ k * 2 ^ 2 ^ k" using Suc.prems(1) by (simp add: power_add [symmetric] mult_2)
    then have 1: "unat ?v < 2 ^ 2 ^ k" unfolding uv by (simp add: less_mult_imp_div_less)
    have 2: "0 < unat ?v" unfolding uv using ge by (simp add: div_greater_zero_iff)
    let ?r = "lite_log2_loop k ?v (lg + 2 ^ k)"
    have IH: "lg + 2 ^ k \<le> ?r" "2 ^ (?r - (lg + 2 ^ k)) \<le> unat ?v"
      "unat ?v < 2 ^ Suc (?r - (lg + 2 ^ k))"
      using Suc.IH [OF 1 2, of "lg + 2 ^ k"] Suc.prems(3) by auto
    obtain d where d: "?r = lg + 2 ^ k + d" using IH(1) le_Suc_ex by blast
    have "2 ^ d \<le> unat val div 2 ^ 2 ^ k" "unat val div 2 ^ 2 ^ k < 2 ^ Suc d"
      using IH(2,3) by (simp_all add: uv d)
    then have "2 ^ d * 2 ^ 2 ^ k \<le> unat val" "unat val < 2 ^ Suc d * 2 ^ 2 ^ k"
      by (simp_all add: less_eq_div_iff_mult_less_eq div_less_iff_less_mult)
    then have "2 ^ (2 ^ k + d) \<le> unat val" "unat val < 2 ^ Suc (2 ^ k + d)"
      by (simp_all add: power_add mult.commute)
    then show ?thesis using True by (simp add: Let_def d)
  next
    case False
    then have "unat val < 2 ^ 2 ^ k" using scale by (simp add: word_le_nat_alt)
    from Suc.IH [OF this Suc.prems(2), of lg] Suc.prems(3) False show ?thesis
      by (simp add: Let_def)
  qed
qed

lemma lite_log2_pos: "0 < lite_log2 n"
  by (simp add: lite_log2_def)

lemma lite_log2_bounds:
  assumes "0 < unat n"
  shows "2 ^ (lite_log2 n - 1) \<le> unat n" and "unat n < 2 ^ lite_log2 n"
  using lite_log2_loop_bounds [of n 5 0] assms by (simp_all add: lite_log2_def)

lemma lite_log2_unique:
  assumes "2 ^ k \<le> unat n" and "unat n < 2 ^ Suc k"
  shows "lite_log2 n = Suc k"
proof -
  have pos: "0 < unat n" using assms(1) by (rule less_le_trans [rotated]) simp
  have "(2::nat) ^ k < 2 ^ lite_log2 n" using lite_log2_bounds(2) [OF pos] assms(1) by linarith
  then have "k < lite_log2 n" by (rule power_less_imp_less_exp [rotated]) simp
  moreover have "(2::nat) ^ (lite_log2 n - 1) < 2 ^ Suc k"
    using lite_log2_bounds(1) [OF pos] assms(2) by linarith
  then have "lite_log2 n - 1 < Suc k" by (rule power_less_imp_less_exp [rotated]) simp
  ultimately show ?thesis by linarith
qed

section \<open>Block count, depth and size\<close>

declare ceillg2_loop.simps [simp del]

lemma ceillg2_loop_eq:
  "ceillg2_loop n r = (if n = 0 then r else r + lite_log2 n)"
proof (induction n r rule: ceillg2_loop.induct)
  case (1 n r)
  show ?case
  proof (cases "n = 0")
    case True
    then show ?thesis by (subst ceillg2_loop.simps) simp
  next
    case False
    then have pos: "0 < unat n" "0 < n" by (simp_all add: unat_gt_0 word_greater_zero_iff)
    have IH: "ceillg2_loop (drop_bit 1 n) (r + 1)
        = (if drop_bit 1 n = 0 then r + 1 else r + 1 + lite_log2 (drop_bit 1 n))"
      using 1 pos by simp
    have half: "unat (drop_bit 1 n) = unat n div 2" by (simp only: unat_drop_bit power_one_right)
    show ?thesis
    proof (cases "unat n = 1")
      case True
      then have "drop_bit 1 n = 0" using half by (simp add: unat_eq_zero [symmetric])
      moreover have "lite_log2 n = 1" using lite_log2_unique [of 0 n] True by simp
      ultimately show ?thesis using IH False pos by (simp add: ceillg2_loop.simps [of n r])
    next
      case nt1: False
      with pos have "1 < unat n" by linarith
      then have hpos: "0 < unat (drop_bit 1 n)" using half by simp
      let ?k = "lite_log2 (drop_bit 1 n)"
      have b: "2 ^ (?k - 1) \<le> unat n div 2" "unat n div 2 < 2 ^ ?k"
        using lite_log2_bounds [OF hpos] half by simp_all
      obtain j where j: "?k = Suc j" using lite_log2_pos gr0_implies_Suc by blast
      have "2 ^ ?k \<le> unat n" "unat n < 2 ^ Suc ?k" using b unfolding j by auto
      then have "lite_log2 n = Suc ?k" by (rule lite_log2_unique)
      moreover have "drop_bit 1 n \<noteq> 0" using hpos by (simp add: unat_gt_0)
      ultimately show ?thesis using IH False pos by (simp add: ceillg2_loop.simps [of n r])
    qed
  qed
qed

lemma compute_num_blocks_unat:
  assumes "unat file_len + 65535 < 2 ^ 32"
  shows "unat (compute_num_blocks file_len) = (unat file_len + 65535) div 65536"
proof -
  have "file_len + ZFTP_BLOCK_SIZE - 1 = file_len + 65535" by (simp add: ZFTP_BLOCK_SIZE_def)
  moreover have "unat (file_len + 65535) = unat file_len + 65535"
    using assms by (subst unat_add_no_wrap) simp_all
  ultimately show ?thesis
    by (simp only: compute_num_blocks_def unat_drop_bit ZFTP_LG_BLOCK_SIZE_def) simp
qed

lemma compute_num_blocks_bound: "unat (compute_num_blocks file_len) \<le> 65535"
proof -
  have "unat (file_len + ZFTP_BLOCK_SIZE - 1) < 65536 * 65536"
    using unat_u32_bound by (simp del: unat_u32_bound)
  then show ?thesis
    unfolding compute_num_blocks_def unat_drop_bit ZFTP_LG_BLOCK_SIZE_def
    by (simp add: less_mult_imp_div_less less_Suc_eq_le [symmetric])
qed

lemma compute_tree_depth_least:
  assumes "0 < unat nb"
  shows "unat nb \<le> 2 ^ compute_tree_depth nb"
    and "0 < compute_tree_depth nb \<Longrightarrow> 2 ^ (compute_tree_depth nb - 1) < unat nb"
proof -
  have nz: "nb \<noteq> 0" using assms by auto
  have sub: "unat (nb - 1) = unat nb - 1" using assms by (subst unat_sub_no_wrap) simp_all
  have d: "compute_tree_depth nb = (if nb - 1 = 0 then 0 else lite_log2 (nb - 1))"
    using nz by (simp add: compute_tree_depth_def ceillg2_def ceillg2_loop_eq)
  show "unat nb \<le> 2 ^ compute_tree_depth nb"
  proof (cases "nb - 1 = 0")
    case True
    then show ?thesis using sub assms d by auto
  next
    case False
    then have p: "0 < unat (nb - 1)" by (simp add: unat_gt_0)
    show ?thesis using lite_log2_bounds(2) [OF p] sub d False by simp
  qed
  show "2 ^ (compute_tree_depth nb - 1) < unat nb" if "0 < compute_tree_depth nb"
  proof -
    have nz1: "nb - 1 \<noteq> 0" using that d by auto
    then have p: "0 < unat (nb - 1)" by (simp add: unat_gt_0)
    show ?thesis using lite_log2_bounds(1) [OF p] sub d nz1 assms by simp
  qed
qed

lemma compute_tree_depth_bound:
  "compute_tree_depth (compute_num_blocks file_len) \<le> 16"
proof (cases "0 < compute_tree_depth (compute_num_blocks file_len)")
  case True
  let ?nb = "compute_num_blocks file_len"
  let ?d = "compute_tree_depth ?nb"
  have "0 < unat ?nb" using True by (auto simp: compute_tree_depth_def unat_gt_0 split: if_splits)
  then have "(2::nat) ^ (?d - 1) < 2 ^ 16"
    using compute_tree_depth_least(2) [OF _ True] compute_num_blocks_bound [of file_len]
    by (auto intro: le_less_trans)
  then have "?d - 1 < 16" by (rule power_less_imp_less_exp [rotated]) simp
  then show ?thesis by simp
qed simp

lemma unat_compute_tree_size [word_nat_simps]:
  assumes "d \<le> 30"
  shows "unat (compute_tree_size d) = 2 ^ (d + 1) - 1"
proof -
  have "(2::nat) ^ (d + 1) \<le> 2 ^ 31" using assms by (intro power_increasing) auto
  then have "unat (push_bit (d + 1) 1 :: u32) = 2 ^ (d + 1)"
    by (subst unat_push_bit_no_wrap) simp_all
  then show ?thesis unfolding compute_tree_size_def by (subst unat_sub_no_wrap) simp_all
qed

section \<open>Node numbering\<close>

lemma unat_left_child [word_nat_simps]:
  assumes "unat x < 2 ^ 31 - 1"
  shows "unat (left_child x) = 2 * unat x + 1"
proof -
  have "unat (x + 1) = unat x + 1" using assms by (subst unat_add_one_no_wrap) simp_all
  then have "unat (push_bit 1 (x + 1)) = 2 * unat x + 2"
    using assms by (subst unat_push_bit_no_wrap) simp_all
  then show ?thesis unfolding left_child_def by (subst unat_sub_no_wrap) simp_all
qed

lemma unat_right_child [word_nat_simps]:
  assumes "unat x < 2 ^ 31 - 1"
  shows "unat (right_child x) = 2 * unat x + 2"
  using unat_left_child [OF assms] assms
  unfolding right_child_def by (subst unat_add_one_no_wrap) simp_all

lemma unat_parent_location [word_nat_simps]:
  assumes "0 < unat x" and "unat x < 2 ^ 32 - 1"
  shows "unat (parent_location x) = (unat x - 1) div 2"
proof -
  have "unat (x + 1) = unat x + 1" using assms by (subst unat_add_one_no_wrap) simp_all
  then have "unat (drop_bit 1 (x + 1)) = (unat x + 1) div 2"
    by (simp only: unat_drop_bit power_one_right)
  then show ?thesis using assms unfolding parent_location_def Let_def
    by (subst unat_sub_no_wrap) auto
qed

lemma unat_xor_one: "unat (w XOR 1 :: u32) = (if even (unat w) then unat w + 1 else unat w - 1)"
proof -
  have "unat (w XOR 1) = unat w XOR 1" by (simp only: unsigned_xor_eq unsigned_1)
  also have "\<dots> = (if even (unat w) then unat w + 1 else unat w - 1)"
    by (subst xor_nat_unfold) (auto elim!: evenE oddE)
  finally show ?thesis .
qed

lemma sibling_location_unat:
  assumes "0 < unat x" and "unat x < 2 ^ 32 - 1"
  obtains s where "sibling_location x = Some s"
    and "unat s = (if odd (unat x) then unat x + 1 else unat x - 1)"
proof
  have x1: "unat (x + 1) = unat x + 1" using assms by (subst unat_add_one_no_wrap) simp_all
  have nz: "x \<noteq> 0" using assms(1) by auto
  show "sibling_location x = Some ((x + 1 XOR 1) - 1)"
    using nz by (simp add: sibling_location_def Let_def)
  have "unat ((x + 1) XOR 1) = (if odd (unat x) then unat x + 2 else unat x)"
    unfolding unat_xor_one x1 by simp
  then show "unat ((x + 1 XOR 1) - 1) = (if odd (unat x) then unat x + 1 else unat x - 1)"
    using assms(1) by (subst unat_sub_no_wrap) auto
qed

lemma compute_tree_location_Some:
  assumes "0 \<le> col" and "col < 2 ^ level" and "level \<le> 30"
  obtains loc where "compute_tree_location level col = Some loc"
    and "unat loc = 2 ^ level - 1 + nat col"
proof (cases level)
  case 0
  then show ?thesis using assms that [of 0] by (simp add: compute_tree_location_def)
next
  case (Suc l)
  let ?loc = "compute_tree_size l + word_of_int col"
  have lim: "(2::nat) ^ level \<le> 2 ^ 30" using assms(3) by (intro power_increasing) auto
  have nc: "nat col < 2 ^ level" using assms(1,2) by (simp add: nat_less_iff)
  have col: "unat (word_of_int col :: u32) = nat col"
  proof -
    obtain c where c: "col = int c" using assms(1) nonneg_int_cases by blast
    then have "c < 2 ^ 32" using nc lim by simp
    then show ?thesis unfolding c of_int_of_nat_eq nat_int by (rule unat_of_nat_u32)
  qed
  have "unat ?loc = 2 ^ level - 1 + nat col"
  proof -
    have sz: "unat (compute_tree_size l) = 2 ^ level - 1"
      using assms(3) Suc unat_compute_tree_size [of l] by simp
    have "(2::nat) ^ level \<le> 1073741824" using lim by simp
    then have "2 ^ level - 1 + nat col < (4294967296::nat)" using nc by linarith
    then show ?thesis unfolding sz [symmetric] col [symmetric] by (subst unat_add_no_wrap) simp_all
  qed
  moreover have "compute_tree_location level col = Some ?loc"
    using assms(2) Suc by (simp add: compute_tree_location_def)
  ultimately show ?thesis by (rule that [rotated])
qed

lemma tree_index_Some:
  assumes "0 \<le> col" and "col < 2 ^ level" and "level \<le> d" and "d \<le> 30"
  obtains loc where "tree_index level col (compute_tree_size d) = Some loc"
    and "unat loc = 2 ^ level - 1 + nat col"
proof -
  have "level \<le> 30" using assms(3,4) by simp
  with assms(1,2) obtain loc where loc: "compute_tree_location level col = Some loc"
      "unat loc = 2 ^ level - 1 + nat col"
    by (rule compute_tree_location_Some)
  have "nat col < 2 ^ level" using assms(1,2) by (simp add: nat_less_iff)
  moreover have "(2::nat) ^ (level + 1) \<le> 2 ^ (d + 1)"
    using assms(3) by (intro power_increasing) auto
  moreover have "unat (compute_tree_size d) = 2 ^ (d + 1) - 1"
    by (rule unat_compute_tree_size [OF assms(4)])
  ultimately have "unat loc < unat (compute_tree_size d)"
    using loc(2) unfolding power_add power_one_right by linarith
  then have "tree_index level col (compute_tree_size d) = Some loc"
    using loc(1) by (simp add: tree_index_def word_less_nat_alt)
  then show ?thesis using loc(2) by (rule that)
qed

lemma tree_unindex_eq:
  assumes "unat loc + 1 = 2 ^ level + c" and "c < 2 ^ level" and "level \<le> 30"
  shows "tree_unindex loc = (level, of_nat c)"
proof -
  have lim: "(2::nat) ^ level \<le> 2 ^ 30" using assms(3) by (intro power_increasing) auto
  have x1: "unat (loc + 1) = 2 ^ level + c"
    using assms lim by (subst unat_add_one_no_wrap) simp_all
  then have lg: "lite_log2 (loc + 1) = Suc level"
    using assms(2) by (intro lite_log2_unique) simp_all
  have "(loc + 1) AND (push_bit level 1 - 1) = take_bit level (loc + 1)"
    by (simp add: take_bit_eq_mask mask_eq_exp_minus_1 push_bit_eq_mult)
  also have "\<dots> = of_nat c"
  proof (rule word_unat_eq_iff [THEN iffD2])
    have "unat (take_bit level (loc + 1)) = c"
      unfolding unat_take_bit_u32 x1 using assms(2) by simp
    moreover have "unat (of_nat c :: u32) = c"
      using assms(2) lim by (intro unat_of_nat_u32) simp
    ultimately show "unat (take_bit level (loc + 1)) = unat (of_nat c :: u32)" by simp
  qed
  finally show ?thesis unfolding tree_unindex_def Let_def lg by simp
qed

lemma tree_node_cases:
  assumes "0 < unat x" and "unat x < 2 ^ 31"
  obtains (left) p where "x = left_child p" and "parent_location x = p" and "unat p < 2 ^ 31 - 1"
      and "sibling_location x = Some (right_child p)"
    | (right) p where "x = right_child p" and "parent_location x = p" and "unat p < 2 ^ 31 - 1"
      and "sibling_location x = Some (left_child p)"
proof -
  let ?p = "parent_location x"
  have lim: "unat x < 2 ^ 32 - 1" using assms(2) by simp
  have up: "unat ?p = (unat x - 1) div 2" by (rule unat_parent_location [OF assms(1) lim])
  have pb: "unat ?p < 2 ^ 31 - 1" using assms(2) up by simp
  obtain s where s: "sibling_location x = Some s"
    and us: "unat s = (if odd (unat x) then unat x + 1 else unat x - 1)"
    using sibling_location_unat [OF assms(1) lim] by blast
  have l: "unat (left_child ?p) = 2 * unat ?p + 1" by (rule unat_left_child [OF pb])
  have r: "unat (right_child ?p) = 2 * unat ?p + 2" by (rule unat_right_child [OF pb])
  show thesis
  proof (cases "odd (unat x)")
    case True
    then have "unat x = unat (left_child ?p)" "unat s = unat (right_child ?p)"
      using up l r us by (auto elim!: oddE)
    then have "x = left_child ?p" "s = right_child ?p" by (simp_all add: word_unat_eq_iff)
    then show thesis using left [of ?p] s pb by simp
  next
    case False
    then have "unat x = unat (right_child ?p)" "unat s = unat (left_child ?p)"
      using up l r us assms(1) by (auto elim!: evenE)
    then have "x = right_child ?p" "s = left_child ?p" by (simp_all add: word_unat_eq_iff)
    then show thesis using right [of ?p] s pb by simp
  qed
qed

lemma tree_family:
  assumes "unat p < 2 ^ 31 - 1"
  shows "parent_location (left_child p) = p" and "parent_location (right_child p) = p"
    and "sibling_location (left_child p) = Some (right_child p)"
    and "sibling_location (right_child p) = Some (left_child p)"
proof -
  have l: "unat (left_child p) = 2 * unat p + 1" by (rule unat_left_child [OF assms])
  have r: "unat (right_child p) = 2 * unat p + 2" by (rule unat_right_child [OF assms])
  show pl: "parent_location (left_child p) = p"
    using assms l by (simp add: word_unat_eq_iff unat_parent_location)
  show pr: "parent_location (right_child p) = p"
    using assms r by (simp add: word_unat_eq_iff unat_parent_location)
  obtain s where "sibling_location (left_child p) = Some s" "unat s = unat (right_child p)"
    using sibling_location_unat [of "left_child p"] assms l r by auto
  then show "sibling_location (left_child p) = Some (right_child p)"
    by (simp add: word_unat_eq_iff)
  obtain t where "sibling_location (right_child p) = Some t" "unat t = unat (left_child p)"
    using sibling_location_unat [of "right_child p"] assms l r by auto
  then show "sibling_location (right_child p) = Some (left_child p)"
    by (simp add: word_unat_eq_iff)
qed

lemma int_less_pow2:
  assumes "blk < n" and "n \<le> 2 ^ d"
  shows "int blk < 2 ^ d"
proof -
  have "blk < 2 ^ d" using assms by simp
  then have "int blk < int (2 ^ d)" by (simp only: of_nat_less_iff)
  then show ?thesis by simp
qed

section \<open>Properties\<close>

text \<open>
  C19: \<open>_tree_index\<close> and \<open>_tree_unindex\<close> are inverse. In a tree of depth \<open>d\<close>, every
  (level, column) pair of the tree gets a location inside the array of \<open>compute_tree_size d\<close>
  nodes (so the assertions of \<open>_tree_index\<close> hold), and \<open>_tree_unindex\<close> reads the same pair
  back from the location.
\<close>

theorem tree_index_roundtrip:
  assumes "0 \<le> col" and "col < 2 ^ level" and "level \<le> d" and "d \<le> 30"
  shows "\<exists>loc. tree_index level col (compute_tree_size d) = Some loc
    \<and> loc < compute_tree_size d \<and> tree_unindex loc = (level, word_of_int col)"
proof -
  obtain loc where loc: "tree_index level col (compute_tree_size d) = Some loc"
    and u: "unat loc = 2 ^ level - 1 + nat col"
    using tree_index_Some [OF assms] .
  obtain c where c: "col = int c" using assms(1) nonneg_int_cases by blast
  have "c < 2 ^ level" using assms(2) unfolding c by simp
  moreover have "unat loc + 1 = 2 ^ level + c" using u c by simp
  ultimately have "tree_unindex loc = (level, word_of_int col)"
    using tree_unindex_eq [of loc level c] assms(3,4) c by simp
  moreover have "loc < compute_tree_size d" using loc by (auto simp: tree_index_def opt_simps)
  ultimately show ?thesis using loc by blast
qed

theorem tree_index_roundtrip_witness:
  "\<exists>loc. tree_index 2 1 (compute_tree_size 3) = Some loc
    \<and> loc < compute_tree_size 3 \<and> tree_unindex loc = (2, word_of_int 1)"
  by (rule tree_index_roundtrip) simp_all

text \<open>
  C20: the layout computed from a file length is right for every length below 0xffff0001: the
  blocks exactly cover the file (no byte outside, no block empty), the tree depth is the least
  one with room for the blocks, and every block has a leaf inside the node array.
\<close>

theorem layout_covers_file:
  assumes "unat file_len \<le> 0xffff0000"
  shows "let nb = compute_num_blocks file_len; d = compute_tree_depth nb in
    unat file_len \<le> unat nb * 65536
    \<and> (0 < unat file_len \<longrightarrow> (unat nb - 1) * 65536 < unat file_len)
    \<and> unat nb \<le> 2 ^ d \<and> (0 < d \<longrightarrow> 2 ^ (d - 1) < unat nb)
    \<and> (\<forall>blk < unat nb. \<exists>loc. tree_index d (int blk) (compute_tree_size d) = Some loc)"
proof -
  define nb where "nb = compute_num_blocks file_len"
  define d where "d = compute_tree_depth nb"
  have nb: "unat nb = (unat file_len + 65535) div 65536"
    unfolding nb_def using assms by (intro compute_num_blocks_unat) simp
  have cap: "unat nb \<le> 2 ^ d"
    using compute_tree_depth_least(1) [of nb] unfolding d_def by (cases "unat nb = 0") auto
  have low: "0 < d \<longrightarrow> 2 ^ (d - 1) < unat nb"
  proof
    assume "0 < d"
    moreover from this have "0 < unat nb"
      unfolding d_def by (auto simp: compute_tree_depth_def unat_gt_0 split: if_splits)
    ultimately show "2 ^ (d - 1) < unat nb"
      using compute_tree_depth_least(2) [of nb] unfolding d_def by blast
  qed
  have d30: "d \<le> 30" using compute_tree_depth_bound [of file_len] unfolding d_def nb_def by simp
  have leaves: "\<exists>loc. tree_index d (int blk) (compute_tree_size d) = Some loc" if "blk < unat nb" for blk
    using tree_index_Some [OF of_nat_0_le_iff int_less_pow2 [OF that cap] order_refl d30] by blast
  have cover: "unat file_len \<le> unat nb * 65536"
    "0 < unat file_len \<longrightarrow> (unat nb - 1) * 65536 < unat file_len"
    unfolding nb by linarith+
  show ?thesis
    unfolding Let_def nb_def [symmetric] d_def [symmetric] using cover cap low leaves by blast
qed

theorem layout_covers_file_witness:
  "unat (100000 :: u32) \<le> 0xffff0000
    \<and> (let nb = compute_num_blocks 100000; d = compute_tree_depth nb in
        unat (100000 :: u32) \<le> unat nb * 65536
        \<and> (0 < unat (100000 :: u32) \<longrightarrow> (unat nb - 1) * 65536 < unat (100000 :: u32))
        \<and> unat nb \<le> 2 ^ d \<and> (0 < d \<longrightarrow> 2 ^ (d - 1) < unat nb)
        \<and> (\<forall>blk < unat nb. \<exists>loc. tree_index d (int blk) (compute_tree_size d) = Some loc))"
proof -
  have h: "unat (100000 :: u32) \<le> 0xffff0000" by simp
  show ?thesis by (rule conjI [OF h layout_covers_file [OF h]])
qed

end
