(* ===== verification/Lite_Lib.thy ===== *)
theory Lite_Lib
  imports Zoog_Prelude
begin

text \<open>
  The freestanding string and memory routines of \<^verbatim>\<open>common/utils/LiteLib.c\<close>. A buffer is the list
  of its bytes and a \<^verbatim>\<open>char *\<close> into it is an offset; a routine that stores returns the new buffer.
  A read or a store outside the buffer has the value \<^const>\<open>None\<close>, so each lemma that a routine
  returns also states the buffer space it needs. \<^verbatim>\<open>char\<close> is signed, as on the x86 targets.
\<close>

type_synonym bytes = "u8 list"

section \<open>Definitions\<close>

fun lite_strcpy :: "bytes \<Rightarrow> bytes \<Rightarrow> bytes option" where
  "lite_strcpy dst [] = None"
| "lite_strcpy [] (s # src) = None"
| "lite_strcpy (d # dst) (s # src) =
     (if s \<noteq> 0 then map_option ((#) s) (lite_strcpy dst src) else Some (0 # dst))"

fun lite_strncpy :: "bytes \<Rightarrow> bytes \<Rightarrow> int \<Rightarrow> bytes option" where
  "lite_strncpy dst [] n = None"
| "lite_strncpy [] (s # src) n = None"
| "lite_strncpy (d # dst) (s # src) n =
     (if s \<noteq> 0 \<and> 0 < n then map_option ((#) s) (lite_strncpy dst src (n - 1)) else Some (0 # dst))"

fun lite_strlen :: "bytes \<Rightarrow> nat option" where
  "lite_strlen [] = None"
| "lite_strlen (c # s) = (if c \<noteq> 0 then map_option Suc (lite_strlen s) else Some 0)"

fun lite_strnlen :: "bytes \<Rightarrow> nat \<Rightarrow> nat option" where
  "lite_strnlen [] m = None"
| "lite_strnlen (c # s) m =
     (if c \<noteq> 0 \<and> 0 < m then map_option Suc (lite_strnlen s (m - 1)) else Some 0)"

fun lite_strchrnul :: "bytes \<Rightarrow> u8 \<Rightarrow> nat option" where
  "lite_strchrnul [] c = None"
| "lite_strchrnul (x # s) c = (if x \<noteq> c \<and> x \<noteq> 0 then map_option Suc (lite_strchrnul s c) else Some 0)"

definition lite_strcat :: "bytes \<Rightarrow> bytes \<Rightarrow> bytes option" where
  "lite_strcat dst src = do {
     l \<leftarrow> lite_strlen dst;
     t \<leftarrow> lite_strcpy (drop l dst) src;
     Some (take l dst @ t) }"

definition lite_strncat :: "bytes \<Rightarrow> bytes \<Rightarrow> int \<Rightarrow> bytes option" where
  "lite_strncat dst src m = do {
     dstlen \<leftarrow> lite_strlen dst;
     t \<leftarrow> lite_strncpy (drop dstlen dst) src (m - int dstlen);
     Some (take dstlen dst @ t) }"

fun lite_strcmp :: "bytes \<Rightarrow> bytes \<Rightarrow> int option" where
  "lite_strcmp (p1 # s1) (p2 # s2) =
     (if p1 \<noteq> 0 \<and> p2 \<noteq> 0
      then (let d = sint p1 - sint p2 in if d \<noteq> 0 then Some d else lite_strcmp s1 s2)
      else Some (sint p1 - sint p2))"
| "lite_strcmp _ _ = None"

text \<open>The outer option is a read outside the buffer, the inner one the null result.\<close>

fun lite_index :: "bytes \<Rightarrow> u8 \<Rightarrow> nat option option" where
  "lite_index [] c = None"
| "lite_index (p # s) c =
     (if p = 0 then Some None
      else if p = c then Some (Some 0)
      else map_option (map_option Suc) (lite_index s c))"

fun lite_rindex_loop :: "bytes \<Rightarrow> u8 \<Rightarrow> nat \<Rightarrow> nat option" where
  "lite_rindex_loop s c 0 = None"
| "lite_rindex_loop s c (Suc e) = (if s ! e = c then Some e else lite_rindex_loop s c e)"

definition lite_rindex :: "bytes \<Rightarrow> u8 \<Rightarrow> nat option option" where
  "lite_rindex s c = map_option (lite_rindex_loop s c) (lite_strlen s)"

fun lite_memcmp :: "bytes \<Rightarrow> bytes \<Rightarrow> nat \<Rightarrow> int option" where
  "lite_memcmp s1 s2 0 = Some 0"
| "lite_memcmp (p1 # s1) (p2 # s2) (Suc n) =
     (let v = p1 - p2 in if v \<noteq> 0 then Some (sint v) else lite_memcmp s1 s2 n)"
| "lite_memcmp _ _ (Suc n) = None"

definition lite_starts_with :: "bytes \<Rightarrow> bytes \<Rightarrow> bool option" where
  "lite_starts_with prefix str = do {
     prefixlen \<leftarrow> lite_strlen prefix;
     l \<leftarrow> lite_strlen str;
     (if l < prefixlen then Some False
      else map_option (\<lambda>r. r = 0) (lite_memcmp str prefix prefixlen)) }"

definition lite_ends_with :: "bytes \<Rightarrow> bytes \<Rightarrow> bool option" where
  "lite_ends_with suffix str = do {
     suffixlen \<leftarrow> lite_strlen suffix;
     str_len \<leftarrow> lite_strlen str;
     (if str_len < suffixlen then Some False
      else map_option (\<lambda>r. r = 0) (lite_memcmp (drop (str_len - suffixlen) str) suffix suffixlen)) }"

fun lite_split :: "bytes \<Rightarrow> u8 \<Rightarrow> nat \<Rightarrow> nat \<Rightarrow> nat list option" where
  "lite_split buf delim pos 0 = Some []"
| "lite_split buf delim pos (Suc fields_left) =
     (case lite_index (drop pos buf) delim of
        None \<Rightarrow> None
      | Some None \<Rightarrow> Some [pos]
      | Some (Some i) \<Rightarrow> map_option ((#) pos) (lite_split buf delim (pos + i + 1) fields_left))"

fun lite_memcpy :: "bytes \<Rightarrow> bytes \<Rightarrow> nat \<Rightarrow> bytes option" where
  "lite_memcpy dst src 0 = Some dst"
| "lite_memcpy (d # dst) (s # src) (Suc n) = map_option ((#) s) (lite_memcpy dst src n)"
| "lite_memcpy _ _ (Suc n) = None"

fun lite_memset :: "bytes \<Rightarrow> u8 \<Rightarrow> nat \<Rightarrow> bytes option" where
  "lite_memset dst val 0 = Some dst"
| "lite_memset (d # dst) val (Suc n) = map_option ((#) val) (lite_memset dst val n)"
| "lite_memset [] val (Suc n) = None"

definition lite_bzero :: "bytes \<Rightarrow> nat \<Rightarrow> bytes option" where
  "lite_bzero dst n = lite_memset dst 0 n"

fun lite_memchr :: "bytes \<Rightarrow> u8 \<Rightarrow> nat \<Rightarrow> nat option option" where
  "lite_memchr s val 0 = Some None"
| "lite_memchr (p # s) val (Suc n) =
     (if p = val then Some (Some 0) else map_option (map_option Suc) (lite_memchr s val n))"
| "lite_memchr [] val (Suc n) = None"

fun lite_memequal :: "bytes \<Rightarrow> u8 \<Rightarrow> nat \<Rightarrow> bool option" where
  "lite_memequal s val 0 = Some True"
| "lite_memequal (p # s) val (Suc n) = (if p \<noteq> val then Some False else lite_memequal s val n)"
| "lite_memequal [] val (Suc n) = None"

fun lite_atoi_loop :: "bytes \<Rightarrow> u32 \<Rightarrow> u32 option" where
  "lite_atoi_loop [] v = None"
| "lite_atoi_loop (c # s) v =
     (if sint (48 :: u8) \<le> sint c \<and> sint c \<le> sint (57 :: u8)
      then lite_atoi_loop s (v * 10 + (ucast c - 48)) else Some v)"

definition lite_atoi :: "bytes \<Rightarrow> u32 option" where
  "lite_atoi s = lite_atoi_loop s 0"

section \<open>Lengths and copies\<close>

lemma sint_u8_eq [simp]: "(sint (a :: u8) = sint b) \<longleftrightarrow> a = b"
  by (auto intro: signed_word_eqI)

lemma sint_zero [simp]: "(sint (a :: u8) = 0) \<longleftrightarrow> a = 0"
  using signed_word_eqI [of a 0] by auto

lemma lite_strlen_cstr [simp]: "0 \<notin> set s \<Longrightarrow> lite_strlen (s @ 0 # r) = Some (length s)"
  by (induction s) auto

lemma lite_strlen_Some:
  assumes "lite_strlen b = Some l"
  obtains s r where "b = s @ 0 # r" and "0 \<notin> set s" and "length s = l"
  using assms
proof (induction b arbitrary: l thesis)
  case (Cons c b)
  show ?case
  proof (cases "c = 0")
    case True
    then show ?thesis using Cons.prems(1) [of "[]" b] Cons.prems(2) by simp
  next
    case False
    then obtain m where m: "lite_strlen b = Some m" "l = Suc m" using Cons.prems(2) by auto
    then obtain s r where "b = s @ 0 # r" "0 \<notin> set s" "length s = m" using Cons.IH by blast
    then show ?thesis using Cons.prems(1) [of "c # s" r] False m by simp
  qed
qed simp

lemma lite_strcpy_cstr:
  "0 \<notin> set s \<Longrightarrow> lite_strcpy dst (s @ 0 # r) =
     (if length s < length dst then Some (s @ 0 # drop (Suc (length s)) dst) else None)"
proof (induction s arbitrary: dst)
  case Nil
  then show ?case by (cases dst) auto
next
  case (Cons c s)
  then show ?case by (cases dst) auto
qed

lemma lite_strncpy_cstr:
  "0 \<notin> set s \<Longrightarrow> 0 \<le> n \<Longrightarrow>
     (let k = min (length s) (nat n) in lite_strncpy dst (s @ 0 # r) n =
       (if k < length dst then Some (take k s @ 0 # drop (Suc k) dst) else None))"
proof (induction s arbitrary: dst n)
  case Nil
  then show ?case by (cases dst) auto
next
  case (Cons c s)
  show ?case
  proof (cases dst)
    case Nil
    then show ?thesis by simp
  next
    case (Cons d dst')
    show ?thesis
    proof (cases "0 < n")
      case True
      moreover have "nat n = Suc (nat (n - 1))" using True by simp
      ultimately show ?thesis using Cons.IH [of "n - 1" dst'] \<open>dst = d # dst'\<close> Cons.prems
        by (simp add: Let_def)
    next
      case False
      then show ?thesis using \<open>dst = d # dst'\<close> Cons.prems by simp
    qed
  qed
qed

lemma lite_memcpy_eq:
  "lite_memcpy dst src n =
     (if n \<le> length dst \<and> n \<le> length src then Some (take n src @ drop n dst) else None)"
  by (induction dst src n rule: lite_memcpy.induct) auto

lemma lite_memset_eq:
  "lite_memset dst val n =
     (if n \<le> length dst then Some (replicate n val @ drop n dst) else None)"
  by (induction dst val n rule: lite_memset.induct) auto

section \<open>Comparisons\<close>

lemma lite_memcmp_zero:
  "n \<le> length s \<Longrightarrow> n \<le> length t \<Longrightarrow>
     \<exists>r. lite_memcmp s t n = Some r \<and> (r = 0 \<longleftrightarrow> take n s = take n t)"
  by (induction s t n rule: lite_memcmp.induct) (auto simp: Let_def)

lemma lite_strcmp_zero:
  "0 \<notin> set s \<Longrightarrow> 0 \<notin> set t \<Longrightarrow>
     \<exists>r. lite_strcmp (s @ 0 # x) (t @ 0 # y) = Some r \<and> (r = 0 \<longleftrightarrow> s = t)"
proof (induction s arbitrary: t)
  case Nil
  then show ?case by (cases t) auto
next
  case (Cons c s)
  then show ?case by (cases t) (auto simp: Let_def)
qed

lemma lite_memequal_eq:
  "n \<le> length s \<Longrightarrow> lite_memequal s v n = Some (take n s = replicate n v)"
  by (induction s v n rule: lite_memequal.induct) auto

section \<open>Properties\<close>

text \<open>
  C40: the space \<open>lite_strncpy\<close> needs. Given a terminated source and a bound \<open>n\<close> it stores
  \<open>min (strlen src) n\<close> characters and then a terminator, so it stays inside the destination
  exactly when the destination is longer than that minimum. A caller that passes the size of its
  buffer as the bound (as \<^verbatim>\<open>ZFSOrigin.cpp\<close> and \<^verbatim>\<open>KvmPal.cpp\<close> do) overruns it by one byte when
  the source is at least that long.
\<close>

theorem lite_strncpy_footprint:
  assumes "0 \<notin> set s" and "0 \<le> n"
  shows "lite_strncpy dst (s @ 0 # r) n =
     (if min (length s) (nat n) < length dst
      then Some (take (min (length s) (nat n)) s @ 0 # drop (Suc (min (length s) (nat n))) dst)
      else None)"
  using lite_strncpy_cstr [OF assms] by (simp add: Let_def)

theorem lite_strncpy_footprint_witness:
  "lite_strncpy [9, 9, 9] ([65, 66, 67, 68] @ 0 # []) 3 = None
   \<and> lite_strncpy [9, 9, 9, 9] ([65, 66, 67, 68] @ 0 # []) 3 = Some [65, 66, 67, 0]"
  using lite_strncpy_footprint [of "[65, 66, 67, 68]" 3 "[9, 9, 9]" "[]"]
    lite_strncpy_footprint [of "[65, 66, 67, 68]" 3 "[9, 9, 9, 9]" "[]"] by simp

end
