(* ===== verification/Hash_Table.thy ===== *)
theory Hash_Table
  imports Lite_Lib
begin

text \<open>
  The incrementally growing hash table of \<^verbatim>\<open>common/utils/hash_table.c\<close>. A table keeps two
  subtables: insertions go to the new one, and every operation moves at most one datum from the
  old one, so that no single insertion pays for a full rehash. A bucket's chain of links is the list
  of its data, in chain order. The caller's callbacks \<^verbatim>\<open>hash_func\<close> and \<^verbatim>\<open>cmp_func\<close> are fields of the
  table, as in the C structure; the laws they must satisfy are the locale \<open>hash_key\<close>.
\<close>

section \<open>Definitions\<close>

record 'a subtable =
  st_buckets :: "'a list list"
  st_count :: int

record 'a hash_table =
  hash_func :: "'a \<Rightarrow> u32"
  cmp_func :: "'a \<Rightarrow> 'a \<Rightarrow> int"
  old_table :: "'a subtable"
  next_old_bucket :: nat
  new_table :: "'a subtable"
  ht_count :: int
  visiting :: nat

definition num_buckets :: "'a subtable \<Rightarrow> nat" where
  "num_buckets st = length (st_buckets st)"

definition LOAD_FACTOR_LIMIT :: int where
  "LOAD_FACTOR_LIMIT = 3"

definition subtable_init :: "nat \<Rightarrow> 'a subtable" where
  "subtable_init n = \<lparr>st_buckets = replicate n [], st_count = 0\<rparr>"

definition subtable_free :: "'a subtable \<Rightarrow> unit option" where
  "subtable_free st = lite_assert (list_all (\<lambda>b. b = []) (st_buckets st))"

definition subtable_find_bucket :: "('a \<Rightarrow> u32) \<Rightarrow> 'a subtable \<Rightarrow> 'a \<Rightarrow> nat" where
  "subtable_find_bucket hash st datum = unat (hash datum) mod num_buckets st"

fun chain_find :: "('a \<Rightarrow> 'a \<Rightarrow> int) \<Rightarrow> 'a \<Rightarrow> 'a list \<Rightarrow> nat option" where
  "chain_find cmp datum [] = None"
| "chain_find cmp datum (d # ds) =
     (if cmp datum d = 0 then Some 0 else map_option Suc (chain_find cmp datum ds))"

text \<open>
  A predecessor link is a bucket and the position in it of the link after the predecessor; the C
  code returns the predecessor itself so that it can unlink its successor.
\<close>

definition subtable_find_preceding_link ::
    "('a \<Rightarrow> u32) \<Rightarrow> ('a \<Rightarrow> 'a \<Rightarrow> int) \<Rightarrow> 'a subtable \<Rightarrow> 'a \<Rightarrow> (nat \<times> nat) option" where
  "subtable_find_preceding_link hash cmp st datum =
     (let bucket_idx = subtable_find_bucket hash st datum
      in map_option (Pair bucket_idx) (chain_find cmp datum (st_buckets st ! bucket_idx)))"

definition hash_table_init :: "('a \<Rightarrow> u32) \<Rightarrow> ('a \<Rightarrow> 'a \<Rightarrow> int) \<Rightarrow> 'a hash_table" where
  "hash_table_init hash cmp =
     \<lparr>hash_func = hash, cmp_func = cmp, old_table = subtable_init 1, next_old_bucket = 1,
      new_table = subtable_init 2, ht_count = 0, visiting = 0\<rparr>"

definition hash_table_free :: "'a hash_table \<Rightarrow> unit option" where
  "hash_table_free ht = do {
     lite_assert (ht_count ht = 0);
     subtable_free (old_table ht);
     subtable_free (new_table ht) }"

definition hash_table_grow :: "'a hash_table \<Rightarrow> 'a hash_table option" where
  "hash_table_grow ht = do {
     subtable_free (old_table ht);
     Some (ht\<lparr>old_table := new_table ht,
              new_table := subtable_init (num_buckets (new_table ht) * 2),
              next_old_bucket := 0\<rparr>) }"

datatype which_table = Old_Table | New_Table

definition hash_table_find_preceding_link ::
    "'a hash_table \<Rightarrow> 'a \<Rightarrow> (which_table \<times> nat \<times> nat) option" where
  "hash_table_find_preceding_link ht datum =
     (case subtable_find_preceding_link (hash_func ht) (cmp_func ht) (new_table ht) datum of
        Some pos \<Rightarrow> Some (New_Table, pos)
      | None \<Rightarrow>
          map_option (Pair Old_Table)
            (subtable_find_preceding_link (hash_func ht) (cmp_func ht) (old_table ht) datum))"

function skip_empty_buckets :: "'a list list \<Rightarrow> nat \<Rightarrow> nat" where
  "skip_empty_buckets bs i =
     (if i < length bs \<and> bs ! i = [] then skip_empty_buckets bs (Suc i) else i)"
  by pat_completeness auto
termination
  by (relation "measure (\<lambda>(bs, i). length bs - i)") auto

definition subtable_push :: "nat \<Rightarrow> 'a \<Rightarrow> 'a subtable \<Rightarrow> 'a subtable" where
  "subtable_push b d st =
     st\<lparr>st_buckets := (st_buckets st)[b := d # st_buckets st ! b], st_count := st_count st + 1\<rparr>"

definition hash_table_shift_one :: "'a hash_table \<Rightarrow> 'a hash_table" where
  "hash_table_shift_one ht =
     (let bs = st_buckets (old_table ht);
          i = skip_empty_buckets bs (next_old_bucket ht);
          ht = ht\<lparr>next_old_bucket := i\<rparr>
      in if length bs \<le> i then ht
         else case bs ! i of
             [] \<Rightarrow> ht
           | victim # rest \<Rightarrow>
               let bucket_idx = subtable_find_bucket (hash_func ht) (new_table ht) victim
               in ht\<lparr>old_table := (old_table ht)\<lparr>st_buckets := bs[i := rest],
                                                 st_count := st_count (old_table ht) - 1\<rparr>,
                     new_table := subtable_push bucket_idx victim (new_table ht)\<rparr>)"

definition link_datum :: "'a hash_table \<Rightarrow> which_table \<times> nat \<times> nat \<Rightarrow> 'a" where
  "link_datum ht l = (case l of (t, b, i) \<Rightarrow>
     st_buckets (case t of Old_Table \<Rightarrow> old_table ht | New_Table \<Rightarrow> new_table ht) ! b ! i)"

definition hash_table_lookup :: "'a hash_table \<Rightarrow> 'a \<Rightarrow> 'a option \<times> 'a hash_table" where
  "hash_table_lookup ht key =
     (case hash_table_find_preceding_link ht key of
        None \<Rightarrow> (None, ht)
      | Some l \<Rightarrow> (Some (link_datum ht l), hash_table_shift_one ht))"

definition hash_table_insert_inner :: "'a hash_table \<Rightarrow> 'a \<Rightarrow> bool \<Rightarrow> 'a hash_table option" where
  "hash_table_insert_inner ht datum assert_absent = do {
     lite_assert (visiting ht = 0);
     (case hash_table_lookup ht datum of
        (Some _, ht) \<Rightarrow> do { lite_assert (\<not> assert_absent); Some ht }
      | (None, ht) \<Rightarrow>
          let bucket_idx = subtable_find_bucket (hash_func ht) (new_table ht) datum;
              ht = ht\<lparr>new_table := subtable_push bucket_idx datum (new_table ht),
                      ht_count := ht_count ht + 1\<rparr>;
              load_factor = ht_count ht div int (num_buckets (new_table ht))
          in do {
            ht \<leftarrow> (if load_factor > LOAD_FACTOR_LIMIT then hash_table_grow ht else Some ht);
            Some (hash_table_shift_one ht) }) }"

definition hash_table_insert :: "'a hash_table \<Rightarrow> 'a \<Rightarrow> 'a hash_table option" where
  "hash_table_insert ht datum = hash_table_insert_inner ht datum True"

definition hash_table_union :: "'a hash_table \<Rightarrow> 'a \<Rightarrow> 'a hash_table option" where
  "hash_table_union ht datum = hash_table_insert_inner ht datum False"

definition subtable_unlink :: "nat \<Rightarrow> nat \<Rightarrow> 'a subtable \<Rightarrow> 'a subtable" where
  "subtable_unlink b i st =
     st\<lparr>st_buckets := (st_buckets st)[b := take i (st_buckets st ! b) @ drop (Suc i) (st_buckets st ! b)],
        st_count := st_count st - 1\<rparr>"

definition hash_table_remove :: "'a hash_table \<Rightarrow> 'a \<Rightarrow> 'a hash_table option" where
  "hash_table_remove ht key = do {
     lite_assert (visiting ht = 0);
     (case hash_table_find_preceding_link ht key of
        None \<Rightarrow> None
      | Some (Old_Table, b, i) \<Rightarrow>
          Some (ht\<lparr>old_table := subtable_unlink b i (old_table ht), ht_count := ht_count ht - 1\<rparr>)
      | Some (New_Table, b, i) \<Rightarrow>
          Some (ht\<lparr>new_table := subtable_unlink b i (new_table ht), ht_count := ht_count ht - 1\<rparr>)) }"

text \<open>
  The callback of a visit works on a state of its own that does not hold the visited table: the counter
  \<^verbatim>\<open>visiting\<close>, which the source raises before and lowers after, is back where it was. A callback that changes
  the visited table, as subtracting a table from itself would, is outside this model.
\<close>

definition hash_table_visit_every_inner :: "'a subtable \<Rightarrow> ('u \<Rightarrow> 'a \<Rightarrow> 'u) \<Rightarrow> 'u \<Rightarrow> 'u" where
  "hash_table_visit_every_inner st ff user_obj = fold (\<lambda>b u. fold (\<lambda>d u. ff u d) b u) (st_buckets st) user_obj"

definition hash_table_visit_every :: "'a hash_table \<Rightarrow> ('u \<Rightarrow> 'a \<Rightarrow> 'u) \<Rightarrow> 'u \<Rightarrow> 'u" where
  "hash_table_visit_every ht ff user_obj =
     hash_table_visit_every_inner (new_table ht) ff
       (hash_table_visit_every_inner (old_table ht) ff user_obj)"

text \<open>Every link of a subtable is handed to the callback and freed, and both counters drop by one.\<close>

definition hash_table_remove_every_inner ::
    "'a subtable \<Rightarrow> ('u \<Rightarrow> 'a \<Rightarrow> 'u) \<Rightarrow> 'u \<Rightarrow> int \<Rightarrow> 'a subtable \<times> 'u \<times> int" where
  "hash_table_remove_every_inner st ff user_obj ht_cnt =
     fold (\<lambda>bucket (st, u, c).
            fold (\<lambda>d (st, u, c). (st\<lparr>st_count := st_count st - 1\<rparr>, ff u d, c - 1))
              (st_buckets st ! bucket)
              (st\<lparr>st_buckets := (st_buckets st)[bucket := []]\<rparr>, u, c))
       [0..<num_buckets st] (st, user_obj, ht_cnt)"

definition hash_table_remove_every ::
    "'a hash_table \<Rightarrow> ('u \<Rightarrow> 'a \<Rightarrow> 'u) \<Rightarrow> 'u \<Rightarrow> ('a hash_table \<times> 'u) option" where
  "hash_table_remove_every ht ff user_obj =
     (case hash_table_remove_every_inner (old_table ht) ff user_obj (ht_count ht) of
        (old, u, c) \<Rightarrow>
          (case hash_table_remove_every_inner (new_table ht) ff u c of
             (new, u, c) \<Rightarrow> do {
               lite_assert (c = 0);
               Some (ht\<lparr>old_table := old, new_table := new, ht_count := c\<rparr>, u) }))"

definition hash_table_free_discard :: "'a hash_table \<Rightarrow> unit option" where
  "hash_table_free_discard ht = do {
     (ht, _) \<leftarrow> hash_table_remove_every ht (\<lambda>u d. u) ();
     hash_table_free ht }"

definition hash_table_subtract_worker :: "'a hash_table option \<Rightarrow> 'a \<Rightarrow> 'a hash_table option" where
  "hash_table_subtract_worker target datum = do {
     target \<leftarrow> target;
     (case hash_table_lookup target datum of
        (Some _, target) \<Rightarrow> hash_table_remove target datum
      | (None, target) \<Rightarrow> Some target) }"

definition hash_table_subtract :: "'a hash_table \<Rightarrow> 'a hash_table \<Rightarrow> 'a hash_table option" where
  "hash_table_subtract ht0 ht1 = do {
     lite_assert (hash_func ht0 = hash_func ht1);
     lite_assert (cmp_func ht0 = cmp_func ht1);
     hash_table_visit_every ht1 hash_table_subtract_worker (Some ht0) }"

definition hash_buf :: "bytes \<Rightarrow> u32" where
  "hash_buf buf = foldl (\<lambda>v b. v * 131 + ucast b) 0 buf"

definition cmp_bufs :: "bytes \<Rightarrow> bytes \<Rightarrow> u32 option" where
  "cmp_bufs buf0 buf1 =
     (let common_len = min (length buf0) (length buf1) in do {
        rc \<leftarrow> lite_memcmp buf0 buf1 common_len;
        (if rc \<noteq> 0 then Some (word_of_int rc)
         else Some (word_of_int (int (length buf0) - int (length buf1)))) })"

section \<open>The contract of the callbacks\<close>

text \<open>
  What the table needs of its callbacks: comparing equal is an equivalence, and equal data hash
  alike.
\<close>

locale hash_key =
  fixes hash :: "'a \<Rightarrow> u32" and cmp :: "'a \<Rightarrow> 'a \<Rightarrow> int"
  assumes cmp_refl: "cmp a a = 0"
    and cmp_sym: "cmp a b = 0 \<Longrightarrow> cmp b a = 0"
    and cmp_trans: "cmp a b = 0 \<Longrightarrow> cmp b c = 0 \<Longrightarrow> cmp a c = 0"
    and cmp_hash: "cmp a b = 0 \<Longrightarrow> hash a = hash b"
begin

lemma cmp_cong: "cmp a b = 0 \<Longrightarrow> cmp a c = 0 \<longleftrightarrow> cmp b c = 0"
  using cmp_sym cmp_trans by blast

end

section \<open>Contents and invariant\<close>

definition st_data :: "'a subtable \<Rightarrow> 'a multiset" where
  "st_data st = mset (concat (st_buckets st))"

definition ht_data :: "'a hash_table \<Rightarrow> 'a multiset" where
  "ht_data ht = st_data (old_table ht) + st_data (new_table ht)"

definition st_wf :: "('a \<Rightarrow> u32) \<Rightarrow> 'a subtable \<Rightarrow> bool" where
  "st_wf hash st \<longleftrightarrow>
     0 < num_buckets st
     \<and> st_count st = int (size (st_data st))
     \<and> (\<forall>b < num_buckets st. \<forall>d \<in> set (st_buckets st ! b). subtable_find_bucket hash st d = b)"

definition keys_distinct :: "('a \<Rightarrow> 'a \<Rightarrow> int) \<Rightarrow> 'a multiset \<Rightarrow> bool" where
  "keys_distinct cmp M \<longleftrightarrow> (\<forall>k. size (filter_mset (\<lambda>d. cmp k d = 0) M) \<le> 1)"

definition ht_core :: "'a hash_table \<Rightarrow> bool" where
  "ht_core ht \<longleftrightarrow>
     hash_key (hash_func ht) (cmp_func ht)
     \<and> st_wf (hash_func ht) (old_table ht) \<and> st_wf (hash_func ht) (new_table ht)
     \<and> ht_count ht = int (size (ht_data ht))
     \<and> (\<forall>b < next_old_bucket ht. b < num_buckets (old_table ht) \<longrightarrow> st_buckets (old_table ht) ! b = [])
     \<and> keys_distinct (cmp_func ht) (ht_data ht)"

text \<open>
  The second conjunct is the pace of the incremental rehash: what is still to be moved fits in the
  insertions left before the next growth, which happens when the table holds four data per new
  bucket.
\<close>

definition ht_wf :: "'a hash_table \<Rightarrow> bool" where
  "ht_wf ht \<longleftrightarrow> ht_core ht
     \<and> size (ht_data ht) + size (st_data (old_table ht)) < 4 * num_buckets (new_table ht)"

subsection \<open>Chains and subtables\<close>

lemma chain_find_None: "chain_find cmp k xs = None \<longleftrightarrow> (\<forall>d \<in> set xs. cmp k d \<noteq> 0)"
  by (induction xs) auto

lemma chain_find_Some:
  "chain_find cmp k xs = Some i \<Longrightarrow> i < length xs \<and> cmp k (xs ! i) = 0"
  by (induction xs arbitrary: i) (auto split: if_splits)

lemma st_data_init [simp]: "st_data (subtable_init n) = {#}"
  by (simp add: st_data_def subtable_init_def)

lemma num_buckets_init [simp]: "num_buckets (subtable_init n) = n"
  by (simp add: num_buckets_def subtable_init_def)

lemma st_wf_init [simp]: "0 < n \<Longrightarrow> st_wf hash (subtable_init n)"
  by (simp add: st_wf_def) (simp add: subtable_init_def)

lemma st_data_empty_nth: "st_data st = {#} \<Longrightarrow> b < num_buckets st \<Longrightarrow> st_buckets st ! b = []"
  by (auto simp: st_data_def num_buckets_def)

lemma subtable_free_empty: "st_data st = {#} \<Longrightarrow> subtable_free st = Some ()"
  by (auto simp: subtable_free_def st_data_def list_all_iff)

lemma subtable_find_bucket_less: "st_wf hash st \<Longrightarrow> subtable_find_bucket hash st d < num_buckets st"
  by (simp add: st_wf_def subtable_find_bucket_def)

lemma num_buckets_push [simp]: "num_buckets (subtable_push b d st) = num_buckets st"
  by (simp add: subtable_push_def num_buckets_def)

lemma find_bucket_push [simp]:
  "subtable_find_bucket hash (subtable_push b d st) e = subtable_find_bucket hash st e"
  by (simp add: subtable_find_bucket_def)

lemma st_data_push:
  "b < num_buckets st \<Longrightarrow> st_data (subtable_push b d st) = add_mset d (st_data st)"
  by (simp add: st_data_def subtable_push_def num_buckets_def mset_concat_push)

lemma st_wf_push:
  assumes "st_wf hash st"
  shows "st_wf hash (subtable_push (subtable_find_bucket hash st d) d st)"
proof -
  let ?b = "subtable_find_bucket hash st d"
  have b: "?b < num_buckets st" by (rule subtable_find_bucket_less [OF assms])
  have "st_count (subtable_push ?b d st) = int (size (st_data (subtable_push ?b d st)))"
    using assms by (simp add: st_data_push [OF b] st_wf_def) (simp add: subtable_push_def)
  moreover have "subtable_find_bucket hash st e = c"
    if "c < num_buckets st" "e \<in> set (st_buckets (subtable_push ?b d st) ! c)" for c e
    using that assms b
    by (auto simp: st_wf_def subtable_push_def num_buckets_def nth_list_update split: if_splits)
  ultimately show ?thesis using assms by (simp add: st_wf_def)
qed

lemma st_data_unlink:
  assumes "b < num_buckets st" and "i < length (st_buckets st ! b)"
  shows "add_mset (st_buckets st ! b ! i) (st_data (subtable_unlink b i st)) = st_data st"
  using assms unfolding st_data_def subtable_unlink_def num_buckets_def
  by (simp add: mset_concat_pop id_take_nth_drop [symmetric])

lemma st_wf_unlink:
  assumes "st_wf hash st" and "b < num_buckets st" and "i < length (st_buckets st ! b)"
  shows "st_wf hash (subtable_unlink b i st)"
proof -
  have d: "add_mset (st_buckets st ! b ! i) (st_data (subtable_unlink b i st)) = st_data st"
    by (rule st_data_unlink [OF assms(2,3)])
  have "size (st_data st) = Suc (size (st_data (subtable_unlink b i st)))"
    by (subst d [symmetric]) simp
  moreover have "num_buckets (subtable_unlink b i st) = num_buckets st"
    by (simp add: num_buckets_def subtable_unlink_def)
  moreover have "set (st_buckets (subtable_unlink b i st) ! c) \<subseteq> set (st_buckets st ! c)"
    if "c < num_buckets st" for c
    using that assms(2) set_take_subset [of i "st_buckets st ! b"] set_drop_subset [of "Suc i" "st_buckets st ! b"]
    by (auto simp: subtable_unlink_def num_buckets_def nth_list_update)
  ultimately show ?thesis
    using assms(1) unfolding st_wf_def subtable_find_bucket_def
    by (auto simp: subtable_unlink_def)
qed

lemma subtable_find_Some:
  assumes "st_wf hash st" and "subtable_find_preceding_link hash cmp st k = Some (b, i)"
  shows "b < num_buckets st" and "i < length (st_buckets st ! b)" and "cmp k (st_buckets st ! b ! i) = 0"
  using assms chain_find_Some [of cmp k "st_buckets st ! b" i] subtable_find_bucket_less [OF assms(1), of k]
  by (auto simp: subtable_find_preceding_link_def Let_def)

lemma subtable_find_None:
  assumes "hash_key hash cmp" and "st_wf hash st"
    and "subtable_find_preceding_link hash cmp st k = None" and "d \<in># st_data st"
  shows "cmp k d \<noteq> 0"
proof
  assume eq: "cmp k d = 0"
  then have "hash k = hash d" by (rule hash_key.cmp_hash [OF assms(1)])
  then have same: "subtable_find_bucket hash st k = subtable_find_bucket hash st d"
    by (simp add: subtable_find_bucket_def)
  obtain b where b: "b < num_buckets st" "d \<in> set (st_buckets st ! b)"
    using assms(4) by (auto simp: st_data_def num_buckets_def in_set_conv_nth [of _ "st_buckets st"])
  then have "subtable_find_bucket hash st d = b" using assms(2) by (simp add: st_wf_def)
  then have "chain_find cmp k (st_buckets st ! b) = None"
    using assms(3) same by (simp add: subtable_find_preceding_link_def Let_def)
  then show False using b eq by (simp add: chain_find_None)
qed

subsection \<open>Moving one datum\<close>

declare skip_empty_buckets.simps [simp del]

lemma skip_empty_buckets_spec:
  "(\<forall>j. i \<le> j \<and> j < skip_empty_buckets bs i \<longrightarrow> bs ! j = [])
   \<and> (skip_empty_buckets bs i < length bs \<longrightarrow> bs ! skip_empty_buckets bs i \<noteq> [])"
proof (induction bs i rule: skip_empty_buckets.induct)
  case (1 bs i)
  show ?case
  proof (cases "i < length bs \<and> bs ! i = []")
    case True
    then have "bs ! j = []" if "i \<le> j" "j < skip_empty_buckets bs (Suc i)" for j
      using that 1 by (cases "j = i") auto
    then show ?thesis using True 1 by (simp add: skip_empty_buckets.simps [of bs i])
  next
    case False
    then show ?thesis by (auto simp: skip_empty_buckets.simps [of bs i])
  qed
qed

text \<open>Either the old table is empty and only the cursor moves, or one datum moves over.\<close>

lemma hash_table_shift_one_cases:
  assumes "ht_core ht"
  obtains (empty) i where "hash_table_shift_one ht = ht\<lparr>next_old_bucket := i\<rparr>"
      and "st_data (old_table ht) = {#}"
    | (move) i v where "i < num_buckets (old_table ht)"
      and "\<forall>j < i. st_buckets (old_table ht) ! j = []"
      and "st_buckets (old_table ht) ! i \<noteq> []" and "v = hd (st_buckets (old_table ht) ! i)"
      and "hash_table_shift_one ht =
         ht\<lparr>next_old_bucket := i, old_table := subtable_unlink i 0 (old_table ht),
            new_table := subtable_push (subtable_find_bucket (hash_func ht) (new_table ht) v) v (new_table ht)\<rparr>"
proof -
  let ?bs = "st_buckets (old_table ht)"
  let ?i = "skip_empty_buckets ?bs (next_old_bucket ht)"
  have spec: "\<forall>j. next_old_bucket ht \<le> j \<and> j < ?i \<longrightarrow> ?bs ! j = []"
    "?i < length ?bs \<longrightarrow> ?bs ! ?i \<noteq> []"
    using skip_empty_buckets_spec [of "next_old_bucket ht" ?bs] by auto
  have below: "\<forall>b < next_old_bucket ht. b < length ?bs \<longrightarrow> ?bs ! b = []"
    using assms unfolding ht_core_def num_buckets_def by blast
  have low: "?bs ! j = []" if "j < ?i" "j < length ?bs" for j
    using below spec(1) that not_le by blast
  show thesis
  proof (cases "length ?bs \<le> ?i")
    case True
    then have "\<forall>b \<in> set ?bs. b = []" using low by (auto simp: in_set_conv_nth)
    then have "st_data (old_table ht) = {#}" by (simp add: st_data_def)
    moreover have "hash_table_shift_one ht = ht\<lparr>next_old_bucket := ?i\<rparr>"
      using True by (simp add: hash_table_shift_one_def Let_def)
    ultimately show thesis using empty by blast
  next
    case False
    then obtain v rest where c: "?bs ! ?i = v # rest"
      using spec(2) by (cases "?bs ! ?i") auto
    have eq: "hash_table_shift_one ht =
         ht\<lparr>next_old_bucket := ?i, old_table := subtable_unlink ?i 0 (old_table ht),
            new_table := subtable_push (subtable_find_bucket (hash_func ht) (new_table ht) v) v (new_table ht)\<rparr>"
      using False c by (simp add: hash_table_shift_one_def Let_def subtable_unlink_def)
    have lt: "?i < num_buckets (old_table ht)" using False by (simp add: num_buckets_def)
    have nils: "\<forall>j < ?i. ?bs ! j = []" using low False by auto
    show thesis by (rule move [OF lt nils _ _ eq]) (simp_all add: c)
  qed
qed

lemma hash_table_shift_one_frame [simp]:
  "hash_func (hash_table_shift_one ht) = hash_func ht"
  "cmp_func (hash_table_shift_one ht) = cmp_func ht"
  "ht_count (hash_table_shift_one ht) = ht_count ht"
  "visiting (hash_table_shift_one ht) = visiting ht"
  "num_buckets (new_table (hash_table_shift_one ht)) = num_buckets (new_table ht)"
  by (auto simp: hash_table_shift_one_def Let_def split: list.splits)

lemma hash_table_shift_one_core:
  assumes "ht_core ht"
  shows "ht_data (hash_table_shift_one ht) = ht_data ht"
    and "size (st_data (old_table (hash_table_shift_one ht))) = size (st_data (old_table ht)) - 1"
    and "ht_core (hash_table_shift_one ht)"
proof -
  have all: "ht_data (hash_table_shift_one ht) = ht_data ht
    \<and> size (st_data (old_table (hash_table_shift_one ht))) = size (st_data (old_table ht)) - 1
    \<and> ht_core (hash_table_shift_one ht)"
    using assms
  proof (cases rule: hash_table_shift_one_cases)
    case (empty i)
    moreover have "ht_core (ht\<lparr>next_old_bucket := i\<rparr>)"
      using assms st_data_empty_nth [OF empty(2)] by (simp add: ht_core_def ht_data_def)
    ultimately show ?thesis by (simp add: ht_data_def)
  next
    case (move i v)
    let ?old = "old_table ht" let ?new = "new_table ht"
    have wf: "st_wf (hash_func ht) ?old" "st_wf (hash_func ht) ?new" using assms by (auto simp: ht_core_def)
    have v: "v = st_buckets ?old ! i ! 0" using move(3,4) by (simp add: hd_conv_nth)
    have u: "add_mset v (st_data (subtable_unlink i 0 ?old)) = st_data ?old"
      using st_data_unlink [of i ?old 0] move(1,3) v by simp
    have p: "st_data (subtable_push (subtable_find_bucket (hash_func ht) ?new v) v ?new)
        = add_mset v (st_data ?new)"
      by (rule st_data_push [OF subtable_find_bucket_less [OF wf(2)]])
    have sz: "size (st_data ?old) = Suc (size (st_data (subtable_unlink i 0 ?old)))"
      by (subst u [symmetric]) simp
    have d: "ht_data (hash_table_shift_one ht) = ht_data ht"
      unfolding ht_data_def u [symmetric] by (simp add: move(5) p)
    have "st_wf (hash_func ht) (subtable_unlink i 0 ?old)"
      using st_wf_unlink [OF wf(1) move(1)] move(3) by simp
    moreover have "st_buckets (subtable_unlink i 0 ?old) ! j = []" if "j < i" for j
      using that move(2) by (simp add: subtable_unlink_def)
    ultimately have "ht_core (hash_table_shift_one ht)"
      using assms d st_wf_push [OF wf(2), of v] unfolding ht_core_def by (simp add: move(5))
    then show ?thesis using d sz by (simp add: move(5))
  qed
  then show "ht_data (hash_table_shift_one ht) = ht_data ht"
    and "size (st_data (old_table (hash_table_shift_one ht))) = size (st_data (old_table ht)) - 1"
    and "ht_core (hash_table_shift_one ht)" by blast+
qed

lemma hash_table_shift_one_wf: "ht_wf ht \<Longrightarrow> ht_wf (hash_table_shift_one ht)"
  using hash_table_shift_one_core [of ht] by (auto simp: ht_wf_def)

subsection \<open>Lookup\<close>

lemma ht_core_parts:
  assumes "ht_core ht"
  shows "hash_key (hash_func ht) (cmp_func ht)"
    and "st_wf (hash_func ht) (old_table ht)" and "st_wf (hash_func ht) (new_table ht)"
    and "ht_count ht = int (size (ht_data ht))" and "keys_distinct (cmp_func ht) (ht_data ht)"
  using assms by (auto simp: ht_core_def)

lemma in_st_data:
  "b < num_buckets st \<Longrightarrow> i < length (st_buckets st ! b) \<Longrightarrow> st_buckets st ! b ! i \<in># st_data st"
  unfolding st_data_def num_buckets_def by (auto intro!: bexI [of _ "st_buckets st ! b"])

lemma find_preceding_None:
  assumes "ht_core ht" and "hash_table_find_preceding_link ht k = None" and "d \<in># ht_data ht"
  shows "cmp_func ht k d \<noteq> 0"
proof -
  have none: "subtable_find_preceding_link (hash_func ht) (cmp_func ht) (new_table ht) k = None"
    "subtable_find_preceding_link (hash_func ht) (cmp_func ht) (old_table ht) k = None"
    using assms(2) by (auto simp: hash_table_find_preceding_link_def split: option.splits)
  note parts = ht_core_parts [OF assms(1)]
  show ?thesis
    using assms(3) subtable_find_None [OF parts(1,3) none(1)] subtable_find_None [OF parts(1,2) none(2)]
    by (auto simp: ht_data_def)
qed

definition table_of :: "'a hash_table \<Rightarrow> which_table \<Rightarrow> 'a subtable" where
  "table_of ht t = (case t of Old_Table \<Rightarrow> old_table ht | New_Table \<Rightarrow> new_table ht)"

lemma find_preceding_Some:
  assumes "ht_core ht" and "hash_table_find_preceding_link ht k = Some (t, b, i)"
  shows "b < num_buckets (table_of ht t)" and "i < length (st_buckets (table_of ht t) ! b)"
    and "cmp_func ht k (link_datum ht (t, b, i)) = 0" and "link_datum ht (t, b, i) \<in># ht_data ht"
proof -
  note parts = ht_core_parts [OF assms(1)]
  have pos: "b < num_buckets (table_of ht t) \<and> i < length (st_buckets (table_of ht t) ! b)
      \<and> cmp_func ht k (st_buckets (table_of ht t) ! b ! i) = 0"
    using assms(2) subtable_find_Some [OF parts(3), of "cmp_func ht" k b i]
      subtable_find_Some [OF parts(2), of "cmp_func ht" k b i]
    by (auto simp: hash_table_find_preceding_link_def table_of_def split: option.splits)
  then show "b < num_buckets (table_of ht t)" "i < length (st_buckets (table_of ht t) ! b)" by auto
  have d: "link_datum ht (t, b, i) = st_buckets (table_of ht t) ! b ! i"
    by (simp add: link_datum_def table_of_def)
  show "cmp_func ht k (link_datum ht (t, b, i)) = 0" using pos by (simp add: d)
  have "link_datum ht (t, b, i) \<in># st_data (table_of ht t)" unfolding d using pos by (intro in_st_data) auto
  then show "link_datum ht (t, b, i) \<in># ht_data ht" by (cases t) (auto simp: ht_data_def table_of_def)
qed

lemma hash_table_lookup_None:
  assumes "ht_wf ht"
  shows "fst (hash_table_lookup ht k) = None \<longleftrightarrow> (\<forall>d \<in># ht_data ht. cmp_func ht k d \<noteq> 0)"
proof -
  have core: "ht_core ht" using assms by (simp add: ht_wf_def)
  show ?thesis
  proof (cases "hash_table_find_preceding_link ht k")
    case None
    then show ?thesis using find_preceding_None [OF core None] by (simp add: hash_table_lookup_def)
  next
    case (Some l)
    obtain t b i where l: "l = (t, b, i)" by (cases l) auto
    show ?thesis
      using find_preceding_Some(3,4) [OF core Some [unfolded l]] Some l
      by (auto simp: hash_table_lookup_def)
  qed
qed

lemma hash_table_lookup_Some:
  assumes "ht_wf ht" and "fst (hash_table_lookup ht k) = Some d"
  shows "d \<in># ht_data ht" and "cmp_func ht k d = 0"
proof -
  have core: "ht_core ht" using assms(1) by (simp add: ht_wf_def)
  obtain t b i where l: "hash_table_find_preceding_link ht k = Some (t, b, i)"
      and d: "d = link_datum ht (t, b, i)"
    using assms(2) by (auto simp: hash_table_lookup_def split: option.splits)
  show "d \<in># ht_data ht" "cmp_func ht k d = 0"
    using find_preceding_Some(3,4) [OF core l] d by auto
qed

lemma hash_table_lookup_state:
  assumes "ht_wf ht"
  shows "ht_wf (snd (hash_table_lookup ht k))"
    and "ht_data (snd (hash_table_lookup ht k)) = ht_data ht"
    and "hash_func (snd (hash_table_lookup ht k)) = hash_func ht"
    and "cmp_func (snd (hash_table_lookup ht k)) = cmp_func ht"
    and "visiting (snd (hash_table_lookup ht k)) = visiting ht"
  using assms hash_table_shift_one_wf [OF assms] hash_table_shift_one_core(1) [of ht]
  by (auto simp: hash_table_lookup_def ht_wf_def split: option.split)

subsection \<open>Insertion\<close>

lemma keys_distinct_add:
  assumes "hash_key hash cmp" and "keys_distinct cmp M" and "\<forall>e \<in># M. cmp d e \<noteq> 0"
  shows "keys_distinct cmp (add_mset d M)"
  unfolding keys_distinct_def
proof
  fix k
  show "size (filter_mset (\<lambda>e. cmp k e = 0) (add_mset d M)) \<le> 1"
  proof (cases "cmp k d = 0")
    case True
    then have "cmp k e \<noteq> 0" if "e \<in># M" for e
      using hash_key.cmp_cong [OF assms(1) True, of e] assms(3) that by blast
    then have "filter_mset (\<lambda>e. cmp k e = 0) M = {#}" by (simp add: filter_mset_eq_mempty_iff)
    then show ?thesis using True by simp
  next
    case False
    then show ?thesis using assms(2) by (simp add: keys_distinct_def)
  qed
qed

lemma load_factor_exceeded:
  "0 < n \<Longrightarrow> LOAD_FACTOR_LIMIT < int a div int n \<longleftrightarrow> 4 * n \<le> a"
proof -
  assume n: "0 < n"
  have "LOAD_FACTOR_LIMIT < int a div int n \<longleftrightarrow> 4 \<le> a div n"
    unfolding LOAD_FACTOR_LIMIT_def zdiv_int [symmetric] by linarith
  also have "\<dots> \<longleftrightarrow> 4 * n \<le> a" by (rule less_eq_div_iff_mult_less_eq [OF n])
  finally show ?thesis .
qed

lemma hash_table_insert_absent:
  assumes "ht_wf ht" and "visiting ht = 0" and absent: "\<forall>e \<in># ht_data ht. cmp_func ht d e \<noteq> 0"
  obtains ht' where "hash_table_insert_inner ht d a = Some ht'" and "ht_wf ht'"
    and "ht_data ht' = add_mset d (ht_data ht)" and "hash_func ht' = hash_func ht"
    and "cmp_func ht' = cmp_func ht" and "visiting ht' = 0"
proof -
  have core: "ht_core ht" and pace: "size (ht_data ht) + size (st_data (old_table ht)) < 4 * num_buckets (new_table ht)"
    using assms(1) by (auto simp: ht_wf_def)
  note parts = ht_core_parts [OF core]
  let ?b = "subtable_find_bucket (hash_func ht) (new_table ht) d"
  define h1 where "h1 = ht\<lparr>new_table := subtable_push ?b d (new_table ht), ht_count := ht_count ht + 1\<rparr>"
  have lk: "hash_table_lookup ht d = (None, ht)"
    using hash_table_lookup_None [OF assms(1), of d] absent
    by (auto simp: hash_table_lookup_def split: option.splits)
  have data1: "ht_data h1 = add_mset d (ht_data ht)"
    by (simp add: h1_def ht_data_def st_data_push [OF subtable_find_bucket_less [OF parts(3)]])
  have core1: "ht_core h1"
    using core data1 st_wf_push [OF parts(3), of d] keys_distinct_add [OF parts(1,5) absent] parts(4)
    unfolding ht_core_def by (simp add: h1_def)
  have nb1: "num_buckets (new_table h1) = num_buckets (new_table ht)"
    and old1: "old_table h1 = old_table ht" by (simp_all add: h1_def)
  have cnt1: "ht_count h1 = int (size (ht_data h1))" and sz1: "size (ht_data h1) = Suc (size (ht_data ht))"
    using core1 data1 by (simp_all add: ht_core_def)
  have nbpos: "0 < num_buckets (new_table ht)" using parts(3) by (simp add: st_wf_def)
  note full = load_factor_exceeded [OF nbpos, of "size (ht_data h1)"]
  define h2 where "h2 = (if 4 * num_buckets (new_table ht) \<le> size (ht_data h1)
      then h1\<lparr>old_table := new_table h1, new_table := subtable_init (num_buckets (new_table h1) * 2),
             next_old_bucket := 0\<rparr> else h1)"
  have empty_old: "st_data (old_table ht) = {#}" if "4 * num_buckets (new_table ht) \<le> size (ht_data h1)"
  proof -
    have "size (st_data (old_table ht)) = 0" using that pace sz1 by linarith
    then show ?thesis by simp
  qed
  have grown: "hash_table_grow h1 = Some h2" if "4 * num_buckets (new_table ht) \<le> size (ht_data h1)"
    using that subtable_free_empty [OF empty_old [OF that]]
    by (simp add: h2_def hash_table_grow_def old1)
  have cntS: "ht_count ht + 1 = int (size (ht_data h1))" using cnt1 by (simp add: h1_def)
  have step: "(if LOAD_FACTOR_LIMIT < (ht_count ht + 1) div int (num_buckets (new_table ht))
      then hash_table_grow h1 else Some h1) = Some h2"
    using grown by (auto simp: full cntS h2_def)
  have res: "hash_table_insert_inner ht d a = Some (hash_table_shift_one h2)"
    using assms(2) step [unfolded h1_def] unfolding hash_table_insert_inner_def lk Let_def
    by (simp split del: if_split)
  have data2: "ht_data h2 = ht_data h1"
    using empty_old by (auto simp: h2_def ht_data_def old1)
  have core2: "ht_core h2"
    using core1 data2 nbpos unfolding ht_core_def h2_def by (auto simp: nb1)
  have pace2: "size (ht_data h2) + (size (st_data (old_table h2)) - 1) < 4 * num_buckets (new_table h2)"
    using pace sz1 empty_old data2 nbpos by (auto simp: h2_def nb1 old1 ht_data_def)
  have frame: "hash_func h2 = hash_func ht" "cmp_func h2 = cmp_func ht" "visiting h2 = visiting ht"
    by (simp_all add: h2_def h1_def)
  show thesis
    using hash_table_shift_one_core [OF core2] pace2 data1 data2 frame assms(2)
    by (intro that [OF res]) (simp_all add: ht_wf_def)
qed

lemma hash_table_insert_present:
  assumes "ht_wf ht" and "visiting ht = 0" and "e \<in># ht_data ht" and "cmp_func ht d e = 0"
  shows "hash_table_insert_inner ht d a =
    (if a then None else Some (snd (hash_table_lookup ht d)))"
proof -
  obtain x h where "hash_table_lookup ht d = (Some x, h)"
    using hash_table_lookup_None [OF assms(1), of d] assms(3,4)
    by (cases "hash_table_lookup ht d"; cases "fst (hash_table_lookup ht d)") auto
  then show ?thesis using assms(2) unfolding hash_table_insert_inner_def by simp
qed

subsection \<open>Removal\<close>

lemma keys_distinct_sub: "keys_distinct cmp M \<Longrightarrow> N \<subseteq># M \<Longrightarrow> keys_distinct cmp N"
  unfolding keys_distinct_def by (meson multiset_filter_mono le_trans size_mset_mono)

lemma keys_distinct_unique:
  assumes "keys_distinct cmp M" and "d \<in># M" and "e \<in># M" and "cmp k d = 0" and "cmp k e = 0"
  shows "d = e"
proof -
  let ?F = "filter_mset (\<lambda>x. cmp k x = 0) M"
  have "d \<in># ?F" "e \<in># ?F" using assms by simp_all
  then obtain N where N: "?F = add_mset d N" by (meson multi_member_split)
  have "size ?F \<le> 1" using assms(1) by (simp add: keys_distinct_def)
  then have "N = {#}" unfolding N by simp
  with \<open>e \<in># ?F\<close> show ?thesis unfolding N by simp
qed

lemma hash_table_remove_absent:
  assumes "ht_wf ht" and "\<forall>e \<in># ht_data ht. cmp_func ht k e \<noteq> 0"
  shows "hash_table_remove ht k = None"
proof -
  have "hash_table_find_preceding_link ht k = None"
    using hash_table_lookup_None [OF assms(1), of k] assms(2)
    by (auto simp: hash_table_lookup_def split: option.splits)
  then show ?thesis by (simp add: hash_table_remove_def)
qed

lemma hash_table_remove_present:
  assumes "ht_wf ht" and "visiting ht = 0" and "e \<in># ht_data ht" and "cmp_func ht k e = 0"
  obtains ht' where "hash_table_remove ht k = Some ht'" and "ht_wf ht'"
    and "ht_data ht' = ht_data ht - {#e#}" and "hash_func ht' = hash_func ht"
    and "cmp_func ht' = cmp_func ht" and "visiting ht' = 0"
proof -
  have core: "ht_core ht" and pace: "size (ht_data ht) + size (st_data (old_table ht)) < 4 * num_buckets (new_table ht)"
    using assms(1) by (auto simp: ht_wf_def)
  note parts = ht_core_parts [OF core]
  obtain t b i where l: "hash_table_find_preceding_link ht k = Some (t, b, i)"
    using find_preceding_None [OF core _ assms(3), of k] assms(4)
    by (cases "hash_table_find_preceding_link ht k") auto
  note pos = find_preceding_Some [OF core l]
  let ?d = "link_datum ht (t, b, i)"
  have "?d = e" by (rule keys_distinct_unique [OF parts(5) pos(4) assms(3) pos(3) assms(4)])
  then have e: "st_buckets (table_of ht t) ! b ! i = e" by (simp add: link_datum_def table_of_def)
  note un = st_data_unlink [OF pos(1,2), unfolded e]
  have wft: "st_wf (hash_func ht) (table_of ht t)" using parts by (cases t) (auto simp: table_of_def)
  note wfu = st_wf_unlink [OF wft pos(1,2)]
  have nb: "num_buckets (subtable_unlink b i st) = num_buckets st" for st :: "'a subtable"
    by (simp add: subtable_unlink_def num_buckets_def)
  define ht' where "ht' = (case t of
      Old_Table \<Rightarrow> ht\<lparr>old_table := subtable_unlink b i (old_table ht), ht_count := ht_count ht - 1\<rparr>
    | New_Table \<Rightarrow> ht\<lparr>new_table := subtable_unlink b i (new_table ht), ht_count := ht_count ht - 1\<rparr>)"
  have res: "hash_table_remove ht k = Some ht'"
    using assms(2) l by (cases t) (simp_all add: hash_table_remove_def ht'_def)
  have data: "add_mset e (ht_data ht') = ht_data ht"
    using un by (cases t) (auto simp: ht'_def ht_data_def table_of_def)
  then have data': "ht_data ht' = ht_data ht - {#e#}" by (metis add_mset_remove_trivial)
  have size: "size (ht_data ht) = Suc (size (ht_data ht'))" by (subst data [symmetric]) simp
  have "size (st_data (subtable_unlink b i (table_of ht t))) \<le> size (st_data (table_of ht t))"
    by (subst un [symmetric]) simp
  then have old_le: "size (st_data (old_table ht')) \<le> size (st_data (old_table ht))"
    by (cases t) (simp_all add: ht'_def table_of_def)
  have low: "st_buckets (old_table ht') ! c = []"
    if "c < next_old_bucket ht" "c < num_buckets (old_table ht)" for c
  proof -
    have "st_buckets (old_table ht) ! c = []" using core that unfolding ht_core_def by blast
    moreover from this have "c \<noteq> b" if "t = Old_Table" using pos(2) that by (auto simp: table_of_def)
    ultimately show ?thesis by (cases t) (simp_all add: ht'_def subtable_unlink_def)
  qed
  have frame: "hash_func ht' = hash_func ht" "cmp_func ht' = cmp_func ht" "visiting ht' = 0"
    "next_old_bucket ht' = next_old_bucket ht" "num_buckets (old_table ht') = num_buckets (old_table ht)"
    "num_buckets (new_table ht') = num_buckets (new_table ht)" "ht_count ht' = ht_count ht - 1"
    using assms(2) by (cases t; simp add: ht'_def nb)+
  have "ht_count ht' = int (size (ht_data ht'))" using frame(7) parts(4) size by linarith
  moreover have "keys_distinct (cmp_func ht) (ht_data ht')"
    by (rule keys_distinct_sub [OF parts(5)]) (simp add: data')
  moreover have "st_wf (hash_func ht) (old_table ht')" "st_wf (hash_func ht) (new_table ht')"
    using wfu parts(2,3) by (cases t; simp add: ht'_def table_of_def)+
  ultimately have "ht_core ht'" unfolding ht_core_def frame using parts(1) low by blast
  then have "ht_wf ht'" using pace size old_le by (simp add: ht_wf_def frame)
  then show thesis using that [OF res _ data'] frame by blast
qed

subsection \<open>Visiting and emptying the table\<close>

lemma fold_concat_lists: "fold (\<lambda>b u. fold f b u) bs u = fold f (concat bs) u"
  by (induction bs arbitrary: u) simp_all

lemma visit_every_inner_eq:
  "hash_table_visit_every_inner st ff u = fold (\<lambda>d u. ff u d) (concat (st_buckets st)) u"
  by (simp add: hash_table_visit_every_inner_def fold_concat_lists)

lemma fold_free_links:
  "fold (\<lambda>d (st, u, c). (st\<lparr>st_count := st_count st - 1\<rparr>, ff u d, c - 1)) ds (st, u, c) =
     (st\<lparr>st_count := st_count st - int (length ds)\<rparr>, fold (\<lambda>d u. ff u d) ds u, c - int (length ds))"
  by (induction ds arbitrary: st u c) auto

lemma remove_every_inner_upto:
  fixes st :: "'a subtable"
  assumes "k \<le> num_buckets st"
  shows "fold (\<lambda>bucket (st, u, c).
            fold (\<lambda>d (st, u, c). (st\<lparr>st_count := st_count st - 1\<rparr>, ff u d, c - 1))
              (st_buckets st ! bucket)
              (st\<lparr>st_buckets := (st_buckets st)[bucket := []]\<rparr>, u, c))
       [0..<k] (st, u, c) =
     (let ds = concat (take k (st_buckets st)) in
      (st\<lparr>st_buckets := replicate k [] @ drop k (st_buckets st), st_count := st_count st - int (length ds)\<rparr>,
       fold (\<lambda>d u. ff u d) ds u, c - int (length ds)))"
  using assms
proof (induction k)
  case (Suc k)
  then have k: "k < length (st_buckets st)" by (simp add: num_buckets_def)
  have upd: "(replicate k [] @ drop k (st_buckets st))[k := []] = replicate (Suc k) [] @ drop (Suc k) (st_buckets st)"
    using k by (simp add: list_update_append Cons_nth_drop_Suc [symmetric] replicate_app_Cons_same)
  have nth: "(replicate k [] @ drop k (st_buckets st)) ! k = st_buckets st ! k"
    using k by (simp add: nth_append)
  show ?case
    using Suc k by (simp add: Let_def fold_free_links upd nth take_Suc_conv_app_nth del: replicate_Suc)
qed simp

lemma remove_every_inner_eq:
  fixes st :: "'a subtable"
  shows "hash_table_remove_every_inner st ff u c =
     (st\<lparr>st_buckets := replicate (num_buckets st) [], st_count := st_count st - int (size (st_data st))\<rparr>,
      fold (\<lambda>d u. ff u d) (concat (st_buckets st)) u, c - int (size (st_data st)))"
  unfolding hash_table_remove_every_inner_def
  by (simp add: remove_every_inner_upto Let_def) (simp add: num_buckets_def st_data_def)

lemma hash_table_remove_every_eq:
  assumes "ht_wf ht"
  shows "hash_table_remove_every ht ff u =
     Some (ht\<lparr>old_table := subtable_init (num_buckets (old_table ht)),
              new_table := subtable_init (num_buckets (new_table ht)), ht_count := 0\<rparr>,
           hash_table_visit_every ht ff u)"
proof -
  have "ht_core ht" using assms by (simp add: ht_wf_def)
  note parts = ht_core_parts [OF this]
  have st: "st\<lparr>st_buckets := replicate (num_buckets st) [], st_count := st_count st - int (size (st_data st))\<rparr>
      = subtable_init (num_buckets st)" if "st_wf (hash_func ht) st" for st :: "'a subtable"
    using that by (cases st) (simp add: st_wf_def subtable_init_def)
  have "ht_count ht - int (size (st_data (old_table ht))) - int (size (st_data (new_table ht))) = 0"
    using parts(4) by (simp add: ht_data_def)
  then show ?thesis
    unfolding hash_table_remove_every_def remove_every_inner_eq
    by (simp add: st [OF parts(2)] st [OF parts(3)] hash_table_visit_every_def visit_every_inner_eq)
qed

lemma hash_table_emptied:
  assumes "ht_wf ht"
  shows "ht_wf (ht\<lparr>old_table := subtable_init (num_buckets (old_table ht)),
              new_table := subtable_init (num_buckets (new_table ht)), ht_count := 0\<rparr>)"
  using assms unfolding ht_wf_def ht_core_def
  by (auto simp: ht_data_def st_wf_def subtable_init_def num_buckets_def st_data_def keys_distinct_def)

section \<open>The table as a set of keys\<close>

text \<open>
  The abstract table is the multiset of its data. Operations fail in the specification exactly where
  the header of \<^verbatim>\<open>hash_table.h\<close> forbids the call: inserting a key that is present, removing one
  that is not.
\<close>

datatype 'a table_op = Insert 'a | Union 'a | Lookup 'a | Remove 'a

definition present :: "('a \<Rightarrow> 'a \<Rightarrow> int) \<Rightarrow> 'a \<Rightarrow> 'a multiset \<Rightarrow> bool" where
  "present cmp k M \<longleftrightarrow> (\<exists>e \<in># M. cmp k e = 0)"

fun table_spec :: "('a \<Rightarrow> 'a \<Rightarrow> int) \<Rightarrow> 'a table_op \<Rightarrow> 'a multiset \<Rightarrow> 'a multiset option" where
  "table_spec cmp (Insert d) M = (if present cmp d M then None else Some (add_mset d M))"
| "table_spec cmp (Union d) M = (if present cmp d M then Some M else Some (add_mset d M))"
| "table_spec cmp (Lookup k) M = Some M"
| "table_spec cmp (Remove k) M =
     (if present cmp k M then Some (filter_mset (\<lambda>e. cmp k e \<noteq> 0) M) else None)"

fun table_step :: "'a table_op \<Rightarrow> 'a hash_table \<Rightarrow> 'a hash_table option" where
  "table_step (Insert d) ht = hash_table_insert ht d"
| "table_step (Union d) ht = hash_table_union ht d"
| "table_step (Lookup k) ht = Some (snd (hash_table_lookup ht k))"
| "table_step (Remove k) ht = hash_table_remove ht k"

fun table_run :: "'a table_op list \<Rightarrow> 'a hash_table \<Rightarrow> 'a hash_table option" where
  "table_run [] ht = Some ht"
| "table_run (a # as) ht = do { ht \<leftarrow> table_step a ht; table_run as ht }"

fun table_spec_run :: "('a \<Rightarrow> 'a \<Rightarrow> int) \<Rightarrow> 'a table_op list \<Rightarrow> 'a multiset \<Rightarrow> 'a multiset option" where
  "table_spec_run cmp [] M = Some M"
| "table_spec_run cmp (a # as) M = do { M \<leftarrow> table_spec cmp a M; table_spec_run cmp as M }"

definition ht_ready :: "('a \<Rightarrow> u32) \<Rightarrow> ('a \<Rightarrow> 'a \<Rightarrow> int) \<Rightarrow> 'a hash_table \<Rightarrow> bool" where
  "ht_ready hash cmp ht \<longleftrightarrow>
     ht_wf ht \<and> visiting ht = 0 \<and> hash_func ht = hash \<and> cmp_func ht = cmp"

lemma ht_ready_init: "hash_key hash cmp \<Longrightarrow> ht_ready hash cmp (hash_table_init hash cmp)"
  by (simp add: ht_ready_def ht_wf_def ht_core_def hash_table_init_def ht_data_def keys_distinct_def)
    (simp add: subtable_init_def num_buckets_def)

lemma filter_mset_remove_key:
  assumes "keys_distinct cmp M" and "e \<in># M" and "cmp k e = 0"
  shows "filter_mset (\<lambda>d. cmp k d \<noteq> 0) M = M - {#e#}"
proof -
  obtain N where N: "M = add_mset e N" using assms(2) by (meson multi_member_split)
  have "size (filter_mset (\<lambda>d. cmp k d = 0) M) \<le> 1" using assms(1) by (simp add: keys_distinct_def)
  then have "filter_mset (\<lambda>d. cmp k d = 0) N = {#}" using assms(3) by (simp add: N)
  then have "\<forall>d \<in># N. cmp k d \<noteq> 0" by (simp add: filter_mset_eq_mempty_iff)
  then have "filter_mset (\<lambda>d. cmp k d \<noteq> 0) N = N" by (simp add: filter_mset_eq_conv)
  then show ?thesis using assms(3) by (simp add: N)
qed

lemma table_step_Insert_Union:
  assumes "ht_ready hash cmp ht"
  shows "case hash_table_insert_inner ht d a of
      None \<Rightarrow> a \<and> present cmp d (ht_data ht)
    | Some ht' \<Rightarrow> ht_ready hash cmp ht'
        \<and> (if present cmp d (ht_data ht) then \<not> a \<and> ht_data ht' = ht_data ht
           else ht_data ht' = add_mset d (ht_data ht))"
proof (cases "present cmp d (ht_data ht)")
  case True
  then obtain e where e: "e \<in># ht_data ht" "cmp_func ht d e = 0"
    using assms by (auto simp: present_def ht_ready_def)
  have r: "ht_wf ht" "visiting ht = 0" using assms by (auto simp: ht_ready_def)
  show ?thesis
    using assms True hash_table_lookup_state [OF r(1), of d]
    by (simp add: hash_table_insert_present [OF r e] ht_ready_def)
next
  case False
  then have ab: "\<forall>e \<in># ht_data ht. cmp_func ht d e \<noteq> 0" using assms by (auto simp: present_def ht_ready_def)
  have r: "ht_wf ht" "visiting ht = 0" using assms by (auto simp: ht_ready_def)
  show ?thesis
    by (rule hash_table_insert_absent [OF r ab, of a]) (use assms False in \<open>simp add: ht_ready_def\<close>)
qed

lemma table_step_Remove:
  assumes "ht_ready hash cmp ht"
  shows "case hash_table_remove ht k of
      None \<Rightarrow> \<not> present cmp k (ht_data ht)
    | Some ht' \<Rightarrow> ht_ready hash cmp ht' \<and> present cmp k (ht_data ht)
        \<and> ht_data ht' = filter_mset (\<lambda>e. cmp k e \<noteq> 0) (ht_data ht)"
proof (cases "present cmp k (ht_data ht)")
  case True
  then obtain e where e: "e \<in># ht_data ht" "cmp_func ht k e = 0"
    using assms by (auto simp: present_def ht_ready_def)
  have r: "ht_wf ht" "visiting ht = 0" and c: "cmp_func ht = cmp" using assms by (auto simp: ht_ready_def)
  have kd: "keys_distinct cmp (ht_data ht)" using r(1) c by (auto simp: ht_wf_def ht_core_def)
  show ?thesis
    by (rule hash_table_remove_present [OF r e])
      (use assms True filter_mset_remove_key [OF kd e(1) e(2) [unfolded c]] in \<open>simp add: ht_ready_def\<close>)
next
  case False
  then show ?thesis
    using assms hash_table_remove_absent [of ht k] by (auto simp: present_def ht_ready_def)
qed

lemma table_step_refines:
  assumes "ht_ready hash cmp ht"
  shows "map_option ht_data (table_step a ht) = table_spec cmp a (ht_data ht)"
    and "table_step a ht = Some ht' \<Longrightarrow> ht_ready hash cmp ht'"
proof -
  note insert = table_step_Insert_Union [OF assms] and remove = table_step_Remove [OF assms]
  have wf: "ht_wf ht" using assms by (simp add: ht_ready_def)
  show "map_option ht_data (table_step a ht) = table_spec cmp a (ht_data ht)"
  proof (cases a)
    case (Insert d)
    then show ?thesis
      using insert [of True d] by (auto simp: hash_table_insert_def split: option.splits if_splits)
  next
    case (Union d)
    then show ?thesis
      using insert [of False d] by (auto simp: hash_table_union_def split: option.splits if_splits)
  next
    case (Lookup k)
    then show ?thesis using hash_table_lookup_state(2) [OF wf] by simp
  next
    case (Remove k)
    then show ?thesis using remove [of k] by (auto split: option.splits)
  qed
  show "ht_ready hash cmp ht'" if "table_step a ht = Some ht'"
  proof (cases a)
    case (Lookup k)
    then show ?thesis using that assms hash_table_lookup_state [OF wf, of k] by (auto simp: ht_ready_def)
  next
    case (Insert d)
    then show ?thesis using that insert [of True d] by (simp add: hash_table_insert_def)
  next
    case (Union d)
    then show ?thesis using that insert [of False d] by (simp add: hash_table_union_def)
  next
    case (Remove k)
    then show ?thesis using that remove [of k] by simp
  qed
qed

lemma table_run_refines:
  "ht_ready hash cmp ht \<Longrightarrow>
   map_option ht_data (table_run as ht) = table_spec_run cmp as (ht_data ht)
   \<and> (\<forall>ht'. table_run as ht = Some ht' \<longrightarrow> ht_ready hash cmp ht')"
proof (induction as arbitrary: ht)
  case (Cons a as)
  note step = table_step_refines [OF Cons.prems, of a]
  show ?case
  proof (cases "table_step a ht")
    case None
    then show ?thesis using step(1) by simp
  next
    case (Some h)
    then show ?thesis using step(1) Cons.IH [OF step(2) [OF Some]] by (auto simp flip: step(1))
  qed
qed simp

lemma hash_table_drain:
  assumes "ht_ready hash cmp ht"
  obtains ht' ds where "hash_table_free_discard ht = Some ()"
    and "hash_table_remove_every ht (\<lambda>u d. u @ [d]) [] = Some (ht', ds)"
    and "mset ds = ht_data ht" and "ht_ready hash cmp ht'" and "ht_data ht' = {#}" and "ht_count ht' = 0"
    and "ht_count ht = int (length ds)"
proof -
  have wf: "ht_wf ht" using assms by (simp add: ht_ready_def)
  define e where "e = ht\<lparr>old_table := subtable_init (num_buckets (old_table ht)),
              new_table := subtable_init (num_buckets (new_table ht)), ht_count := 0\<rparr>"
  have e: "hash_table_remove_every ht ff u = Some (e, hash_table_visit_every ht ff u)" for ff and u :: 'c
    unfolding e_def by (rule hash_table_remove_every_eq [OF wf])
  have "fold (\<lambda>d u. u @ [d]) ds us = us @ ds" for ds us :: "'a list"
    by (induction ds arbitrary: us) simp_all
  then have "hash_table_visit_every ht (\<lambda>u d. u @ [d]) [] =
      concat (st_buckets (old_table ht)) @ concat (st_buckets (new_table ht))"
    by (simp add: hash_table_visit_every_def visit_every_inner_eq)
  moreover have "ht_ready hash cmp e" "ht_data e = {#}"
    using assms hash_table_emptied [OF wf] by (simp_all add: ht_ready_def e_def ht_data_def)
  moreover have "hash_table_free e = Some ()"
    by (simp add: hash_table_free_def e_def subtable_free_empty)
  ultimately show thesis
    using that [of e "concat (st_buckets (old_table ht)) @ concat (st_buckets (new_table ht))"]
      e [of "\<lambda>u d. u" "()"] e [of "\<lambda>u d. u @ [d]" "[]"] ht_core_parts(4) [of ht] wf
    by (simp add: hash_table_free_discard_def ht_data_def st_data_def ht_wf_def) (simp add: e_def)
qed

lemma subtract_worker_step:
  assumes "ht_ready hash cmp ht"
  obtains ht' where "hash_table_subtract_worker (Some ht) d = Some ht'" and "ht_ready hash cmp ht'"
    and "ht_data ht' = filter_mset (\<lambda>e. cmp d e \<noteq> 0) (ht_data ht)"
proof -
  have wf: "ht_wf ht" and cmp: "cmp_func ht = cmp" using assms by (auto simp: ht_ready_def)
  note state = hash_table_lookup_state [OF wf, of d]
  have ready: "ht_ready hash cmp (snd (hash_table_lookup ht d))"
    using state assms by (simp add: ht_ready_def)
  show thesis
  proof (cases "present cmp d (ht_data ht)")
    case True
    then obtain x h where x: "hash_table_lookup ht d = (Some x, h)"
      using hash_table_lookup_None [OF wf, of d] cmp
      by (cases "hash_table_lookup ht d"; cases "fst (hash_table_lookup ht d)") (auto simp: present_def)
    then show thesis
      using table_step_Remove [OF ready, of d] True state(2) that
      by (auto simp: hash_table_subtract_worker_def split: option.splits)
  next
    case False
    then have "fst (hash_table_lookup ht d) = None"
      using hash_table_lookup_None [OF wf, of d] cmp by (auto simp: present_def)
    then have "hash_table_subtract_worker (Some ht) d = Some (snd (hash_table_lookup ht d))"
      by (cases "hash_table_lookup ht d") (simp add: hash_table_subtract_worker_def)
    moreover have "filter_mset (\<lambda>e. cmp d e \<noteq> 0) (ht_data ht) = ht_data ht"
      using False by (auto simp: present_def filter_mset_eq_conv)
    ultimately show thesis using that ready state(2) by simp
  qed
qed

lemma subtract_worker_fold:
  "ht_ready hash cmp ht \<Longrightarrow>
   \<exists>ht'. fold (\<lambda>d u. hash_table_subtract_worker u d) ds (Some ht) = Some ht' \<and> ht_ready hash cmp ht'
     \<and> ht_data ht' = filter_mset (\<lambda>e. \<forall>d \<in> set ds. cmp d e \<noteq> 0) (ht_data ht)"
proof (induction ds arbitrary: ht)
  case (Cons d ds)
  obtain h where h: "hash_table_subtract_worker (Some ht) d = Some h" "ht_ready hash cmp h"
      "ht_data h = filter_mset (\<lambda>e. cmp d e \<noteq> 0) (ht_data ht)"
    by (rule subtract_worker_step [OF Cons.prems, of d])
  then show ?case using Cons.IH [OF h(2)] by (simp add: filter_filter_mset conj_commute)
qed simp

section \<open>Properties\<close>

lemma masked_key: "hash_key (\<lambda>k :: u32. k AND 3) (\<lambda>a b. uint a - uint b)"
  by unfold_locales (simp_all flip: word_uint_eq_iff)

text \<open>
  C5: Every sequence of insertions, unions, lookups and removals on a fresh table does what the
  same sequence does on a set of keys. In particular an assertion fails only where the caller breaks the
  contract (a duplicate insertion, a removal of an absent key): the incremental rehash always empties the old
  subtable before the table grows again, so the assertions of \<^verbatim>\<open>subtable_free\<close> never fire.
\<close>

theorem hash_table_refines_set:
  assumes "hash_key hash cmp"
  shows "map_option ht_data (table_run as (hash_table_init hash cmp)) = table_spec_run cmp as {#}"
proof -
  have "ht_data (hash_table_init hash cmp) = {#}" by (simp add: hash_table_init_def ht_data_def)
  then show ?thesis using table_run_refines [OF ht_ready_init [OF assms], of as] by simp
qed

theorem hash_table_refines_set_witness:
  "hash_key (\<lambda>k :: u32. k AND 3) (\<lambda>a b. uint a - uint b) \<and>
   map_option ht_data (table_run [Insert 1, Insert 5, Union 5, Remove 1, Insert 9]
     (hash_table_init (\<lambda>k :: u32. k AND 3) (\<lambda>a b. uint a - uint b))) = Some {#5, 9#}"
proof -
  have key: "hash_key (\<lambda>k :: u32. k AND 3) (\<lambda>a b. uint a - uint b)" by (rule masked_key)
  show ?thesis unfolding hash_table_refines_set [OF key] using key by (simp add: present_def)
qed

text \<open>
  C29: After any such sequence, a lookup answers with the stored datum whose key matches, if the
  set has one, and with nothing otherwise; it leaves the contents alone.
\<close>

theorem hash_table_lookup_correct:
  assumes "hash_key hash cmp" and "table_run as (hash_table_init hash cmp) = Some ht"
    and "table_spec_run cmp as {#} = Some M"
  shows "(case fst (hash_table_lookup ht k) of
            None \<Rightarrow> \<not> present cmp k M
          | Some d \<Rightarrow> filter_mset (\<lambda>e. cmp k e = 0) M = {#d#})
         \<and> ht_data (snd (hash_table_lookup ht k)) = M"
proof -
  note run = table_run_refines [OF ht_ready_init [OF assms(1)], of as]
  have "ht_data (hash_table_init hash cmp) = {#}" by (simp add: hash_table_init_def ht_data_def)
  then have M: "ht_data ht = M" using run assms(2,3) by simp
  have ready: "ht_ready hash cmp ht" using run assms(2) by blast
  then have wf: "ht_wf ht" and c: "cmp_func ht = cmp" by (auto simp: ht_ready_def)
  have kd: "keys_distinct cmp M" using wf c M by (auto simp: ht_wf_def ht_core_def)
  show ?thesis
  proof (cases "fst (hash_table_lookup ht k)")
    case None
    then show ?thesis using hash_table_lookup_None [OF wf, of k] hash_table_lookup_state(2) [OF wf, of k]
      by (auto simp: present_def M c)
  next
    case (Some d)
    then have d: "d \<in># M" "cmp k d = 0" using hash_table_lookup_Some [OF wf Some] by (auto simp: M c)
    have "filter_mset (\<lambda>e. cmp k e = 0) M = {#d#}"
      using multiset_partition [of M "\<lambda>e. cmp k e = 0"] filter_mset_remove_key [OF kd d] d(1)
      by (metis add_mset_remove_trivial_If add_right_cancel add_mset_add_single insert_DiffM2 union_commute)
    then show ?thesis using Some hash_table_lookup_state(2) [OF wf, of k] by (simp add: M)
  qed
qed

theorem hash_table_lookup_correct_witness:
  "\<exists>ht. table_run [Insert 1, Insert 5, Remove 1] (hash_table_init (\<lambda>k :: u32. k AND 3) (\<lambda>a b. uint a - uint b)) = Some ht
     \<and> table_spec_run (\<lambda>a b. uint a - uint b) [Insert 1, Insert 5, Remove 1] {#} = Some {#5 :: u32#}
     \<and> fst (hash_table_lookup ht 5) = Some 5 \<and> fst (hash_table_lookup ht 1) = None"
proof -
  let ?as = "[Insert 1, Insert 5, Remove 1] :: u32 table_op list"
  let ?h = "\<lambda>k :: u32. k AND 3" let ?c = "\<lambda>a b :: u32. uint a - uint b"
  have spec: "table_spec_run ?c ?as {#} = Some {#5 :: u32#}" by (simp add: present_def)
  have "table_run ?as (hash_table_init ?h ?c) \<noteq> None" by code_simp
  then obtain ht where run: "table_run ?as (hash_table_init ?h ?c) = Some ht" by blast
  note law = hash_table_lookup_correct [OF masked_key run spec]
  have "fst (hash_table_lookup ht 5) = Some 5" "fst (hash_table_lookup ht 1) = None"
    using law [of 5] law [of 1] by (auto simp: present_def split: option.splits)
  then show ?thesis using run spec by blast
qed

text \<open>
  C30: Subtracting a table removes exactly the data whose key the other table holds, and never
  trips an assertion of the removal.
\<close>

theorem hash_table_subtract_correct:
  assumes "ht_ready hash cmp ht0" and "hash_func ht1 = hash" and "cmp_func ht1 = cmp"
  shows "\<exists>ht'. hash_table_subtract ht0 ht1 = Some ht' \<and> ht_ready hash cmp ht'
     \<and> ht_data ht' = filter_mset (\<lambda>e. \<forall>d \<in># ht_data ht1. cmp d e \<noteq> 0) (ht_data ht0)"
proof -
  let ?ds = "concat (st_buckets (old_table ht1)) @ concat (st_buckets (new_table ht1))"
  have "hash_table_subtract ht0 ht1 = fold (\<lambda>d u. hash_table_subtract_worker u d) ?ds (Some ht0)"
    using assms by (simp add: hash_table_subtract_def ht_ready_def hash_table_visit_every_def visit_every_inner_eq)
  moreover have "set ?ds = set_mset (ht_data ht1)" by (simp add: ht_data_def st_data_def)
  ultimately show ?thesis using subtract_worker_fold [OF assms(1), of ?ds] by simp
qed

theorem hash_table_subtract_correct_witness:
  "\<exists>ht0 ht1 ht'. table_run [Insert 1, Insert 5] (hash_table_init (\<lambda>k :: u32. k AND 3) (\<lambda>a b. uint a - uint b)) = Some ht0
     \<and> table_run [Insert 5, Insert 7] (hash_table_init (\<lambda>k :: u32. k AND 3) (\<lambda>a b. uint a - uint b)) = Some ht1
     \<and> hash_table_subtract ht0 ht1 = Some ht' \<and> ht_data ht' = {#1#}"
proof -
  let ?h = "\<lambda>k :: u32. k AND 3" let ?c = "\<lambda>a b :: u32. uint a - uint b"
  have init: "ht_data (hash_table_init ?h ?c) = {#}" by (simp add: hash_table_init_def ht_data_def)
  have run: "\<exists>ht. table_run [Insert a, Insert b] (hash_table_init ?h ?c) = Some ht
      \<and> ht_ready ?h ?c ht \<and> ht_data ht = {#a, b#}" if "a \<noteq> b" for a b
    using table_run_refines [OF ht_ready_init [OF masked_key], of "[Insert a, Insert b]"] that init
    by (simp add: present_def add_mset_commute flip: word_uint_eq_iff) auto
  obtain h0 where h0: "table_run [Insert 1, Insert 5] (hash_table_init ?h ?c) = Some h0"
      "ht_ready ?h ?c h0" "ht_data h0 = {#1, 5#}" using run [of 1 5] by auto
  obtain h1 where h1: "table_run [Insert 5, Insert 7] (hash_table_init ?h ?c) = Some h1"
      "ht_ready ?h ?c h1" "ht_data h1 = {#5, 7#}" using run [of 5 7] by auto
  have "hash_func h1 = ?h" "cmp_func h1 = ?c" using h1(2) by (auto simp: ht_ready_def)
  then obtain h where "hash_table_subtract h0 h1 = Some h" "ht_data h = {#1#}"
    using hash_table_subtract_correct [OF h0(2), of h1] h0(3) h1(3) by auto
  then show ?thesis using h0(1) h1(1) by blast
qed

text \<open>
  C31: Emptying a table hands every datum it holds to the callback exactly once, leaves an
  empty table that is ready for use, and the table can then be freed: discarding never trips an assertion.
\<close>

theorem hash_table_remove_every_correct:
  assumes "ht_ready hash cmp ht"
  shows "hash_table_free_discard ht = Some ()
    \<and> (\<exists>ht' ds. hash_table_remove_every ht (\<lambda>u d. u @ [d]) [] = Some (ht', ds)
         \<and> mset ds = ht_data ht \<and> ht_ready hash cmp ht' \<and> ht_data ht' = {#})"
  using hash_table_drain [OF assms] by metis

theorem hash_table_remove_every_correct_witness:
  "\<exists>ht. table_run [Insert 1, Insert 5] (hash_table_init (\<lambda>k :: u32. k AND 3) (\<lambda>a b. uint a - uint b)) = Some ht
     \<and> hash_table_free_discard ht = Some ()"
proof -
  let ?h = "\<lambda>k :: u32. k AND 3" let ?c = "\<lambda>a b :: u32. uint a - uint b"
  have "table_run [Insert 1, Insert 5] (hash_table_init ?h ?c) \<noteq> None" by code_simp
  then obtain ht where run: "table_run [Insert 1, Insert 5] (hash_table_init ?h ?c) = Some ht" by blast
  then have "ht_ready ?h ?c ht" using table_run_refines [OF ht_ready_init [OF masked_key]] by blast
  then show ?thesis using hash_table_remove_every_correct run by blast
qed

end
