(* ===== verification/Zftp_Wire.thy ===== *)
theory Zftp_Wire
  imports Lite_Lib
begin

text \<open>
  Byte order and the wire format of the ZFTP file transfer protocol: the network order helpers of
  \<^verbatim>\<open>common/utils/zoog_network_order.h\<close> and the packed structures of
  \<^verbatim>\<open>common/zftp_module/zftp_protocol.h\<close>. A structure is a record of its fields as they sit in memory,
  that is with multi-byte fields still in network order, and its memory image on the little-endian
  targets is the list of its bytes. A \<^verbatim>\<open>hash_t\<close> is 20 bytes (SHA-1) and is kept as one 160-bit word.
\<close>

type_synonym u64 = "64 word"
type_synonym hash_t = "160 word"

section \<open>Definitions\<close>

subsection \<open>Memory images\<close>

definition le_bytes :: "nat \<Rightarrow> 'a :: len word \<Rightarrow> bytes" where
  "le_bytes n w = map (\<lambda>i. ucast (drop_bit (8 * i) w)) [0..<n]"

primrec of_le_bytes :: "bytes \<Rightarrow> 'a :: len word" where
  "of_le_bytes [] = 0"
| "of_le_bytes (b # bs) = ucast b OR push_bit 8 (of_le_bytes bs)"

definition field :: "nat \<Rightarrow> nat \<Rightarrow> bytes \<Rightarrow> 'a :: len word" where
  "field off n bs = of_le_bytes (take n (drop off bs))"

definition HASH_SIZE :: nat where
  "HASH_SIZE = 20"

definition hash_bytes :: "hash_t \<Rightarrow> bytes" where
  "hash_bytes h = le_bytes HASH_SIZE h"

subsection \<open>Network order\<close>

definition z_htonw :: "u64 \<Rightarrow> u64" where
  "z_htonw input =
     push_bit 56 (input AND 0x00000000000000ff)
     OR push_bit 40 (input AND 0x000000000000ff00)
     OR push_bit 24 (input AND 0x0000000000ff0000)
     OR push_bit 8 (input AND 0x00000000ff000000)
     OR drop_bit 8 (input AND 0x000000ff00000000)
     OR drop_bit 24 (input AND 0x0000ff0000000000)
     OR drop_bit 40 (input AND 0x00ff000000000000)
     OR drop_bit 56 (input AND 0xff00000000000000)"

definition z_ntohw :: "u64 \<Rightarrow> u64" where
  "z_ntohw input = z_htonw input"

definition z_htonl :: "u32 \<Rightarrow> u32" where
  "z_htonl input =
     push_bit 24 input OR push_bit 8 (input AND 0xff00) OR drop_bit 8 (input AND 0xff0000)
     OR drop_bit 24 input"

definition z_ntohl :: "u32 \<Rightarrow> u32" where
  "z_ntohl input = z_htonl input"

text \<open>The shifts are of an \<^verbatim>\<open>int\<close>, and the result is cut back to 16 bits.\<close>

definition z_htons :: "u16 \<Rightarrow> u16" where
  "z_htons input = ucast (push_bit 8 (ucast input :: u32) OR drop_bit 8 (ucast input :: u32))"

definition z_ntohs :: "u16 \<Rightarrow> u16" where
  "z_ntohs input = z_htons input"

definition z_ntohg :: "u32 \<Rightarrow> nat \<Rightarrow> u32 option" where
  "z_ntohg input sz =
     (if sz = 4 then Some (z_ntohl input)
      else if sz = 2 then Some (ucast (z_ntohs (ucast input)))
      else if sz = 1 then Some input
      else None)"

definition z_htong :: "u32 \<Rightarrow> nat \<Rightarrow> u32 option" where
  "z_htong input sz = z_ntohg input sz"

subsection \<open>Hashes\<close>

definition cmp_hash :: "hash_t \<Rightarrow> hash_t \<Rightarrow> int" where
  "cmp_hash h0 h1 = the (lite_memcmp (hash_bytes h0) (hash_bytes h1) HASH_SIZE)"

definition is_zero_hash :: "hash_t \<Rightarrow> bool" where
  "is_zero_hash h = the (lite_memequal (hash_bytes h) 0 HASH_SIZE)"

definition get_zero_hash :: hash_t where
  "get_zero_hash = of_le_bytes (the (lite_memset (replicate HASH_SIZE 1) 0 HASH_SIZE))"

subsection \<open>Packets\<close>

record ZFTPFileMetadata =
  file_len_network_order :: u32
  flags :: u32

record CompressionContext =
  state_id :: u32
  seq_id :: u32

record ZFTPRequestPacket =
  zrp_hash_len :: u16
  zrp_url_hint_len :: u16
  zrp_file_hash :: hash_t
  zrp_num_tree_locations :: u32
  zrp_padding_request :: u32
  zrp_compression_context :: CompressionContext
  zrp_data_start :: u32
  zrp_data_end :: u32

record ZFTPMerkleRecord =
  tree_location :: u32
  zmr_hash :: hash_t

record ZFTPDataPacket =
  zdp_code :: u16
  zdp_hash_len :: u16
  zftp_lg_block_size :: u8
  zftp_tree_degree :: u16
  zdp_file_hash :: hash_t
  zdp_metadata :: ZFTPFileMetadata
  zdp_num_merkle_records :: u16
  zdp_padding_size :: u32
  zdp_compression_context :: CompressionContext
  zdp_data_start :: u32
  zdp_data_end :: u32
  zdp_payload_size :: u32

text \<open>Sizes of the packed structures, and the reply codes.\<close>

definition sizeof_ZFTPRequestPacket :: nat where
  "sizeof_ZFTPRequestPacket = 48"

definition sizeof_ZFTPMerkleRecord :: nat where
  "sizeof_ZFTPMerkleRecord = 24"

definition sizeof_ZFTPDataPacket :: nat where
  "sizeof_ZFTPDataPacket = 61"

definition ZFTP_NO_COMPRESSION :: u32 where
  "ZFTP_NO_COMPRESSION = 0"

definition zftp_reply_data :: u16 where "zftp_reply_data = 0x0000"
definition zftp_reply_hint_required :: u16 where "zftp_reply_hint_required = 0x0101"
definition zftp_reply_error_incorrect_hash_for_url :: u16 where
  "zftp_reply_error_incorrect_hash_for_url = 0x0104"
definition zftp_reply_error_yeah_that_is_zero :: u16 where
  "zftp_reply_error_yeah_that_is_zero = 0x0105"

text \<open>A structure's memory image, and the structure found at the start of a buffer.\<close>

definition metadata_bytes :: "ZFTPFileMetadata \<Rightarrow> bytes" where
  "metadata_bytes m = le_bytes 4 (file_len_network_order m) @ le_bytes 4 (flags m)"

definition metadata_of :: "bytes \<Rightarrow> ZFTPFileMetadata" where
  "metadata_of bs = \<lparr>file_len_network_order = field 0 4 bs, flags = field 4 4 bs\<rparr>"

definition context_bytes :: "CompressionContext \<Rightarrow> bytes" where
  "context_bytes c = le_bytes 4 (state_id c) @ le_bytes 4 (seq_id c)"

definition context_of :: "bytes \<Rightarrow> CompressionContext" where
  "context_of bs = \<lparr>state_id = field 0 4 bs, seq_id = field 4 4 bs\<rparr>"

definition merkle_record_bytes :: "ZFTPMerkleRecord \<Rightarrow> bytes" where
  "merkle_record_bytes r = le_bytes 4 (tree_location r) @ hash_bytes (zmr_hash r)"

definition merkle_record_of :: "bytes \<Rightarrow> ZFTPMerkleRecord" where
  "merkle_record_of bs = \<lparr>tree_location = field 0 4 bs, zmr_hash = field 4 20 bs\<rparr>"

definition request_packet_bytes :: "ZFTPRequestPacket \<Rightarrow> bytes" where
  "request_packet_bytes p =
     le_bytes 2 (zrp_hash_len p) @ le_bytes 2 (zrp_url_hint_len p) @ hash_bytes (zrp_file_hash p)
     @ le_bytes 4 (zrp_num_tree_locations p) @ le_bytes 4 (zrp_padding_request p)
     @ context_bytes (zrp_compression_context p)
     @ le_bytes 4 (zrp_data_start p) @ le_bytes 4 (zrp_data_end p)"

definition request_packet_of :: "bytes \<Rightarrow> ZFTPRequestPacket" where
  "request_packet_of bs =
     \<lparr>zrp_hash_len = field 0 2 bs, zrp_url_hint_len = field 2 2 bs, zrp_file_hash = field 4 20 bs,
      zrp_num_tree_locations = field 24 4 bs, zrp_padding_request = field 28 4 bs,
      zrp_compression_context = context_of (drop 32 bs),
      zrp_data_start = field 40 4 bs, zrp_data_end = field 44 4 bs\<rparr>"

definition data_packet_bytes :: "ZFTPDataPacket \<Rightarrow> bytes" where
  "data_packet_bytes p =
     le_bytes 2 (zdp_code p) @ le_bytes 2 (zdp_hash_len p) @ le_bytes 1 (zftp_lg_block_size p)
     @ le_bytes 2 (zftp_tree_degree p) @ hash_bytes (zdp_file_hash p) @ metadata_bytes (zdp_metadata p)
     @ le_bytes 2 (zdp_num_merkle_records p) @ le_bytes 4 (zdp_padding_size p)
     @ context_bytes (zdp_compression_context p)
     @ le_bytes 4 (zdp_data_start p) @ le_bytes 4 (zdp_data_end p) @ le_bytes 4 (zdp_payload_size p)"

definition data_packet_of :: "bytes \<Rightarrow> ZFTPDataPacket" where
  "data_packet_of bs =
     \<lparr>zdp_code = field 0 2 bs, zdp_hash_len = field 2 2 bs, zftp_lg_block_size = field 4 1 bs,
      zftp_tree_degree = field 5 2 bs, zdp_file_hash = field 7 20 bs, zdp_metadata = metadata_of (drop 27 bs),
      zdp_num_merkle_records = field 35 2 bs, zdp_padding_size = field 37 4 bs,
      zdp_compression_context = context_of (drop 41 bs),
      zdp_data_start = field 49 4 bs, zdp_data_end = field 53 4 bs, zdp_payload_size = field 57 4 bs\<rparr>"

section \<open>Memory images round trip\<close>

lemma le_bytes_Suc: "le_bytes (Suc n) w = ucast w # le_bytes n (drop_bit 8 w)"
  unfolding le_bytes_def map_upt_Suc by (simp add: add.commute)

lemma length_le_bytes [simp]: "length (le_bytes n w) = n"
  by (simp add: le_bytes_def)

lemma of_le_le_bytes_take: "of_le_bytes (le_bytes n w) = take_bit (8 * n) w"
proof (induction n arbitrary: w)
  case (Suc n)
  show ?case
    by (rule bit_word_eqI)
      (use Suc in \<open>auto simp: le_bytes_Suc bit_simps not_less\<close>)
qed (simp add: le_bytes_def)

lemma of_le_le_bytes: "8 * n = LENGTH('a) \<Longrightarrow> of_le_bytes (le_bytes n w) = (w :: 'a :: len word)"
  by (simp add: of_le_le_bytes_take)

lemma bit_of_le_bytes: "bit (of_le_bytes bs) n \<Longrightarrow> n < 8 * length bs"
proof (induction bs arbitrary: n)
  case (Cons b bs)
  show ?case using Cons.prems bit_imp_le_length [of b n] Cons.IH [of "n - 8"] by (auto simp: bit_simps)
qed simp

lemma le_bytes_of_le:
  "8 * length bs \<le> LENGTH('a) \<Longrightarrow> le_bytes (length bs) (of_le_bytes bs :: 'a :: len word) = bs"
proof (induction bs)
  case (Cons b bs)
  have "ucast (of_le_bytes (b # bs) :: 'a word) = b"
    by (rule bit_word_eqI) (use Cons.prems in \<open>auto simp: bit_simps\<close>)
  moreover have "drop_bit 8 (of_le_bytes (b # bs) :: 'a word) = of_le_bytes bs"
  proof (rule bit_word_eqI)
    fix n assume "n < LENGTH('a)"
    show "bit (drop_bit 8 (of_le_bytes (b # bs) :: 'a word)) n = bit (of_le_bytes bs :: 'a word) n"
      using bit_imp_le_length [of b "8 + n"] bit_of_le_bytes [of bs n, where 'a = 'a] Cons.prems
      by (auto simp: bit_simps)
  qed
  ultimately show ?case using Cons by (simp add: le_bytes_Suc)
qed (simp add: le_bytes_def)

section \<open>Network order\<close>

lemma z_htonl_bits:
  "z_htonl w = push_bit 24 w OR push_bit 8 (w AND push_bit 8 (mask 8))
     OR drop_bit 8 (w AND push_bit 16 (mask 8)) OR drop_bit 24 w"
  by (simp add: z_htonl_def mask_eq_exp_minus_1)

lemma ucast_htonl:
  "(ucast (z_htonl w) :: u8) = ucast (drop_bit 24 w)"
  "(ucast (drop_bit 8 (z_htonl w)) :: u8) = ucast (drop_bit 16 w)"
  "(ucast (drop_bit 16 (z_htonl w)) :: u8) = ucast (drop_bit 8 w)"
  "(ucast (drop_bit 24 (z_htonl w)) :: u8) = ucast w"
  by (rule bit_word_eqI; simp add: z_htonl_bits bit_simps; linarith?; auto)+

lemma le_bytes_4: "le_bytes 4 (w :: u32) = [ucast w, ucast (drop_bit 8 w), ucast (drop_bit 16 w), ucast (drop_bit 24 w)]"
  by (simp add: le_bytes_def upt_conv_Cons)

lemma le_bytes_htonl: "le_bytes 4 (z_htonl w) = rev (le_bytes 4 w)"
  by (simp add: le_bytes_4 ucast_htonl)

lemma z_htonl_involution [simp]: "z_htonl (z_htonl w) = w"
proof -
  have "le_bytes 4 (z_htonl (z_htonl w)) = le_bytes 4 w" by (simp add: le_bytes_htonl)
  then have "(of_le_bytes (le_bytes 4 (z_htonl (z_htonl w))) :: u32) = of_le_bytes (le_bytes 4 w)" by simp
  then show ?thesis by (simp add: of_le_le_bytes)
qed

lemma z_htonw_bits:
  "z_htonw w = push_bit 56 (w AND mask 8) OR push_bit 40 (w AND push_bit 8 (mask 8))
     OR push_bit 24 (w AND push_bit 16 (mask 8)) OR push_bit 8 (w AND push_bit 24 (mask 8))
     OR drop_bit 8 (w AND push_bit 32 (mask 8)) OR drop_bit 24 (w AND push_bit 40 (mask 8))
     OR drop_bit 40 (w AND push_bit 48 (mask 8)) OR drop_bit 56 (w AND push_bit 56 (mask 8))"
  by (simp add: z_htonw_def mask_eq_exp_minus_1)

lemma ucast_htonw:
  "(ucast (z_htonw w) :: u8) = ucast (drop_bit 56 w)"
  "(ucast (drop_bit 8 (z_htonw w)) :: u8) = ucast (drop_bit 48 w)"
  "(ucast (drop_bit 16 (z_htonw w)) :: u8) = ucast (drop_bit 40 w)"
  "(ucast (drop_bit 24 (z_htonw w)) :: u8) = ucast (drop_bit 32 w)"
  "(ucast (drop_bit 32 (z_htonw w)) :: u8) = ucast (drop_bit 24 w)"
  "(ucast (drop_bit 40 (z_htonw w)) :: u8) = ucast (drop_bit 16 w)"
  "(ucast (drop_bit 48 (z_htonw w)) :: u8) = ucast (drop_bit 8 w)"
  "(ucast (drop_bit 56 (z_htonw w)) :: u8) = ucast w"
  by (rule bit_word_eqI; simp add: z_htonw_bits bit_simps; linarith?; auto)+

lemma le_bytes_htonw: "le_bytes 8 (z_htonw w) = rev (le_bytes 8 w)"
  by (simp add: le_bytes_def upt_conv_Cons ucast_htonw)

lemma ucast_htons:
  "(ucast (z_htons w) :: u8) = ucast (drop_bit 8 w)"
  "(ucast (drop_bit 8 (z_htons w)) :: u8) = ucast w"
  by (rule bit_word_eqI; simp add: z_htons_def bit_simps; linarith?; auto dest: bit_imp_le_length)+

lemma le_bytes_htons: "le_bytes 2 (z_htons w) = rev (le_bytes 2 w)"
  by (simp add: le_bytes_def upt_conv_Cons ucast_htons)

lemma le_bytes_inject: "8 * n = LENGTH('a) \<Longrightarrow> le_bytes n a = le_bytes n b \<Longrightarrow> a = (b :: 'a :: len word)"
  by (metis of_le_le_bytes)

lemma z_hton_involutions [simp]:
  "z_htonw (z_htonw x) = x" "z_htons (z_htons y) = y"
  by (rule le_bytes_inject [of 8]; simp add: le_bytes_htonw)
    (rule le_bytes_inject [of 2]; simp add: le_bytes_htons)

section \<open>Hash comparison\<close>

lemma hash_bytes_inject: "hash_bytes a = hash_bytes b \<longleftrightarrow> a = b"
  by (auto simp: hash_bytes_def HASH_SIZE_def dest!: le_bytes_inject [rotated])

lemma length_hash_bytes [simp]: "length (hash_bytes h) = 20"
  by (simp add: hash_bytes_def HASH_SIZE_def)

lemma cmp_hash_zero [simp]: "cmp_hash a b = 0 \<longleftrightarrow> a = b"
  using lite_memcmp_zero [of 20 "hash_bytes a" "hash_bytes b"]
  by (auto simp: cmp_hash_def HASH_SIZE_def hash_bytes_inject)

lemma get_zero_hash_eq [simp]: "get_zero_hash = 0"
proof -
  have "of_le_bytes (replicate n 0) = (0 :: hash_t)" for n by (induction n) simp_all
  then show ?thesis by (simp add: get_zero_hash_def lite_memset_eq)
qed

lemma is_zero_hash_iff: "is_zero_hash h \<longleftrightarrow> h = get_zero_hash"
proof -
  have "replicate 20 0 = hash_bytes 0"
    by (simp add: hash_bytes_def le_bytes_def HASH_SIZE_def map_replicate_trivial)
  then show ?thesis
    by (simp add: is_zero_hash_def lite_memequal_eq HASH_SIZE_def hash_bytes_inject)
qed

section \<open>Packets round trip\<close>

lemma field_append:
  "length xs = off \<Longrightarrow> 8 * n = LENGTH('a) \<Longrightarrow> field off n (xs @ le_bytes n w @ ys) = (w :: 'a :: len word)"
  by (simp add: field_def of_le_le_bytes)

lemma field_0: "8 * n = LENGTH('a) \<Longrightarrow> field 0 n (le_bytes n w @ ys) = (w :: 'a :: len word)"
  by (simp add: field_def of_le_le_bytes)

lemma field_skip: "length xs \<le> off \<Longrightarrow> field off n (xs @ ys) = field (off - length xs) n ys"
  by (simp add: field_def)

lemma hash_bytes_le: "hash_bytes h = le_bytes 20 h"
  by (simp add: hash_bytes_def HASH_SIZE_def)

lemmas packet_images = metadata_bytes_def metadata_of_def context_bytes_def context_of_def
  merkle_record_bytes_def merkle_record_of_def request_packet_bytes_def request_packet_of_def
  data_packet_bytes_def data_packet_of_def hash_bytes_le

lemma packet_lengths [simp]:
  "length (metadata_bytes m) = 8" "length (context_bytes c) = 8" "length (merkle_record_bytes r) = 24"
  "length (request_packet_bytes p) = 48" "length (data_packet_bytes d) = 61"
  by (simp_all add: packet_images)

lemma metadata_of_bytes [simp]: "metadata_of (metadata_bytes m @ rest) = m"
  by (simp add: packet_images field_0 field_skip)

lemma context_of_bytes [simp]: "context_of (context_bytes m @ rest) = m"
  by (simp add: packet_images field_0 field_skip)

lemma merkle_record_of_bytes [simp]: "merkle_record_of (merkle_record_bytes m @ rest) = m"
  by (simp add: packet_images field_0 field_skip)

lemma request_packet_of_bytes [simp]: "request_packet_of (request_packet_bytes m @ rest) = m"
  by (simp add: request_packet_of_def request_packet_bytes_def hash_bytes_le field_0 field_skip)

lemma data_packet_of_bytes [simp]: "data_packet_of (data_packet_bytes m @ rest) = m"
  by (simp add: data_packet_of_def data_packet_bytes_def hash_bytes_le field_0 field_skip)

section \<open>Properties\<close>

text \<open>
  The network order conversions reverse the bytes of a value in memory and are their own
  inverses, and the size-generic form used for packet fields agrees with them on the field sizes of the
  protocol and fails its assertion on every other size.
\<close>

theorem network_order_correct:
  "le_bytes 8 (z_htonw w) = rev (le_bytes 8 w) \<and> z_ntohw (z_htonw w) = w
   \<and> le_bytes 4 (z_htonl x) = rev (le_bytes 4 x) \<and> z_ntohl (z_htonl x) = x
   \<and> le_bytes 2 (z_htons y) = rev (le_bytes 2 y) \<and> z_ntohs (z_htons y) = y
   \<and> (z_htong v n = None \<longleftrightarrow> n \<notin> {1, 2, 4})
   \<and> z_htong v 4 = Some (z_htonl v) \<and> z_htong v 2 = Some (ucast (z_htons (ucast v)))"
  by (simp add: le_bytes_htonw le_bytes_htonl le_bytes_htons z_ntohw_def z_ntohl_def z_ntohs_def
      z_htong_def z_ntohg_def)

end
