(* ===== verification/Zftp_Compression.thy ===== *)
theory Zftp_Compression
  imports Zftp_Wire
begin

text \<open>
  The compression of payloads (\<^verbatim>\<open>common/zftp_module/ZCompressionImpl.cpp\<close>, \<^verbatim>\<open>ZCompressionZlibStream.cpp\<close>): a cache
  of one zlib stream, kept in step with the other side by a state and a sequence number. The library zlib is
  the record \<open>zlib\<close> of its functions over an unspecified state; the streams, their numbering and their assertions
  are modelled.
\<close>

section \<open>Definitions\<close>

text \<open>
  \<open>deflate\<close> gives the return code, the output, the number of input bytes left over and the new state;
  \<open>inflate\<close> gives the return code, the output and the new state. The third argument is the room for output.
\<close>

record 'z zlib =
  deflateInit2 :: "int \<Rightarrow> int \<Rightarrow> 'z"
  inflateInit :: 'z
  deflate :: "'z \<Rightarrow> bytes \<Rightarrow> u32 \<Rightarrow> int \<times> bytes \<times> u32 \<times> 'z"
  inflate :: "'z \<Rightarrow> bytes \<Rightarrow> u32 \<Rightarrow> int \<times> bytes \<times> 'z"
  inflateEnd :: "'z \<Rightarrow> int"
  deflateBound :: "'z \<Rightarrow> u32 \<Rightarrow> u32"

definition Z_OK :: int where
  "Z_OK = 0"

record ZCompressionArgs =
  use_compression :: bool
  zlib_compression_level :: int
  zlib_compression_strategy :: int

datatype CompressionType = COMPRESS | DECOMPRESS | KEY

subsection \<open>A stream\<close>

record 'z ZCompressionZlibStream =
  zs_type :: CompressionType
  zs_context :: CompressionContext
  zs_stream :: "'z option"

definition ZlibStream_new :: "'z zlib \<Rightarrow> ZCompressionArgs \<Rightarrow> CompressionType \<Rightarrow> u32 \<Rightarrow> 'z ZCompressionZlibStream" where
  "ZlibStream_new zl args type sid =
     \<lparr>zs_type = type, zs_context = \<lparr>state_id = sid, seq_id = 0\<rparr>,
      zs_stream = (case type of
          COMPRESS \<Rightarrow> Some (deflateInit2 zl (zlib_compression_level args) (zlib_compression_strategy args))
        | DECOMPRESS \<Rightarrow> Some (inflateInit zl)
        | KEY \<Rightarrow> None)\<rparr>"

definition ZlibStream_delete :: "'z zlib \<Rightarrow> 'z ZCompressionZlibStream \<Rightarrow> unit option" where
  "ZlibStream_delete zl zs =
     (case zs_stream zs of
        None \<Rightarrow> Some ()
      | Some z \<Rightarrow>
          (case zs_type zs of
             COMPRESS \<Rightarrow> Some ()
           | DECOMPRESS \<Rightarrow> lite_assert (inflateEnd zl z = Z_OK)
           | KEY \<Rightarrow> None))"

definition advance_seq :: "'z ZCompressionZlibStream \<Rightarrow> 'z ZCompressionZlibStream" where
  "advance_seq zs = zs\<lparr>zs_context := (zs_context zs)\<lparr>seq_id := seq_id (zs_context zs) + 1\<rparr>\<rparr>"

definition zs_compress ::
    "'z zlib \<Rightarrow> 'z ZCompressionZlibStream \<Rightarrow> bytes \<Rightarrow> u32 \<Rightarrow> (bytes \<times> 'z ZCompressionZlibStream) option" where
  "zs_compress zl zs data_in len_out = do {
     lite_assert (zs_type zs = COMPRESS);
     z \<leftarrow> zs_stream zs;
     let (rc, out, avail_in, z) = deflate zl z data_in len_out;
     lite_assert (rc = Z_OK);
     lite_assert (length out < unat len_out);
     lite_assert (avail_in = 0);
     Some (out, zs\<lparr>zs_stream := Some z\<rparr>) }"

definition zs_decompress ::
    "'z zlib \<Rightarrow> 'z ZCompressionZlibStream \<Rightarrow> bytes \<Rightarrow> u32 \<Rightarrow> (bytes \<times> 'z ZCompressionZlibStream) option" where
  "zs_decompress zl zs data expected_decompressed_size = do {
     lite_assert (zs_type zs = DECOMPRESS);
     z \<leftarrow> zs_stream zs;
     let (rc, out, z) = inflate zl z data expected_decompressed_size;
     lite_assert (rc = Z_OK);
     Some (take (unat expected_decompressed_size) out, zs\<lparr>zs_stream := Some z\<rparr>) }"

definition zs_stretch :: "'z zlib \<Rightarrow> 'z ZCompressionZlibStream \<Rightarrow> u32 \<Rightarrow> u32 option" where
  "zs_stretch zl zs payload = do {
     lite_assert (zs_type zs = COMPRESS);
     z \<leftarrow> zs_stream zs;
     Some (deflateBound zl z payload) }"

subsection \<open>The cache of one stream\<close>

record 'z ZCompressionImpl =
  cur_stream :: "'z ZCompressionZlibStream option"
  client_context_counter :: u32
  compression_args :: ZCompressionArgs

definition ZCompressionImpl_new :: "ZCompressionArgs \<Rightarrow> 'z ZCompressionImpl" where
  "ZCompressionImpl_new args = \<lparr>cur_stream = None, client_context_counter = 11, compression_args = args\<rparr>"

text \<open>The stream returned is the current one of the new state.\<close>

definition get_stream ::
    "'z zlib \<Rightarrow> 'z ZCompressionImpl \<Rightarrow> CompressionContext \<Rightarrow> CompressionType
       \<Rightarrow> ('z ZCompressionZlibStream \<times> 'z ZCompressionImpl) option" where
  "get_stream zl zc ctx type =
     (let zs' = ZlibStream_new zl (compression_args zc) type (state_id ctx) in
      case cur_stream zc of
        None \<Rightarrow> Some (zs', zc\<lparr>cur_stream := Some zs'\<rparr>)
      | Some zs \<Rightarrow>
          if state_id (zs_context zs) = state_id ctx \<and> seq_id (zs_context zs) = seq_id ctx then Some (zs, zc)
          else do {
            _ \<leftarrow> ZlibStream_delete zl zs;
            Some (zs', zc\<lparr>cur_stream := Some zs'\<rparr>) })"

definition get_client_context :: "'z zlib \<Rightarrow> 'z ZCompressionImpl \<Rightarrow> CompressionContext \<times> 'z ZCompressionImpl" where
  "get_client_context zl zc =
     (if \<not> use_compression (compression_args zc) then (\<lparr>state_id = ZFTP_NO_COMPRESSION, seq_id = 0\<rparr>, zc)
      else case cur_stream zc of
        Some zs \<Rightarrow> (zs_context zs, zc)
      | None \<Rightarrow>
          let zs = ZlibStream_new zl (compression_args zc) DECOMPRESS (client_context_counter zc) in
          (zs_context zs, zc\<lparr>cur_stream := Some zs\<rparr>))"

definition reset_client_context :: "'z zlib \<Rightarrow> 'z ZCompressionImpl \<Rightarrow> 'z ZCompressionImpl option" where
  "reset_client_context zl zc =
     (case cur_stream zc of
        None \<Rightarrow> Some zc
      | Some zs \<Rightarrow> do {
          _ \<leftarrow> ZlibStream_delete zl zs;
          Some (zc\<lparr>cur_stream := None, client_context_counter := client_context_counter zc + 1\<rparr>) })"

text \<open>What the parser of a reply does with the stream: fetch it, decompress the payload, count the message.\<close>

definition decompress_payload ::
    "'z zlib \<Rightarrow> 'z ZCompressionImpl \<Rightarrow> CompressionContext \<Rightarrow> bytes \<Rightarrow> u32 \<Rightarrow> (bytes \<times> 'z ZCompressionImpl) option" where
  "decompress_payload zl zc ctx payload max_size = do {
     (zs, zc) \<leftarrow> get_stream zl zc ctx DECOMPRESS;
     (out, zs) \<leftarrow> zs_decompress zl zs payload max_size;
     Some (out, zc\<lparr>cur_stream := Some (advance_seq zs)\<rparr>) }"

section \<open>The streams of the two sides\<close>

lemma get_stream_context:
  assumes "get_stream zl zc ctx type = Some (zs, zc')"
  shows "cur_stream zc' = Some zs" "state_id (zs_context zs) = state_id ctx"
    "seq_id (zs_context zs) = seq_id ctx \<or> seq_id (zs_context zs) = 0"
  using assms by (auto simp: get_stream_def Let_def ZlibStream_new_def opt_simps split: option.splits if_splits)

text \<open>Only a first message or one that follows on finds its stream; every other starts a new stream at 0.\<close>

lemma decompress_payload_counts:
  assumes "decompress_payload zl zc ctx payload max_size = Some (out, zc')"
  shows "\<exists>zs. cur_stream zc' = Some zs \<and> zs_type zs = DECOMPRESS \<and> state_id (zs_context zs) = state_id ctx
      \<and> (seq_id (zs_context zs) = seq_id ctx + 1 \<or> seq_id (zs_context zs) = 1)"
    and "length out \<le> unat max_size"
proof -
  obtain zs zc1 zs1 where 1: "get_stream zl zc ctx DECOMPRESS = Some (zs, zc1)"
      "zs_decompress zl zs payload max_size = Some (out, zs1)" "zc' = zc1\<lparr>cur_stream := Some (advance_seq zs1)\<rparr>"
    using assms by (auto simp: decompress_payload_def opt_simps)
  then have "zs_type zs1 = DECOMPRESS" "zs_context zs1 = zs_context zs" and out: "length out \<le> unat max_size"
    by (auto simp: zs_decompress_def opt_simps Let_def split_beta)
  then show "\<exists>zs. cur_stream zc' = Some zs \<and> zs_type zs = DECOMPRESS \<and> state_id (zs_context zs) = state_id ctx
      \<and> (seq_id (zs_context zs) = seq_id ctx + 1 \<or> seq_id (zs_context zs) = 1)"
    using get_stream_context [OF 1(1)] 1(3) by (auto simp: advance_seq_def)
  show "length out \<le> unat max_size" by (rule out)
qed

lemma client_context_after_reset:
  assumes "reset_client_context zl zc = Some zc'" "use_compression (compression_args zc)" "cur_stream zc \<noteq> None"
  shows "fst (get_client_context zl zc') = \<lparr>state_id = client_context_counter zc + 1, seq_id = 0\<rparr>"
  using assms by (auto simp: reset_client_context_def get_client_context_def ZlibStream_new_def Let_def opt_simps
      split: option.splits)

end
