(* ===== verification/Data_Range.thy ===== *)
theory Data_Range
  imports Zoog_Prelude
begin

text \<open>
  Byte ranges of a file, \<^verbatim>\<open>common/zftp_module/DataRange.cpp\<close>. A range is half open; ranges that arrive
  in a packet may have their ends in the wrong order, and then denote no byte.
\<close>

section \<open>Definitions\<close>

record DataRange =
  dr_start :: u32
  dr_end :: u32

definition DataRange_empty :: DataRange where
  "DataRange_empty = \<lparr>dr_start = 0, dr_end = 0\<rparr>"

definition DataRange_of :: "u32 \<Rightarrow> u32 \<Rightarrow> DataRange" where
  "DataRange_of s e = \<lparr>dr_start = s, dr_end = e\<rparr>"

definition dr_size :: "DataRange \<Rightarrow> u32" where
  "dr_size r = dr_end r - dr_start r"

definition is_empty :: "DataRange \<Rightarrow> bool" where
  "is_empty r \<longleftrightarrow> dr_start r = dr_end r"

text \<open>The result is the return value and the receiver afterwards.\<close>

definition maybe_accumulate :: "DataRange \<Rightarrow> u32 \<Rightarrow> u32 \<Rightarrow> bool \<times> DataRange" where
  "maybe_accumulate r s e =
     (if is_empty r then (True, r\<lparr>dr_start := s, dr_end := e\<rparr>)
      else if e = dr_start r then (True, r\<lparr>dr_start := s\<rparr>)
      else if s = dr_end r then (True, r\<lparr>dr_end := e\<rparr>)
      else if dr_start r \<le> s \<and> e \<le> dr_end r then (True, r)
      else (False, r))"

definition maybe_accumulate_range :: "DataRange \<Rightarrow> DataRange \<Rightarrow> bool \<times> DataRange" where
  "maybe_accumulate_range r other = maybe_accumulate r (dr_start other) (dr_end other)"

definition accumulate :: "DataRange \<Rightarrow> u32 \<Rightarrow> u32 \<Rightarrow> DataRange option" where
  "accumulate r s e =
     (case maybe_accumulate r s e of (worked, r) \<Rightarrow> do { lite_assert worked; Some r })"

definition accumulate_range :: "DataRange \<Rightarrow> DataRange \<Rightarrow> DataRange option" where
  "accumulate_range r other = accumulate r (dr_start other) (dr_end other)"

definition intersect :: "DataRange \<Rightarrow> DataRange \<Rightarrow> DataRange" where
  "intersect a b =
     (if \<not> (is_empty a \<or> is_empty b)
      then let s = max (dr_start a) (dr_start b); e = min (dr_end a) (dr_end b)
           in if s > e then \<lparr>dr_start = 0, dr_end = 0\<rparr> else \<lparr>dr_start = s, dr_end = e\<rparr>
      else DataRange_empty)"

definition equals :: "DataRange \<Rightarrow> DataRange \<Rightarrow> bool" where
  "equals a b \<longleftrightarrow> dr_start a = dr_start b \<and> dr_end a = dr_end b"

definition intersects :: "DataRange \<Rightarrow> DataRange \<Rightarrow> bool" where
  "intersects a b \<longleftrightarrow> \<not> is_empty (intersect a b)"

section \<open>Ranges as sets of offsets\<close>

definition proper :: "DataRange \<Rightarrow> bool" where
  "proper r \<longleftrightarrow> dr_start r \<le> dr_end r"

definition dr_set :: "DataRange \<Rightarrow> u32 set" where
  "dr_set r = {dr_start r..<dr_end r}"

lemma dr_set_empty_iff: "proper r \<Longrightarrow> dr_set r = {} \<longleftrightarrow> is_empty r"
  by (auto simp: dr_set_def proper_def is_empty_def)

lemma intersect_set [simp]: "dr_set (intersect a b) = dr_set a \<inter> dr_set b"
  by (auto simp: intersect_def dr_set_def is_empty_def DataRange_empty_def Let_def)

lemma intersect_proper [simp]: "proper (intersect a b)"
  by (auto simp: intersect_def proper_def DataRange_empty_def Let_def not_less)

lemma intersect_bounds:
  assumes "\<not> is_empty (intersect a b)"
  shows "dr_start a \<le> dr_start (intersect a b)" "dr_end (intersect a b) \<le> dr_end a"
    "dr_start b \<le> dr_start (intersect a b)" "dr_end (intersect a b) \<le> dr_end b"
  using assms by (auto simp: intersect_def is_empty_def DataRange_empty_def Let_def split: if_splits)

lemma equals_iff [simp]: "equals a b \<longleftrightarrow> a = b"
  by (auto simp: equals_def)

lemma maybe_accumulate_True:
  assumes "maybe_accumulate r s e = (True, r')" and "proper r" and "s \<le> e"
  shows "proper r'" and "dr_set r' = dr_set r \<union> {s..<e}"
  using assms by (auto simp: maybe_accumulate_def proper_def dr_set_def is_empty_def split: if_splits)

lemma maybe_accumulate_False: "maybe_accumulate r s e = (False, r') \<Longrightarrow> r' = r"
  by (auto simp: maybe_accumulate_def split: if_splits)

lemma unat_dr_size: "proper r \<Longrightarrow> unat (dr_size r) = unat (dr_end r) - unat (dr_start r)"
  by (simp add: proper_def dr_size_def unat_sub)

section \<open>Properties\<close>

text \<open>
  Intersecting two ranges gives exactly the bytes both have, for any two ranges, also those a
  peer sent with their ends swapped: the result is always a proper range, and the emptiness test on it
  decides whether the ranges share a byte.
\<close>

theorem intersect_exact:
  "dr_set (intersect a b) = dr_set a \<inter> dr_set b \<and> proper (intersect a b)
   \<and> (intersects a b \<longleftrightarrow> dr_set a \<inter> dr_set b \<noteq> {})"
  using dr_set_empty_iff [of "intersect a b"] by (simp add: intersects_def)

text \<open>
  Accumulating into a range either fails and changes nothing, or gives a range of exactly the
  bytes of both; it succeeds on ranges that touch and on parts of the range.
\<close>

theorem accumulate_exact:
  assumes "proper r" and "s \<le> e" and "maybe_accumulate r s e = (worked, r')"
  shows "(if worked then proper r' \<and> dr_set r' = dr_set r \<union> {s..<e} else r' = r \<and> accumulate r s e = None)
    \<and> (is_empty r \<or> e = dr_start r \<or> s = dr_end r \<or> {s..<e} \<noteq> {} \<and> {s..<e} \<subseteq> dr_set r \<longrightarrow> worked)"
proof -
  have "worked" if "is_empty r \<or> e = dr_start r \<or> s = dr_end r \<or> {s..<e} \<noteq> {} \<and> {s..<e} \<subseteq> dr_set r"
    using that assms by (auto simp: maybe_accumulate_def dr_set_def ivl_subset split: if_splits)
  then show ?thesis
    using assms maybe_accumulate_True [of r s e r'] maybe_accumulate_False [of r s e r']
    by (auto simp: accumulate_def)
qed

theorem accumulate_exact_witness:
  "proper \<lparr>dr_start = 10, dr_end = 20\<rparr> \<and> (20 :: u32) \<le> 30
   \<and> dr_set \<lparr>dr_start = 10, dr_end = 30\<rparr> = dr_set \<lparr>dr_start = 10, dr_end = 20\<rparr> \<union> {20..<30}"
  using accumulate_exact [of "\<lparr>dr_start = 10, dr_end = 20\<rparr>" 20 30 True "\<lparr>dr_start = 10, dr_end = 30\<rparr>"]
  by (simp add: proper_def maybe_accumulate_def is_empty_def)

end
