(* ===== verification/Zftp_Messages.thy ===== *)
theory Zftp_Messages
  imports Zftp_Compression Data_Range
begin

text \<open>
  The messages of the file transfer protocol on both sides: building a request
  (\<^verbatim>\<open>OutboundRequest.cpp\<close>, \<^verbatim>\<open>ZFTPRequestPacketInit.cpp\<close>), parsing it on the server
  (\<^verbatim>\<open>ZFileRequest.cpp\<close>) and parsing a reply on the client (\<^verbatim>\<open>ZFileReplyFromServer.cpp\<close>).
  Sizes and pointer differences are computed in 32 bits, as on the i386 targets, and wrap.

  A parser has three outcomes: \<^const>\<open>None\<close> for a failed assertion or a read outside the packet,
  \<open>Some None\<close> for a packet it refuses, \<open>Some (Some r)\<close> for one it accepts. The parser of a reply
  also returns the state of the compression, since a compressed payload moves its stream on.
\<close>

section \<open>Definitions\<close>

subsection \<open>Building a request\<close>

text \<open>A location slot that has not been written yet is \<^const>\<open>None\<close>.\<close>

record OutboundRequest =
  obr_zrp :: ZFTPRequestPacket
  obr_locations :: "u32 option list"
  obr_url_hint :: bytes
  dbg_locations_remaining :: u32
  obr_len :: u32

definition ZFTPRequestPacketInit ::
    "u16 \<Rightarrow> hash_t \<Rightarrow> u32 \<Rightarrow> u32 \<Rightarrow> CompressionContext \<Rightarrow> u32 \<Rightarrow> u32 \<Rightarrow> ZFTPRequestPacket" where
  "ZFTPRequestPacketInit url_hint_len h num_tree_locations padding_request ctx data_start data_end =
     \<lparr>zrp_hash_len = z_htons (of_nat HASH_SIZE), zrp_url_hint_len = z_htons url_hint_len, zrp_file_hash = h,
      zrp_num_tree_locations = z_htonl num_tree_locations, zrp_padding_request = z_htonl padding_request,
      zrp_compression_context = \<lparr>state_id = z_htonl (state_id ctx), seq_id = z_htonl (seq_id ctx)\<rparr>,
      zrp_data_start = z_htonl data_start, zrp_data_end = z_htonl data_end\<rparr>"

text \<open>The hint is a C string; the copy takes its terminator along.\<close>

definition OutboundRequest_new ::
    "CompressionContext \<Rightarrow> hash_t \<Rightarrow> bytes option \<Rightarrow> u32 \<Rightarrow> u32 \<Rightarrow> DataRange \<Rightarrow> OutboundRequest option" where
  "OutboundRequest_new ctx h url_hint num_tree_locations padding_request data_range = do {
     url_hint_len \<leftarrow> (case url_hint of None \<Rightarrow> Some 0
                      | Some u \<Rightarrow> map_option (\<lambda>n. of_nat n + 1) (lite_strlen u));
     let len = of_nat sizeof_ZFTPRequestPacket + 4 * num_tree_locations + url_hint_len;
     hint \<leftarrow> (case url_hint of None \<Rightarrow> Some []
               | Some u \<Rightarrow> lite_memcpy (replicate (unat url_hint_len) 0) u (unat url_hint_len));
     Some \<lparr>obr_zrp = ZFTPRequestPacketInit (ucast url_hint_len) h num_tree_locations padding_request ctx
                        (dr_start data_range) (dr_end data_range),
           obr_locations = replicate (unat num_tree_locations) None, obr_url_hint = hint,
           dbg_locations_remaining = num_tree_locations, obr_len = len\<rparr> }"

definition set_location :: "OutboundRequest \<Rightarrow> u32 \<Rightarrow> u32 \<Rightarrow> OutboundRequest option" where
  "set_location obr i location =
     (if unat i < length (obr_locations obr)
      then Some (obr\<lparr>obr_locations := (obr_locations obr)[unat i := Some (z_htonl location)],
                     dbg_locations_remaining := dbg_locations_remaining obr - 1\<rparr>)
      else None)"

text \<open>The memory \<^verbatim>\<open>get_zrp\<close> points to, which is what is sent.\<close>

definition get_zrp :: "OutboundRequest \<Rightarrow> bytes option" where
  "get_zrp obr = do {
     lite_assert (dbg_locations_remaining obr = 0);
     lite_assert (list_all (\<lambda>l. l \<noteq> None) (obr_locations obr));
     Some (request_packet_bytes (obr_zrp obr)
           @ concat (map (\<lambda>l. le_bytes 4 (the l)) (obr_locations obr)) @ obr_url_hint obr) }"

subsection \<open>Parsing a request\<close>

record ZFileRequest =
  rq_bytes :: bytes
  rq_zrp :: ZFTPRequestPacket
  rq_num_tree_locations :: u32
  rq_padding_request :: u32
  rq_compression_context :: CompressionContext
  rq_data_range :: DataRange
  rq_url_hint :: "bytes option"

definition parse_request :: "bytes \<Rightarrow> ZFileRequest option option" where
  "parse_request bs =
     (let len = of_nat (length bs) :: u32 in
      if len < of_nat sizeof_ZFTPRequestPacket then Some None
      else let zrp = request_packet_of bs in
      if z_ntohs (zrp_hash_len zrp) \<noteq> of_nat HASH_SIZE then Some None
      else let url_hint_len = z_ntohs (zrp_url_hint_len zrp);
               num_tree_locations = z_ntohl (zrp_num_tree_locations zrp);
               prefix = of_nat sizeof_ZFTPRequestPacket + 4 * num_tree_locations in
      if \<not> len \<ge> prefix + ucast url_hint_len then Some None
      else let req = \<lparr>rq_bytes = bs, rq_zrp = zrp, rq_num_tree_locations = num_tree_locations,
                 rq_padding_request = z_ntohl (zrp_padding_request zrp),
                 rq_compression_context = \<lparr>state_id = z_ntohl (state_id (zrp_compression_context zrp)),
                                          seq_id = z_ntohl (seq_id (zrp_compression_context zrp))\<rparr>,
                 rq_data_range = DataRange_of (z_ntohl (zrp_data_start zrp)) (z_ntohl (zrp_data_end zrp)),
                 rq_url_hint = None\<rparr> in
      if url_hint_len = 0 then Some (Some req)
      else let last = unat (prefix + ucast url_hint_len - 1) in
           if length bs \<le> last then None
           else if bs ! last \<noteq> 0 then Some None
           else Some (Some (req\<lparr>rq_url_hint := Some (take (unat url_hint_len) (drop (unat prefix) bs))\<rparr>)))"

definition get_tree_location :: "ZFileRequest \<Rightarrow> u32 \<Rightarrow> u32 option" where
  "get_tree_location req idx =
     (let off = sizeof_ZFTPRequestPacket + 4 * unat idx in
      if off + 4 \<le> length (rq_bytes req) then Some (z_ntohl (field off 4 (rq_bytes req))) else None)"

definition get_hash :: "ZFileRequest \<Rightarrow> hash_t" where
  "get_hash req = zrp_file_hash (rq_zrp req)"

fun same_locations :: "ZFileRequest \<Rightarrow> ZFileRequest \<Rightarrow> nat \<Rightarrow> nat \<Rightarrow> bool option" where
  "same_locations req other i 0 = Some True"
| "same_locations req other i (Suc n) = do {
     a \<leftarrow> get_tree_location req (of_nat i);
     b \<leftarrow> get_tree_location other (of_nat i);
     (if a \<noteq> b then Some False else same_locations req other (Suc i) n) }"

definition is_semantically_equivalent :: "ZFileRequest \<Rightarrow> ZFileRequest \<Rightarrow> bool option" where
  "is_semantically_equivalent req other = do {
     lite_assert (zrp_hash_len (rq_zrp req) = zrp_hash_len (rq_zrp other));
     (if cmp_hash (get_hash req) (get_hash other) \<noteq> 0 then Some False
      else if rq_num_tree_locations req \<noteq> rq_num_tree_locations other then Some False
      else do {
        same \<leftarrow> same_locations req other 0 (unat (rq_num_tree_locations req));
        (if \<not> same then Some False
         else if rq_padding_request req \<noteq> rq_padding_request other then Some False
         else if \<not> equals (rq_data_range req) (rq_data_range other) then Some False
         else Some True) }) }"

subsection \<open>Parsing a reply\<close>

record ZFileReplyFromServer =
  rp_zdp :: ZFTPDataPacket
  rp_raw_records :: "ZFTPMerkleRecord list"
  rp_payload :: bytes
  rp_data_range :: DataRange

definition rp_metadata :: "ZFileReplyFromServer \<Rightarrow> ZFTPFileMetadata" where
  "rp_metadata reply = zdp_metadata (rp_zdp reply)"

definition rp_filehash :: "ZFileReplyFromServer \<Rightarrow> hash_t" where
  "rp_filehash reply = zdp_file_hash (rp_zdp reply)"

text \<open>
  The address of the payload is a 32-bit sum and may wrap; its distance from the packet's start is
  \<open>prefix_bytes\<close>.
\<close>

definition reply_context :: "ZFTPDataPacket \<Rightarrow> CompressionContext" where
  "reply_context zdp = \<lparr>state_id = z_ntohl (state_id (zdp_compression_context zdp)),
                       seq_id = z_ntohl (seq_id (zdp_compression_context zdp))\<rparr>"

definition parse_reply ::
    "'z zlib \<Rightarrow> 'z ZCompressionImpl \<Rightarrow> bytes \<Rightarrow> (ZFileReplyFromServer option \<times> 'z ZCompressionImpl) option" where
  "parse_reply zl zc bs =
     (if length bs < 2 then Some (None, zc)
      else if z_ntohs (field 0 2 bs) \<noteq> zftp_reply_data then Some (None, zc)
      else if length bs < sizeof_ZFTPDataPacket then Some (None, zc)
      else let zdp = data_packet_of bs;
               len = of_nat (length bs) :: u32;
               num_merkle_records = unat (z_ntohs (zdp_num_merkle_records zdp));
               records_end = sizeof_ZFTPDataPacket + sizeof_ZFTPMerkleRecord * num_merkle_records in
      if \<not> records_end \<le> length bs then None
      else let raw_records = map (\<lambda>i. merkle_record_of (drop (sizeof_ZFTPDataPacket + sizeof_ZFTPMerkleRecord * i) bs))
                 [0..<num_merkle_records];
               prefix_bytes = of_nat records_end + z_ntohl (zdp_padding_size zdp) :: u32 in
      if len < prefix_bytes then Some (None, zc)
      else let payload = drop (unat prefix_bytes) bs;
               data_range = DataRange_of (z_ntohl (zdp_data_start zdp)) (z_ntohl (zdp_data_end zdp));
               ctx = reply_context zdp;
               reply = \<lparr>rp_zdp = zdp, rp_raw_records = raw_records, rp_payload = payload, rp_data_range = data_range\<rparr> in
      if state_id ctx \<noteq> ZFTP_NO_COMPRESSION \<and> payload \<noteq> [] then do {
        (out, zc) \<leftarrow> decompress_payload zl zc ctx payload (dr_size data_range + 1);
        (if of_nat (length out) \<noteq> dr_size data_range then Some (None, zc)
         else Some (Some (reply\<lparr>rp_payload := out\<rparr>), zc)) }
      else Some (Some reply, zc))"

text \<open>The loop of \<^verbatim>\<open>RequestBuilder::as_outbound_request\<close> that writes the locations in order.\<close>

fun fill_locations :: "OutboundRequest \<Rightarrow> u32 \<Rightarrow> u32 list \<Rightarrow> OutboundRequest option" where
  "fill_locations obr i [] = Some obr"
| "fill_locations obr i (l # ls) = do { obr \<leftarrow> set_location obr i l; fill_locations obr (i + 1) ls }"

section \<open>A request survives the wire\<close>

lemma fill_locations_spec:
  assumes "obr_locations obr = map Some pre @ replicate (length ls) None"
    and "dbg_locations_remaining obr = of_nat (length ls)" and "length pre + length ls < 2 ^ 32"
  shows "fill_locations obr (of_nat (length pre)) ls =
    Some (obr\<lparr>obr_locations := map Some (pre @ map z_htonl ls), dbg_locations_remaining := 0\<rparr>)"
  using assms
proof (induction ls arbitrary: obr pre)
  case (Cons l ls)
  have i: "unat (of_nat (length pre) :: u32) = length pre" using Cons.prems(3) by (intro unat_of_nat_u32) simp
  let ?obr = "obr\<lparr>obr_locations := map Some (pre @ [z_htonl l]) @ replicate (length ls) None,
      dbg_locations_remaining := of_nat (length ls)\<rparr>"
  have step: "set_location obr (of_nat (length pre)) l = Some ?obr"
    using Cons.prems(1,2) by (simp add: set_location_def i list_update_append)
  have "fill_locations ?obr (of_nat (length (pre @ [z_htonl l]))) ls =
     Some (?obr\<lparr>obr_locations := map Some ((pre @ [z_htonl l]) @ map z_htonl ls), dbg_locations_remaining := 0\<rparr>)"
    by (rule Cons.IH) (use Cons.prems(3) in simp_all)
  then show ?case by (simp add: step add.commute)
qed simp

lemma sizeof_simps [simp]:
  "sizeof_ZFTPRequestPacket = 48" "sizeof_ZFTPMerkleRecord = 24" "sizeof_ZFTPDataPacket = 61" "HASH_SIZE = 20"
  by (simp_all add: sizeof_ZFTPRequestPacket_def sizeof_ZFTPMerkleRecord_def sizeof_ZFTPDataPacket_def HASH_SIZE_def)

lemma length_concat_le4 [simp]: "length (concat (map (le_bytes 4 :: u32 \<Rightarrow> bytes) ls)) = 4 * length ls"
  by (induction ls) simp_all

lemma field_concat_le4:
  "i < length ls \<Longrightarrow> length xs = off \<Longrightarrow> field (off + 4 * i) 4 (xs @ concat (map (le_bytes 4) ls) @ ys) = (ls ! i :: u32)"
proof (induction ls arbitrary: i xs off)
  case (Cons l ls)
  show ?case
  proof (cases i)
    case 0
    then show ?thesis using Cons.prems by (simp add: field_append)
  next
    case (Suc j)
    then show ?thesis using Cons.IH [of j "xs @ le_bytes 4 l" "off + 4"] Cons.prems by (simp add: algebra_simps)
  qed
qed simp

lemma ucast_of_nat_down: "(ucast (of_nat n :: u32) :: u16) = of_nat n"
  by (rule bit_word_eqI) (simp add: bit_simps)

definition hint_bytes :: "bytes option \<Rightarrow> bytes" where
  "hint_bytes u = (case u of None \<Rightarrow> [] | Some s \<Rightarrow> s @ [0])"

definition request_image ::
    "CompressionContext \<Rightarrow> hash_t \<Rightarrow> bytes option \<Rightarrow> u32 list \<Rightarrow> u32 \<Rightarrow> DataRange \<Rightarrow> bytes" where
  "request_image ctx h u ls padding r =
     request_packet_bytes (ZFTPRequestPacketInit (of_nat (length (hint_bytes u))) h (of_nat (length ls)) padding ctx
        (dr_start r) (dr_end r))
     @ concat (map (\<lambda>l. le_bytes 4 (z_htonl l)) ls) @ hint_bytes u"

lemma outbound_request_image:
  assumes "\<forall>s. u = Some s \<longrightarrow> 0 \<notin> set s" and "length ls < 2 ^ 32" and "length (hint_bytes u) < 2 ^ 32"
  shows "do { obr \<leftarrow> OutboundRequest_new ctx h (map_option (\<lambda>s. s @ [0]) u) (of_nat (length ls)) padding r;
              obr \<leftarrow> fill_locations obr 0 ls; get_zrp obr }
    = Some (request_image ctx h u ls padding r)"
proof -
  have n: "unat (of_nat (length ls) :: u32) = length ls" by (rule unat_of_nat_u32 [OF assms(2)])
  have hl: "unat (of_nat (length (hint_bytes u)) :: u32) = length (hint_bytes u)" by (rule unat_of_nat_u32 [OF assms(3)])
  obtain obr where new: "OutboundRequest_new ctx h (map_option (\<lambda>s. s @ [0]) u) (of_nat (length ls)) padding r = Some obr"
    and obr: "obr_zrp obr = ZFTPRequestPacketInit (of_nat (length (hint_bytes u))) h (of_nat (length ls)) padding ctx
        (dr_start r) (dr_end r)" "obr_locations obr = replicate (length ls) None" "obr_url_hint obr = hint_bytes u"
      "dbg_locations_remaining obr = of_nat (length ls)"
  proof (cases u)
    case None
    then show thesis using that by (simp add: OutboundRequest_new_def hint_bytes_def n Let_def)
  next
    case (Some s)
    have "lite_strlen (s @ [0]) = Some (length s)" using assms(1) Some by simp
    moreover have "of_nat (length s) + 1 = (of_nat (length (hint_bytes u)) :: u32)" using Some by (simp add: hint_bytes_def)
    ultimately show thesis using that Some hl
      by (simp add: OutboundRequest_new_def n Let_def lite_memcpy_eq ucast_of_nat_down)
        (simp add: hint_bytes_def)
  qed
  have "fill_locations obr 0 ls = Some (obr\<lparr>obr_locations := map Some (map z_htonl ls), dbg_locations_remaining := 0\<rparr>)"
    using fill_locations_spec [of obr "[]" ls] obr assms(2) by simp
  then show ?thesis
    using new obr by (simp add: get_zrp_def request_image_def list_all_iff comp_def)
qed

lemma parse_request_image:
  assumes "length (hint_bytes u) < 2 ^ 16" and "48 + 4 * length ls + length (hint_bytes u) < 2 ^ 32"
  shows "parse_request (request_image ctx h u ls padding r) =
    Some (Some \<lparr>rq_bytes = request_image ctx h u ls padding r,
       rq_zrp = ZFTPRequestPacketInit (of_nat (length (hint_bytes u))) h (of_nat (length ls)) padding ctx (dr_start r) (dr_end r),
       rq_num_tree_locations = of_nat (length ls), rq_padding_request = padding, rq_compression_context = ctx,
       rq_data_range = r, rq_url_hint = map_option (\<lambda>s. s @ [0]) u\<rparr>)"
proof -
  let ?bs = "request_image ctx h u ls padding r"
  have len: "length ?bs = 48 + 4 * length ls + length (hint_bytes u)"
    by (simp add: request_image_def length_concat_le4 [of "map z_htonl ls", unfolded map_map comp_def])
  have lenw: "unat (of_nat (length ?bs) :: u32) = length ?bs" using assms(2) len by (intro unat_of_nat_u32) simp
  have pkt: "request_packet_of ?bs = ZFTPRequestPacketInit (of_nat (length (hint_bytes u))) h (of_nat (length ls)) padding ctx
        (dr_start r) (dr_end r)" by (simp add: request_image_def)
  have hl: "unat (of_nat (length (hint_bytes u)) :: u16) = length (hint_bytes u)"
    using assms(1) by (simp add: unat_of_nat)
  have pre: "(48 + 4 * of_nat (length ls) :: u32) = of_nat (48 + 4 * length ls)" by simp
  have hw: "(ucast (of_nat (length (hint_bytes u)) :: u16) :: u32) = of_nat (length (hint_bytes u))"
    using assms(1) by (simp add: unsigned_of_nat take_bit_nat_eq_self)
  have tot: "(48 + 4 * of_nat (length ls) + ucast (of_nat (length (hint_bytes u)) :: u16) :: u32) = of_nat (length ?bs)"
    unfolding hw len by simp
  have preu: "unat (48 + 4 * of_nat (length ls) :: u32) = 48 + 4 * length ls"
    unfolding pre using assms(2) by (intro unat_of_nat_u32) simp
  have ge: "\<not> (of_nat (length ?bs) :: u32) < 48" using lenw len by (simp add: word_less_nat_alt)
  show ?thesis
  proof (cases u)
    case None
    then show ?thesis unfolding parse_request_def Let_def pkt
      using ge tot by (simp add: ZFTPRequestPacketInit_def z_ntohs_def z_ntohl_def hint_bytes_def DataRange_of_def)
  next
    case (Some s)
    have ne: "(of_nat (length (hint_bytes u)) :: u16) \<noteq> 0" using hl Some by (auto simp: hint_bytes_def)
    have "unat (of_nat (length ?bs) - 1 :: u32) = length ?bs - 1"
      using lenw len by (subst unat_sub_no_wrap) simp_all
    moreover have "?bs ! (length ?bs - 1) = 0"
      using Some by (simp add: request_image_def hint_bytes_def nth_append)
    moreover have "drop (48 + 4 * length ls) ?bs = hint_bytes u"
      by (simp add: request_image_def length_concat_le4 [of "map z_htonl ls", unfolded map_map comp_def])
    ultimately show ?thesis unfolding parse_request_def Let_def pkt
      using ge tot ne hl preu len Some
      by (simp add: ZFTPRequestPacketInit_def z_ntohs_def z_ntohl_def DataRange_of_def)
        (simp add: hint_bytes_def)
  qed
qed

section \<open>What an accepted request guarantees\<close>

lemma parse_request_Some:
  assumes "parse_request bs = Some (Some req)"
  shows "rq_bytes req = bs" and "rq_zrp req = request_packet_of bs"
    and "rq_num_tree_locations req = z_ntohl (zrp_num_tree_locations (request_packet_of bs))"
    and "48 + 4 * rq_num_tree_locations req + ucast (z_ntohs (zrp_url_hint_len (request_packet_of bs)))
           \<le> (of_nat (length bs) :: u32)"
  using assms by (auto simp: parse_request_def Let_def split: if_splits)

lemma unat_u16_bound: "unat (w :: u16) < 65536"
  using unsigned_less [of w] by simp

lemma unat_ucast_u16: "unat (ucast (w :: u16) :: u32) = unat w"
  using unat_u16_bound [of w] by (simp add: unsigned_ucast_eq take_bit_nat_eq_self)

text \<open>Below this count the size computation does not wrap.\<close>

lemma unat_request_size:
  assumes "unat (n :: u32) < 2 ^ 29"
  shows "unat (48 + 4 * n :: u32) = 48 + 4 * unat n"
    and "unat (48 + 4 * n + ucast (w :: u16) :: u32) = 48 + 4 * unat n + unat w"
proof -
  have four: "unat (4 * n) = 4 * unat n" using assms by (simp add: unat_mult_lem [THEN iffD1])
  then show pre: "unat (48 + 4 * n :: u32) = 48 + 4 * unat n"
    using assms by (subst unat_add_no_wrap) simp_all
  show "unat (48 + 4 * n + ucast w :: u32) = 48 + 4 * unat n + unat w"
    using assms unat_u16_bound [of w] by (subst unat_add_no_wrap) (simp_all add: pre unat_ucast_u16)
qed

lemma get_tree_location_Some:
  assumes "parse_request bs = Some (Some req)" and "length bs < 2 ^ 32"
    and "unat (rq_num_tree_locations req) < 2 ^ 29" and "i < rq_num_tree_locations req"
  shows "get_tree_location req i = Some (z_ntohl (field (48 + 4 * unat i) 4 bs))"
proof -
  note p = parse_request_Some [OF assms(1)]
  have "unat (of_nat (length bs) :: u32) = length bs" by (rule unat_of_nat_u32 [OF assms(2)])
  then have "48 + 4 * unat (rq_num_tree_locations req) \<le> length bs"
    using p(4) unfolding word_le_nat_alt unat_request_size(2) [OF assms(3)] by simp
  then show ?thesis using assms(4) by (simp add: get_tree_location_def Let_def p(1) word_less_nat_alt)
qed

lemma unat_declared_size: "unat (48 + 4 * n :: u32) = 4 * ((12 + unat n) mod 2 ^ 30)"
proof -
  have "unat (48 + 4 * n :: u32) = (4 * (12 + unat n)) mod (4 * 2 ^ 30)"
    by (simp add: unat_word_ariths mod_simps)
  then show ?thesis by (simp only: mult_mod_right)
qed

section \<open>Properties\<close>

text \<open>
  C17: A request that the client builds, fills with its tree locations and sends is accepted by
  the server's parser, and every field, every location and the hint come out as they went in, as long as the hint fits its 16-bit
  length field.
\<close>

theorem request_roundtrip:
  assumes "\<forall>s. u = Some s \<longrightarrow> 0 \<notin> set s" and "length (hint_bytes u) < 2 ^ 16" and "length ls < 2 ^ 29"
  shows "\<exists>bs req.
     do { obr \<leftarrow> OutboundRequest_new ctx h (map_option (\<lambda>s. s @ [0]) u) (of_nat (length ls)) padding r;
          obr \<leftarrow> fill_locations obr 0 ls; get_zrp obr } = Some bs
     \<and> parse_request bs = Some (Some req)
     \<and> get_hash req = h \<and> rq_data_range req = r \<and> rq_padding_request req = padding
     \<and> rq_compression_context req = ctx \<and> rq_url_hint req = map_option (\<lambda>s. s @ [0]) u
     \<and> rq_num_tree_locations req = of_nat (length ls)
     \<and> (\<forall>i < length ls. get_tree_location req (of_nat i) = Some (ls ! i))"
proof -
  let ?bs = "request_image ctx h u ls padding r"
  have built: "do { obr \<leftarrow> OutboundRequest_new ctx h (map_option (\<lambda>s. s @ [0]) u) (of_nat (length ls)) padding r;
          obr \<leftarrow> fill_locations obr 0 ls; get_zrp obr } = Some ?bs"
    using assms by (intro outbound_request_image) simp_all
  have len: "length ?bs = 48 + 4 * length ls + length (hint_bytes u)"
    by (simp add: request_image_def length_concat_le4 [of "map z_htonl ls", unfolded map_map comp_def])
  note parsed = parse_request_image [OF assms(2), of ls ctx h padding r]
  have ok: "48 + 4 * length ls + length (hint_bytes u) < 2 ^ 32" using assms(2,3) by simp
  obtain req where req: "parse_request ?bs = Some (Some req)" and f: "get_hash req = h" "rq_data_range req = r"
      "rq_padding_request req = padding" "rq_compression_context req = ctx"
      "rq_url_hint req = map_option (\<lambda>s. s @ [0]) u" "rq_num_tree_locations req = of_nat (length ls)"
    using parsed [OF ok] by (simp add: get_hash_def ZFTPRequestPacketInit_def)
  have n: "unat (of_nat (length ls) :: u32) = length ls" using assms(3) by (intro unat_of_nat_u32) simp
  have "get_tree_location req (of_nat i) = Some (ls ! i)" if "i < length ls" for i
  proof -
    have i: "unat (of_nat i :: u32) = i" using that assms(3) by (intro unat_of_nat_u32) simp
    have "field (48 + 4 * i) 4 ?bs = z_htonl (ls ! i)"
      using field_concat_le4 [of i "map z_htonl ls"] that by (simp add: request_image_def comp_def)
    then show ?thesis
      using get_tree_location_Some [OF req, of "of_nat i"] that i n f(6) assms(3) len ok
      by (simp add: word_less_nat_alt z_ntohl_def)
  qed
  then show ?thesis using built req f by blast
qed

theorem request_roundtrip_witness:
  "\<exists>bs req. parse_request bs = Some (Some req) \<and> get_tree_location req 1 = Some 9
     \<and> rq_url_hint req = Some [102, 0]"
proof -
  have "length (hint_bytes (Some [102])) < 2 ^ 16" by (simp add: hint_bytes_def)
  then obtain bs req where "parse_request bs = Some (Some req)" "rq_url_hint req = Some [102, 0]"
      and l: "\<forall>i < length [7, 9 :: u32]. get_tree_location req (of_nat i) = Some ([7, 9] ! i)"
    using request_roundtrip [of "Some [102]" "[7, 9]" "\<lparr>state_id = 0, seq_id = 0\<rparr>" 5 0 "\<lparr>dr_start = 0, dr_end = 8\<rparr>"]
    by auto
  moreover have "get_tree_location req 1 = Some 9" using l [rule_format, of 1] by simp
  ultimately show ?thesis by blast
qed

text \<open>
  C27: For a packet that declares fewer than 2^29 tree locations the parser itself never reads outside
  the packet, and once it has accepted the packet, reading any of the declared locations stays inside it.
\<close>

theorem parse_request_in_bounds:
  assumes "length bs < 2 ^ 32" and "unat (z_ntohl (zrp_num_tree_locations (request_packet_of bs))) < 2 ^ 29"
  shows "parse_request bs \<noteq> None
    \<and> (\<forall>req i. parse_request bs = Some (Some req) \<and> i < rq_num_tree_locations req \<longrightarrow> get_tree_location req i \<noteq> None)"
proof -
  let ?n = "z_ntohl (zrp_num_tree_locations (request_packet_of bs))"
  let ?w = "z_ntohs (zrp_url_hint_len (request_packet_of bs))"
  have len: "unat (of_nat (length bs) :: u32) = length bs" by (rule unat_of_nat_u32 [OF assms(1)])
  have "unat (48 + 4 * ?n + ucast ?w - 1) < length bs"
    if "48 + 4 * ?n + ucast ?w \<le> (of_nat (length bs) :: u32)"
    using that unat_request_size(2) [OF assms(2), of ?w]
    by (subst unat_sub_no_wrap) (auto simp: word_le_nat_alt len)
  then have "parse_request bs \<noteq> None" by (auto simp: parse_request_def Let_def)
  moreover have "get_tree_location req i \<noteq> None"
    if "parse_request bs = Some (Some req)" "i < rq_num_tree_locations req" for req i
    using get_tree_location_Some [OF that(1) assms(1)] parse_request_Some(3) [OF that(1)] assms(2) that(2) by simp
  ultimately show ?thesis by blast
qed

theorem parse_request_in_bounds_witness:
  "\<exists>req. parse_request (request_packet_bytes (ZFTPRequestPacketInit 0 5 2 0 \<lparr>state_id = 0, seq_id = 0\<rparr> 0 0) @ replicate 8 1)
       = Some (Some req)
     \<and> rq_num_tree_locations req = 2 \<and> get_tree_location req 1 \<noteq> None"
proof -
  let ?p = "ZFTPRequestPacketInit 0 5 2 0 \<lparr>state_id = 0, seq_id = 0\<rparr> 0 0"
  let ?bs = "request_packet_bytes ?p @ replicate 8 1"
  have pkt: "request_packet_of ?bs = ?p" by simp
  have f: "z_ntohs (zrp_hash_len ?p) = 20" "z_ntohs (zrp_url_hint_len ?p) = 0" "z_ntohl (zrp_num_tree_locations ?p) = 2"
    by (simp_all add: ZFTPRequestPacketInit_def z_ntohs_def z_ntohl_def)
  obtain req where "parse_request ?bs = Some (Some req)" "rq_num_tree_locations req = 2"
    unfolding parse_request_def Let_def pkt f by simp
  then show ?thesis using parse_request_in_bounds [of ?bs, unfolded pkt f] by auto
qed

text \<open>
  C39: The size check of a request wraps. Take a packet without a hint that declares more locations than it carries:
  it should be refused, but it is accepted exactly when the declared size is small again modulo 2^32, and then
  reading the first location it does not carry runs off the packet.
\<close>

theorem request_count_wraps:
  assumes "48 \<le> length bs" and "length bs < 2 ^ 31" and "z_ntohs (zrp_hash_len (request_packet_of bs)) = 20"
    and "z_ntohs (zrp_url_hint_len (request_packet_of bs)) = 0"
    and "(length bs - 48) div 4 < unat (z_ntohl (zrp_num_tree_locations (request_packet_of bs)))"
  shows "((\<exists>req. parse_request bs = Some (Some req)) \<longleftrightarrow>
      4 * ((12 + unat (z_ntohl (zrp_num_tree_locations (request_packet_of bs)))) mod 2 ^ 30) \<le> length bs)
    \<and> (\<forall>req. parse_request bs = Some (Some req) \<longrightarrow>
      of_nat ((length bs - 48) div 4) < rq_num_tree_locations req
      \<and> get_tree_location req (of_nat ((length bs - 48) div 4)) = None)"
proof -
  define k where "k = (length bs - 48) div 4"
  have len: "unat (of_nat (length bs) :: u32) = length bs" using assms(2) by (intro unat_of_nat_u32) simp
  have k: "unat (of_nat k :: u32) = k" using assms(2) by (intro unat_of_nat_u32) (simp add: k_def)
  have "(\<exists>req. parse_request bs = Some (Some req)) \<longleftrightarrow>
      48 + 4 * z_ntohl (zrp_num_tree_locations (request_packet_of bs)) \<le> (of_nat (length bs) :: u32)"
    using assms(1,3,4) len by (auto simp: parse_request_def Let_def word_less_nat_alt)
  also have "\<dots> \<longleftrightarrow> 4 * ((12 + unat (z_ntohl (zrp_num_tree_locations (request_packet_of bs)))) mod 2 ^ 30) \<le> length bs"
    unfolding word_le_nat_alt len unat_declared_size ..
  moreover have "of_nat k < rq_num_tree_locations req \<and> get_tree_location req (of_nat k) = None"
    if "parse_request bs = Some (Some req)" for req
  proof -
    have "length bs < 48 + 4 * k + 4" by (simp add: k_def)
    then show ?thesis
      using parse_request_Some [OF that] assms(5) k
      by (simp add: get_tree_location_def Let_def word_less_nat_alt k_def [symmetric])
  qed
  ultimately show ?thesis by (simp add: k_def)
qed

theorem request_count_wraps_witness:
  "\<exists>req. parse_request (request_packet_bytes (ZFTPRequestPacketInit 0 5 0x40000000 0 \<lparr>state_id = 0, seq_id = 0\<rparr> 0 0))
       = Some (Some req)
     \<and> get_tree_location req 0 = None"
proof -
  let ?p = "ZFTPRequestPacketInit 0 5 0x40000000 0 \<lparr>state_id = 0, seq_id = 0\<rparr> 0 0"
  have pkt: "request_packet_of (request_packet_bytes ?p) = ?p"
    using request_packet_of_bytes [of ?p "[]"] by simp
  have f: "z_ntohs (zrp_hash_len ?p) = 20" "z_ntohs (zrp_url_hint_len ?p) = 0" "z_ntohl (zrp_num_tree_locations ?p) = 0x40000000"
    by (simp_all add: ZFTPRequestPacketInit_def z_ntohs_def z_ntohl_def)
  show ?thesis
    using request_count_wraps [of "request_packet_bytes ?p", unfolded pkt f] by auto
qed

lemma same_locations_eq:
  assumes "\<forall>j < i + n. get_tree_location req (of_nat j) \<noteq> None \<and> get_tree_location other (of_nat j) \<noteq> None"
  shows "same_locations req other i n =
    Some (\<forall>j. i \<le> j \<and> j < i + n \<longrightarrow> get_tree_location req (of_nat j) = get_tree_location other (of_nat j))"
  using assms
proof (induction n arbitrary: i)
  case (Suc n)
  obtain a b where ab: "get_tree_location req (of_nat i) = Some a" "get_tree_location other (of_nat i) = Some b"
    using Suc.prems by force
  have split: "(\<forall>j. i \<le> j \<and> j < i + Suc n \<longrightarrow> P j) \<longleftrightarrow> P i \<and> (\<forall>j. Suc i \<le> j \<and> j < Suc i + n \<longrightarrow> P j)" for P
    by (auto simp: Suc_le_eq) (metis le_neq_implies_less)
  have "same_locations req other (Suc i) n =
      Some (\<forall>j. Suc i \<le> j \<and> j < Suc i + n \<longrightarrow> get_tree_location req (of_nat j) = get_tree_location other (of_nat j))"
    by (rule Suc.IH) (use Suc.prems in simp)
  then show ?case unfolding split using ab by (cases "a = b") (simp_all del: of_nat_Suc)
qed auto

text \<open>
  The test that lets a server answer a request with the reply it has ready for an earlier one:
  on two accepted requests it returns, never reads outside them, and says yes exactly when both ask for the same
  hash, the same list of tree locations, the same padding and the same range of bytes.
\<close>

theorem semantic_equivalence_exact:
  assumes "parse_request bs = Some (Some req)" and "length bs < 2 ^ 32" and "unat (rq_num_tree_locations req) < 2 ^ 29"
    and "parse_request bs' = Some (Some other)" and "length bs' < 2 ^ 32" and "unat (rq_num_tree_locations other) < 2 ^ 29"
  shows "is_semantically_equivalent req other =
    Some (get_hash req = get_hash other \<and> rq_num_tree_locations req = rq_num_tree_locations other
          \<and> (\<forall>i < rq_num_tree_locations req. get_tree_location req i = get_tree_location other i)
          \<and> rq_padding_request req = rq_padding_request other \<and> rq_data_range req = rq_data_range other)"
proof -
  have hl: "z_ntohs (zrp_hash_len (rq_zrp r)) = 20" if "parse_request b = Some (Some r)" for b r
    using that by (auto simp: parse_request_def Let_def split: if_splits)
  have "z_htons (zrp_hash_len (rq_zrp req)) = z_htons (zrp_hash_len (rq_zrp other))"
    using hl [OF assms(1)] hl [OF assms(4)] by (simp add: z_ntohs_def)
  then have len: "zrp_hash_len (rq_zrp req) = zrp_hash_len (rq_zrp other)" by (metis z_hton_involutions(2))
  show ?thesis
  proof (cases "rq_num_tree_locations req = rq_num_tree_locations other")
    case False
    then show ?thesis using len by (auto simp: is_semantically_equivalent_def)
  next
    case True
    let ?n = "rq_num_tree_locations req"
    have w: "unat (of_nat j :: u32) = j" if "j < unat ?n" for j
      using that less_trans [OF that unat_u32_bound [of ?n]] by (intro unat_of_nat_u32) simp
    have readable: "\<forall>j < 0 + unat ?n. get_tree_location req (of_nat j) \<noteq> None \<and> get_tree_location other (of_nat j) \<noteq> None"
      using get_tree_location_Some [OF assms(1-3)] get_tree_location_Some [OF assms(4-6)] True w
      by (simp add: word_less_nat_alt)
    have all: "(\<forall>i < ?n. P i) \<longleftrightarrow> (\<forall>j < unat ?n. P (of_nat j))" for P
    proof (intro iffI allI impI)
      fix j assume "\<forall>i < ?n. P i" and "j < unat ?n"
      then show "P (of_nat j)" using w by (simp add: word_less_nat_alt)
    next
      fix i assume "\<forall>j < unat ?n. P (of_nat j)" and "i < ?n"
      then have "P (of_nat (unat i))" by (simp only: word_less_nat_alt)
      then show "P i" by simp
    qed
    show ?thesis
      unfolding all using len True same_locations_eq [OF readable]
      by (simp add: is_semantically_equivalent_def)
  qed
qed

theorem semantic_equivalence_exact_witness:
  "\<exists>bs req. length bs < 2 ^ 32 \<and> parse_request bs = Some (Some req) \<and> is_semantically_equivalent req req = Some True"
proof -
  let ?bs = "request_image \<lparr>state_id = 0, seq_id = 0\<rparr> 5 None [] 0 \<lparr>dr_start = 0, dr_end = 8\<rparr>"
  have len: "length ?bs < 2 ^ 32" by (simp add: request_image_def hint_bytes_def)
  obtain req where req: "parse_request ?bs = Some (Some req)" and n: "rq_num_tree_locations req = 0"
    using parse_request_image [of None "[]" "\<lparr>state_id = 0, seq_id = 0\<rparr>" 5 0 "\<lparr>dr_start = 0, dr_end = 8\<rparr>"]
    by (simp add: hint_bytes_def)
  have "is_semantically_equivalent req req = Some True"
    using semantic_equivalence_exact [OF req len _ req len] n by simp
  then show ?thesis using len req by blast
qed

lemma parse_reply_eq:
  assumes "length bs < 2 ^ 32" and "n = unat (z_ntohs (zdp_num_merkle_records (data_packet_of bs)))"
    and "k = (61 + 24 * n + unat (z_ntohl (zdp_padding_size (data_packet_of bs)))) mod 2 ^ 32"
    and "ctx = reply_context (data_packet_of bs)"
    and "rg = DataRange_of (z_ntohl (zdp_data_start (data_packet_of bs))) (z_ntohl (zdp_data_end (data_packet_of bs)))"
    and "reply = \<lparr>rp_zdp = data_packet_of bs,
      rp_raw_records = map (\<lambda>i. merkle_record_of (drop (61 + 24 * i) bs)) [0..<n], rp_payload = drop k bs, rp_data_range = rg\<rparr>"
  shows "parse_reply zl zc bs =
     (if \<not> (61 \<le> length bs \<and> z_ntohs (field 0 2 bs) = zftp_reply_data) then Some (None, zc)
      else if length bs < 61 + 24 * n then None else if length bs < k then Some (None, zc)
      else if state_id ctx \<noteq> 0 \<and> k < length bs then decompress_payload zl zc ctx (drop k bs) (dr_size rg + 1) \<bind>
        (\<lambda>(out, zc). if of_nat (length out) \<noteq> dr_size rg then Some (None, zc) else Some (Some (reply\<lparr>rp_payload := out\<rparr>), zc))
      else Some (Some reply, zc))"
proof -
  let ?pad = "z_ntohl (zdp_padding_size (data_packet_of bs))"
  have n: "n < 65536" unfolding assms(2) by (rule unat_u16_bound)
  have pre: "unat (of_nat (61 + 24 * n) + ?pad :: u32) = k"
    using n unfolding assms(3) unat_word_ariths by (subst unat_of_nat_u32) simp_all
  have long: "(of_nat (length bs) :: u32) < of_nat (61 + 24 * n) + ?pad \<longleftrightarrow> length bs < k"
    unfolding word_less_nat_alt pre unat_of_nat_u32 [OF assms(1)] ..
  show ?thesis
    unfolding parse_reply_def Let_def sizeof_simps assms(2) [symmetric] assms(4) [symmetric] assms(5) [symmetric] long pre
      assms(6) [symmetric] ZFTP_NO_COMPRESSION_def
    by (simp add: not_le)
qed

text \<open>
  C28: A reply packet is parsed without reading outside it. Two things stop the process: a packet that declares
  more records than it carries, and a payload that the decompressor does not take. An accepted packet holds all the
  records it declares; its payload starts behind the header, the records and the padding, modulo 2^32, and this
  place is inside the packet; an uncompressed payload is everything from there to the end, and a decompressed one
  has exactly the size of the data range and moves the stream of the reply's context on by one message.
\<close>

theorem parse_reply_in_bounds:
  assumes "length bs < 2 ^ 32" and "n = unat (z_ntohs (zdp_num_merkle_records (data_packet_of bs)))"
    and "k = (61 + 24 * n + unat (z_ntohl (zdp_padding_size (data_packet_of bs)))) mod 2 ^ 32"
    and "ctx = reply_context (data_packet_of bs)"
    and "rg = DataRange_of (z_ntohl (zdp_data_start (data_packet_of bs))) (z_ntohl (zdp_data_end (data_packet_of bs)))"
  shows "(parse_reply zl zc bs = None \<longleftrightarrow>
            61 \<le> length bs \<and> z_ntohs (field 0 2 bs) = zftp_reply_data
            \<and> (length bs < 61 + 24 * n
               \<or> k < length bs \<and> state_id ctx \<noteq> 0 \<and> decompress_payload zl zc ctx (drop k bs) (dr_size rg + 1) = None))
    \<and> (\<forall>reply zc'. parse_reply zl zc bs = Some (Some reply, zc') \<longrightarrow>
          61 + 24 * n \<le> length bs \<and> length (rp_raw_records reply) = n \<and> k \<le> length bs \<and> rp_data_range reply = rg
          \<and> (state_id ctx = 0 \<or> k = length bs \<longrightarrow> rp_payload reply = drop k bs \<and> zc' = zc)
          \<and> (state_id ctx \<noteq> 0 \<and> k < length bs \<longrightarrow>
              length (rp_payload reply) = unat (dr_size rg)
              \<and> (\<exists>zs. cur_stream zc' = Some zs \<and> state_id (zs_context zs) = state_id ctx
                   \<and> (seq_id (zs_context zs) = seq_id ctx + 1 \<or> seq_id (zs_context zs) = 1))))"
proof -
  note step = parse_reply_eq [OF assms refl, of zl zc]
  have size: "length out = unat (dr_size rg)"
    if "decompress_payload zl zc ctx (drop k bs) (dr_size rg + 1) = Some (out, zc')" "of_nat (length out) = dr_size rg" for out zc'
  proof -
    have "length out < 2 ^ 32"
      using le_less_trans [OF decompress_payload_counts(2) [OF that(1)] unat_u32_bound [of "dr_size rg + 1"]] by simp
    then show ?thesis using that(2) unat_of_nat_u32 [of "length out"] by simp
  qed
  show ?thesis
  proof (cases "decompress_payload zl zc ctx (drop k bs) (dr_size rg + 1)")
    case None
    then show ?thesis by (auto simp: step)
  next
    case (Some r)
    obtain out zc1 where r: "r = (out, zc1)" by (cases r)
    note d = Some [unfolded r]
    show ?thesis
      using size [OF d] decompress_payload_counts(1) [OF d] by (auto simp: step d split: if_splits)
  qed
qed

definition sample_zlib :: "unit zlib" where
  "sample_zlib = \<lparr>deflateInit2 = (\<lambda>level strategy. ()), inflateInit = (), deflate = (\<lambda>z data n. (Z_OK, data, 0, ())),
     inflate = (\<lambda>z data n. (Z_OK, data, ())), inflateEnd = (\<lambda>z. Z_OK), deflateBound = (\<lambda>z n. n + 1)\<rparr>"

definition sample_compression :: "unit ZCompressionImpl" where
  "sample_compression = ZCompressionImpl_new \<lparr>use_compression = True, zlib_compression_level = 1, zlib_compression_strategy = 0\<rparr>"

definition sample_reply_packet :: ZFTPDataPacket where
  "sample_reply_packet = \<lparr>zdp_code = 0, zdp_hash_len = 0x1400, zftp_lg_block_size = 16, zftp_tree_degree = 0x0200, zdp_file_hash = 5,
     zdp_metadata = \<lparr>file_len_network_order = 0, flags = 0\<rparr>, zdp_num_merkle_records = 0, zdp_padding_size = 0x02000000,
     zdp_compression_context = \<lparr>state_id = 0x07000000, seq_id = 0\<rparr>, zdp_data_start = 0, zdp_data_end = 0x03000000,
     zdp_payload_size = 0\<rparr>"

theorem parse_reply_in_bounds_witness:
  "\<exists>reply zc' zs. parse_reply sample_zlib sample_compression (data_packet_bytes sample_reply_packet @ [0, 0, 4, 5, 6]) = Some (Some reply, zc')
     \<and> rp_payload reply = [4, 5, 6] \<and> length (rp_payload reply) = 3
     \<and> cur_stream zc' = Some zs \<and> state_id (zs_context zs) = 7 \<and> seq_id (zs_context zs) = 1"
proof -
  let ?bs = "data_packet_bytes sample_reply_packet @ [0, 0, 4, 5, 6]"
  have p: "data_packet_of ?bs = sample_reply_packet" by simp
  have code: "field 0 2 ?bs = (0 :: u16)" using p by (simp add: data_packet_of_def sample_reply_packet_def)
  have f: "unat (z_ntohs (zdp_num_merkle_records sample_reply_packet)) = 0"
    "unat (z_ntohl (zdp_padding_size sample_reply_packet)) = 2"
    "reply_context sample_reply_packet = \<lparr>state_id = 7, seq_id = 0\<rparr>"
    "DataRange_of (z_ntohl (zdp_data_start sample_reply_packet)) (z_ntohl (zdp_data_end sample_reply_packet)) = DataRange_of 0 3"
    by (simp_all add: sample_reply_packet_def reply_context_def DataRange_of_def z_ntohs_def z_ntohl_def z_htons_def z_htonl_def)
  have drop: "drop 63 ?bs = [4, 5, 6]" by simp
  have "decompress_payload sample_zlib sample_compression \<lparr>state_id = 7, seq_id = 0\<rparr> [4, 5, 6] 4 \<noteq> None"
    by (simp add: decompress_payload_def get_stream_def sample_compression_def ZCompressionImpl_new_def zs_decompress_def
        ZlibStream_new_def sample_zlib_def Let_def)
  then obtain reply zc' where r: "parse_reply sample_zlib sample_compression ?bs = Some (Some reply, zc')" "rp_payload reply = [4, 5, 6]"
    using parse_reply_eq [OF _ refl refl refl refl refl, of ?bs sample_zlib sample_compression, unfolded p f drop]
    by (auto simp: code zftp_reply_data_def dr_size_def DataRange_of_def decompress_payload_def get_stream_def sample_compression_def
        ZCompressionImpl_new_def zs_decompress_def ZlibStream_new_def sample_zlib_def z_ntohs_def z_htons_def Let_def)
  then show ?thesis
    using parse_reply_in_bounds [OF _ refl refl refl refl, of ?bs sample_zlib sample_compression, unfolded p f]
    by (fastforce simp: DataRange_of_def dr_size_def)
qed

end
