(* ===== verification/Block_Cache.thy ===== *)
theory Block_Cache
  imports Hash_Table Tree_Math Zftp_Wire Data_Range
begin

text \<open>
  Blocks of file data and the cache that holds them by hash, \<^verbatim>\<open>common/zftp_module/ZBlockCacheRecord.cpp\<close>
  and \<^verbatim>\<open>ZBlockCache.cpp\<close>, with the persistent block store behind it (\<^verbatim>\<open>ZBlockDB.cpp\<close> and the
  \<^verbatim>\<open>store_block\<close> and \<^verbatim>\<open>retrieve_block\<close> of \<^verbatim>\<open>ZCache.cpp\<close>).

  What the code takes from outside the sources is an argument: the hash function \<^verbatim>\<open>zhash\<close> (SHA-1 in
  assembler), the contents of freshly allocated memory, and the Berkeley database under \<^verbatim>\<open>ZDB\<close>,
  gathered in the record \<open>zenv\<close>. A record's pointer is its hash, which never changes and which no two records
  of the cache share.
\<close>

section \<open>Definitions\<close>

record 'd zenv =
  zhash :: "bytes \<Rightarrow> hash_t"
  fresh_block :: bytes
  db_lookup :: "'d \<Rightarrow> hash_t \<Rightarrow> bytes option"
  db_insert :: "'d \<Rightarrow> hash_t \<Rightarrow> bytes \<Rightarrow> 'd"

subsection \<open>Block records\<close>

record ZBlockCacheRecord =
  zbcr_hash :: hash_t
  zbcr_data :: bytes
  next_gap :: u32
  zbcr_valid :: bool

definition zbcr_common_init :: "'d zenv \<Rightarrow> hash_t \<Rightarrow> ZBlockCacheRecord" where
  "zbcr_common_init env h =
     \<lparr>zbcr_hash = h, zbcr_data = fresh_block env, next_gap = 0, zbcr_valid = False\<rparr>"

text \<open>\<^verbatim>\<open>lite_memset\<close> takes its size as an \<^verbatim>\<open>int\<close>, \<^verbatim>\<open>lite_memcpy\<close> as a \<^verbatim>\<open>size_t\<close>.\<close>

definition load_data_internal ::
    "ZBlockCacheRecord \<Rightarrow> bytes \<Rightarrow> u32 \<Rightarrow> u32 \<Rightarrow> ZBlockCacheRecord option" where
  "load_data_internal z data_source physical_size logical_size = do {
     z \<leftarrow> (if physical_size > 0 then do {
             lite_assert (next_gap z + physical_size \<le> ZFTP_BLOCK_SIZE);
             d \<leftarrow> lite_memcpy (drop (unat (next_gap z)) (zbcr_data z)) data_source (unat physical_size);
             Some (z\<lparr>zbcr_data := take (unat (next_gap z)) (zbcr_data z) @ d\<rparr>) }
           else Some z);
     let z = z\<lparr>next_gap := next_gap z + physical_size\<rparr>;
     let zero_len = logical_size - physical_size;
     z \<leftarrow> (if zero_len > 0 then do {
             lite_assert (next_gap z + zero_len \<le> ZFTP_BLOCK_SIZE);
             d \<leftarrow> lite_memset (drop (unat (next_gap z)) (zbcr_data z)) 0 (nat (sint zero_len));
             Some (z\<lparr>zbcr_data := take (unat (next_gap z)) (zbcr_data z) @ d\<rparr>) }
           else Some z);
     Some (z\<lparr>next_gap := next_gap z + zero_len\<rparr>) }"

definition zbcr_expected :: "'d zenv \<Rightarrow> hash_t \<Rightarrow> ZBlockCacheRecord" where
  "zbcr_expected env expected_hash = zbcr_common_init env expected_hash"

definition zbcr_from_data :: "'d zenv \<Rightarrow> bytes \<Rightarrow> u32 \<Rightarrow> ZBlockCacheRecord option" where
  "zbcr_from_data env in_data valid_data_len = do {
     z \<leftarrow> load_data_internal (zbcr_common_init env 0) in_data valid_data_len ZFTP_BLOCK_SIZE;
     Some (z\<lparr>zbcr_hash := zhash env (zbcr_data z), zbcr_valid := True\<rparr>) }"

definition zbcr_from_db :: "'d zenv \<Rightarrow> hash_t \<Rightarrow> bytes \<Rightarrow> ZBlockCacheRecord" where
  "zbcr_from_db env h v = (zbcr_common_init env h)\<lparr>zbcr_data := v, zbcr_valid := True\<rparr>"

definition peek_data :: "ZBlockCacheRecord \<Rightarrow> bytes option" where
  "peek_data z = do { lite_assert (zbcr_valid z); Some (zbcr_data z) }"

definition store_block :: "'d zenv \<Rightarrow> 'd option \<Rightarrow> ZBlockCacheRecord \<Rightarrow> 'd option option" where
  "store_block env zblockDB z =
     (case zblockDB of
        None \<Rightarrow> Some None
      | Some db \<Rightarrow> do { d \<leftarrow> peek_data z; Some (Some (db_insert env db (zbcr_hash z) d)) })"

definition retrieve_block :: "'d zenv \<Rightarrow> 'd option \<Rightarrow> hash_t \<Rightarrow> ZBlockCacheRecord option" where
  "retrieve_block env zblockDB h =
     (case zblockDB of
        None \<Rightarrow> None
      | Some db \<Rightarrow> map_option (zbcr_from_db env h) (db_lookup env db h))"

definition zbcr_validate ::
    "'d zenv \<Rightarrow> 'd option \<Rightarrow> ZBlockCacheRecord \<Rightarrow> (ZBlockCacheRecord \<times> 'd option) option" where
  "zbcr_validate env db z = do {
     lite_assert (\<not> zbcr_valid z);
     (if next_gap z < ZFTP_BLOCK_SIZE then Some (z, db)
      else do {
        lite_assert (next_gap z = ZFTP_BLOCK_SIZE);
        lite_assert (cmp_hash (zhash env (zbcr_data z)) (zbcr_hash z) = 0);
        let z = z\<lparr>zbcr_valid := True\<rparr>;
        db \<leftarrow> store_block env db z;
        Some (z, db) }) }"

text \<open>
  The reply is represented by its payload; \<^verbatim>\<open>get_payload()+offset\<close> past the payload's end has no bytes to read.
\<close>

definition receive_data ::
    "'d zenv \<Rightarrow> 'd option \<Rightarrow> ZBlockCacheRecord \<Rightarrow> u32 \<Rightarrow> u32 \<Rightarrow> bytes \<Rightarrow> u32
       \<Rightarrow> (bool \<times> ZBlockCacheRecord \<times> 'd option) option" where
  "receive_data env db z s e payload offset =
     (if s < next_gap z then do { lite_assert (e \<le> next_gap z); Some (False, z, db) }
      else do {
        lite_assert (next_gap z = s);
        let physical_data_available = min (of_nat (length payload) - offset) (e - s);
        z \<leftarrow> load_data_internal z (drop (unat offset) payload) physical_data_available (e - s);
        (z, db) \<leftarrow> zbcr_validate env db z;
        Some (True, z, db) })"

definition complete_with_zeros ::
    "'d zenv \<Rightarrow> 'd option \<Rightarrow> ZBlockCacheRecord \<Rightarrow> (ZBlockCacheRecord \<times> 'd option) option" where
  "complete_with_zeros env db z =
     (if next_gap z < ZFTP_BLOCK_SIZE then do {
        z \<leftarrow> load_data_internal z [] 0 (ZFTP_BLOCK_SIZE - next_gap z);
        zbcr_validate env db z }
      else Some (z, db))"

definition get_first_gap :: "ZBlockCacheRecord \<Rightarrow> (u32 \<times> u32) option" where
  "get_first_gap z = do {
     lite_assert (\<not> zbcr_valid z);
     Some (next_gap z, ZFTP_BLOCK_SIZE - next_gap z) }"

definition get_missing_range :: "ZBlockCacheRecord \<Rightarrow> DataRange" where
  "get_missing_range z =
     (if zbcr_valid z then DataRange_empty else DataRange_of (next_gap z) ZFTP_BLOCK_SIZE)"

definition zbcr_read :: "ZBlockCacheRecord \<Rightarrow> u32 \<Rightarrow> u32 \<Rightarrow> bytes option" where
  "zbcr_read z off len = do {
     lite_assert (zbcr_valid z);
     lite_assert (off + len \<le> ZFTP_BLOCK_SIZE);
     lite_memcpy (replicate (unat len) 0) (drop (unat off) (zbcr_data z)) (unat len) }"

definition zbcr_hash_func :: "hash_t \<Rightarrow> u32" where
  "zbcr_hash_func h = field 0 4 (hash_bytes h)"

definition zbcr_cmp_func :: "hash_t \<Rightarrow> hash_t \<Rightarrow> int" where
  "zbcr_cmp_func a b = cmp_hash a b"

interpretation zbcr_key: hash_key zbcr_hash_func zbcr_cmp_func
  by unfold_locales (simp_all add: zbcr_cmp_func_def)

subsection \<open>The cache\<close>

record 'd ZBlockCache =
  block_ht :: "hash_t hash_table"
  blocks :: "hash_t \<Rightarrow> ZBlockCacheRecord option"
  zblockDB :: "'d option"

definition ZBlockCache_init :: "'d option \<Rightarrow> 'd ZBlockCache" where
  "ZBlockCache_init db =
     \<lparr>block_ht = hash_table_init zbcr_hash_func zbcr_cmp_func, blocks = (\<lambda>h. None), zblockDB = db\<rparr>"

definition block_lookup_nolock ::
    "'d zenv \<Rightarrow> 'd ZBlockCache \<Rightarrow> hash_t \<Rightarrow> (hash_t option \<times> 'd ZBlockCache) option" where
  "block_lookup_nolock env bc h =
     (case hash_table_lookup (block_ht bc) h of
        (Some r, ht) \<Rightarrow> Some (Some r, bc\<lparr>block_ht := ht\<rparr>)
      | (None, ht) \<Rightarrow>
          (case retrieve_block env (zblockDB bc) h of
             None \<Rightarrow> Some (None, bc\<lparr>block_ht := ht\<rparr>)
           | Some z \<Rightarrow> do {
               ht \<leftarrow> hash_table_insert ht (zbcr_hash z);
               let (again, ht) = hash_table_lookup ht h;
               lite_assert (again = Some (zbcr_hash z));
               Some (again, bc\<lparr>block_ht := ht, blocks := (blocks bc)(zbcr_hash z \<mapsto> z)\<rparr>) }))"

definition block_lookup ::
    "'d zenv \<Rightarrow> 'd ZBlockCache \<Rightarrow> hash_t \<Rightarrow> (hash_t option \<times> 'd ZBlockCache) option" where
  "block_lookup env bc h = block_lookup_nolock env bc h"

definition block_insert ::
    "'d zenv \<Rightarrow> 'd ZBlockCache \<Rightarrow> ZBlockCacheRecord \<Rightarrow> (bool \<times> 'd ZBlockCache) option" where
  "block_insert env bc z = do {
     (r, bc) \<leftarrow> block_lookup_nolock env bc (zbcr_hash z);
     (case r of
        None \<Rightarrow> do {
          ht \<leftarrow> hash_table_insert (block_ht bc) (zbcr_hash z);
          db \<leftarrow> store_block env (zblockDB bc) z;
          Some (True, bc\<lparr>block_ht := ht, blocks := (blocks bc)(zbcr_hash z \<mapsto> z), zblockDB := db\<rparr>) }
      | Some _ \<Rightarrow> Some (False, bc)) }"

text \<open>Calls through a pointer to a record of the cache.\<close>

definition cached_receive_data ::
    "'d zenv \<Rightarrow> 'd ZBlockCache \<Rightarrow> hash_t \<Rightarrow> u32 \<Rightarrow> u32 \<Rightarrow> bytes \<Rightarrow> u32 \<Rightarrow> (bool \<times> 'd ZBlockCache) option" where
  "cached_receive_data env bc h s e payload offset = do {
     z \<leftarrow> blocks bc h;
     (caused_change, z, db) \<leftarrow> receive_data env (zblockDB bc) z s e payload offset;
     Some (caused_change, bc\<lparr>blocks := (blocks bc)(h \<mapsto> z), zblockDB := db\<rparr>) }"

definition cached_complete_with_zeros :: "'d zenv \<Rightarrow> 'd ZBlockCache \<Rightarrow> hash_t \<Rightarrow> 'd ZBlockCache option" where
  "cached_complete_with_zeros env bc h = do {
     z \<leftarrow> blocks bc h;
     (z, db) \<leftarrow> complete_with_zeros env (zblockDB bc) z;
     Some (bc\<lparr>blocks := (blocks bc)(h \<mapsto> z), zblockDB := db\<rparr>) }"

section \<open>Filling a block\<close>

abbreviation BLOCK :: nat where "BLOCK \<equiv> 65536"

lemma unat_BLOCK_SIZE [simp]: "unat ZFTP_BLOCK_SIZE = BLOCK"
  by (simp add: ZFTP_BLOCK_SIZE_def ZFTP_LG_BLOCK_SIZE_def)

lemma ZFTP_BLOCK_SIZE_eq: "ZFTP_BLOCK_SIZE = 65536"
  by (simp add: ZFTP_BLOCK_SIZE_def ZFTP_LG_BLOCK_SIZE_def)

lemma nat_sint_small: "unat (w :: u32) < 2 ^ 31 \<Longrightarrow> nat (sint w) = unat w"
proof -
  assume "unat w < 2 ^ 31"
  then have "int (unat w) < int (2 ^ 31)" by (simp only: of_nat_less_iff)
  then have "uint w < 2 ^ 31" by simp
  moreover have "- (2 ^ 31) \<le> uint w" by (rule order_trans [of _ 0]) simp_all
  ultimately have "sint w = uint w" unfolding sint_uint by (intro signed_take_bit_int_eq_self) simp_all
  then show ?thesis by simp
qed

text \<open>What filling keeps, whatever the sizes.\<close>

lemma lite_memcpy_length: "lite_memcpy dst src n = Some d \<Longrightarrow> length d = length dst"
  by (auto simp: lite_memcpy_eq split: if_splits)

lemma lite_memset_length: "lite_memset dst v n = Some d \<Longrightarrow> length d = length dst"
  by (auto simp: lite_memset_eq split: if_splits)

lemma load_data_internal_frame:
  assumes "load_data_internal z src p l = Some z'"
  shows "zbcr_hash z' = zbcr_hash z \<and> zbcr_valid z' = zbcr_valid z
    \<and> length (zbcr_data z') = length (zbcr_data z)
    \<and> (next_gap z \<le> ZFTP_BLOCK_SIZE \<longrightarrow> next_gap z' \<le> ZFTP_BLOCK_SIZE)"
proof -
  obtain y where y: "(if p > 0 then do {
             lite_assert (next_gap z + p \<le> ZFTP_BLOCK_SIZE);
             d \<leftarrow> lite_memcpy (drop (unat (next_gap z)) (zbcr_data z)) src (unat p);
             Some (z\<lparr>zbcr_data := take (unat (next_gap z)) (zbcr_data z) @ d\<rparr>) }
           else Some z) = Some y"
    and z': "(let z = y\<lparr>next_gap := next_gap y + p\<rparr>; zero_len = l - p in do {
       z \<leftarrow> (if zero_len > 0 then do {
             lite_assert (next_gap z + zero_len \<le> ZFTP_BLOCK_SIZE);
             d \<leftarrow> lite_memset (drop (unat (next_gap z)) (zbcr_data z)) 0 (nat (sint zero_len));
             Some (z\<lparr>zbcr_data := take (unat (next_gap z)) (zbcr_data z) @ d\<rparr>) }
           else Some z);
       Some (z\<lparr>next_gap := next_gap z + zero_len\<rparr>) }) = Some z'"
    using assms unfolding load_data_internal_def by (auto simp: Option.bind_eq_Some_conv)
  have 1: "zbcr_hash y = zbcr_hash z \<and> zbcr_valid y = zbcr_valid z \<and> next_gap y = next_gap z
      \<and> length (zbcr_data y) = length (zbcr_data z)
      \<and> (next_gap z \<le> ZFTP_BLOCK_SIZE \<longrightarrow> next_gap z + p \<le> ZFTP_BLOCK_SIZE)"
  proof (cases "p > 0")
    case True
    then show ?thesis using y by (auto simp: Option.bind_eq_Some_conv dest!: lite_memcpy_length)
  next
    case False
    then have "p = 0" by (simp add: word_greater_zero_iff)
    then show ?thesis using y by simp
  qed
  show ?thesis
  proof (cases "l - p > 0")
    case True
    then show ?thesis using z' 1 by (auto simp: Let_def Option.bind_eq_Some_conv dest!: lite_memset_length)
  next
    case False
    then have "l - p = 0" by (simp add: word_greater_zero_iff)
    then show ?thesis using z' 1 by (auto simp: Let_def)
  qed
qed

text \<open>What it does when the sizes fit: the bytes, then zeros.\<close>

lemma load_data_internal_fits:
  assumes "length (zbcr_data z) = BLOCK" and "unat (next_gap z) + unat l \<le> BLOCK"
    and "unat p \<le> unat l" and "unat p \<le> length src"
  shows "load_data_internal z src p l =
    Some (z\<lparr>zbcr_data := take (unat (next_gap z)) (zbcr_data z) @ take (unat p) src
              @ replicate (unat l - unat p) 0 @ drop (unat (next_gap z) + unat l) (zbcr_data z),
            next_gap := next_gap z + l\<rparr>)"
proof -
  have g: "unat (next_gap z + p) = unat (next_gap z) + unat p" using assms by (intro unat_add_no_wrap) simp
  have zl: "unat (l - p) = unat l - unat p" using assms by (intro unat_sub_no_wrap) simp
  have gl: "unat (next_gap z + l) = unat (next_gap z) + unat l" using assms by (intro unat_add_no_wrap) simp
  have n: "nat (sint (l - p)) = unat l - unat p" using assms zl by (subst nat_sint_small) simp_all
  have le: "next_gap z + p \<le> ZFTP_BLOCK_SIZE" "next_gap z + l \<le> ZFTP_BLOCK_SIZE"
    using assms by (simp_all add: word_le_nat_alt g gl)
  have drop: "drop (unat l - unat p) (drop (unat (next_gap z) + unat p) xs) = drop (unat (next_gap z) + unat l) xs"
    for xs :: bytes using assms by (simp add: add.commute)
  let ?g = "unat (next_gap z)" and ?d = "zbcr_data z"
  let ?y = "z\<lparr>zbcr_data := take ?g ?d @ take (unat p) src @ drop (?g + unat p) ?d\<rparr>"
  have first: "(if p > 0 then do {
             lite_assert (next_gap z + p \<le> ZFTP_BLOCK_SIZE);
             d \<leftarrow> lite_memcpy (drop ?g ?d) src (unat p);
             Some (z\<lparr>zbcr_data := take ?g ?d @ d\<rparr>) }
           else Some z) = Some ?y"
  proof (cases "p = 0")
    case False
    then show ?thesis using assms le by (simp add: lite_memcpy_eq add.commute word_greater_zero_iff)
  qed simp
  show ?thesis
  proof (cases "l = p")
    case True
    then show ?thesis unfolding load_data_internal_def first by simp
  next
    case False
    then have "0 < l - p" by (simp add: word_greater_zero_iff)
    moreover have "drop (?g + unat p) (take ?g ?d @ take (unat p) src @ drop (?g + unat p) ?d) = drop (?g + unat p) ?d"
      "take (?g + unat p) (take ?g ?d @ take (unat p) src @ drop (?g + unat p) ?d) = take ?g ?d @ take (unat p) src"
      using assms by simp_all
    moreover have "unat l - unat p \<le> BLOCK - (?g + unat p)" using assms by linarith
    ultimately show ?thesis
      unfolding load_data_internal_def first using assms le
      by (simp add: Let_def lite_memset_eq g n drop) (simp add: add.commute)
  qed
qed

text \<open>Receiving a chunk that starts at the gap and fits appends it, then checks the block if it is full.\<close>

lemma receive_chunk:
  fixes db :: "'d option"
  assumes "length (zbcr_data z) = BLOCK" and "unat (next_gap z) + length c \<le> BLOCK"
  shows "receive_data env db z (next_gap z) (next_gap z + of_nat (length c)) c 0 =
    map_option (Pair True) (zbcr_validate env db
      (z\<lparr>zbcr_data := take (unat (next_gap z)) (zbcr_data z) @ c @ drop (unat (next_gap z) + length c) (zbcr_data z),
         next_gap := next_gap z + of_nat (length c)\<rparr>))"
proof -
  have l: "unat (of_nat (length c) :: u32) = length c" using assms by (intro unat_of_nat_u32) simp
  have "load_data_internal z c (of_nat (length c)) (of_nat (length c)) =
      Some (z\<lparr>zbcr_data := take (unat (next_gap z)) (zbcr_data z) @ c @ drop (unat (next_gap z) + length c) (zbcr_data z),
         next_gap := next_gap z + of_nat (length c)\<rparr>)"
    using load_data_internal_fits [OF assms(1), of "of_nat (length c)" "of_nat (length c)" c] assms
    by (simp add: l)
  moreover have "x \<bind> (\<lambda>(z, db). Some (True, z, db)) = map_option (Pair True) x"
    for x :: "(ZBlockCacheRecord \<times> 'd option) option" by (cases x) auto
  ultimately show ?thesis by (simp add: receive_data_def Let_def)
qed

fun receive_chunks ::
    "'d zenv \<Rightarrow> 'd option \<Rightarrow> ZBlockCacheRecord \<Rightarrow> bytes list \<Rightarrow> (ZBlockCacheRecord \<times> 'd option) option" where
  "receive_chunks env db z [] = Some (z, db)"
| "receive_chunks env db z (c # cs) = do {
     (_, z, db) \<leftarrow> receive_data env db z (next_gap z) (next_gap z + of_nat (length c)) c 0;
     receive_chunks env db z cs }"

lemma zbcr_validate_partial:
  "\<not> zbcr_valid z \<Longrightarrow> unat (next_gap z) < BLOCK \<Longrightarrow> zbcr_validate env db z = Some (z, db)"
  by (simp add: zbcr_validate_def word_less_nat_alt)

lemma zbcr_validate_full:
  "\<not> zbcr_valid z \<Longrightarrow> unat (next_gap z) = BLOCK \<Longrightarrow> zbcr_validate env db z =
    (if zhash env (zbcr_data z) = zbcr_hash z
     then Some (z\<lparr>zbcr_valid := True\<rparr>, map_option (\<lambda>m. db_insert env m (zbcr_hash z) (zbcr_data z)) db)
     else None)"
proof -
  assume v: "\<not> zbcr_valid z" and g: "unat (next_gap z) = BLOCK"
  then have "next_gap z = ZFTP_BLOCK_SIZE" using unat_BLOCK_SIZE by (metis word_unat_eq_iff)
  then show ?thesis
    using v by (cases db) (auto simp: zbcr_validate_def store_block_def peek_data_def Let_def lite_assert_def)
qed

lemma receive_chunks_append:
  assumes "\<forall>c \<in> set cs. c \<noteq> []" and "length (zbcr_data z) = BLOCK" and "\<not> zbcr_valid z"
    and "unat (next_gap z) + length (concat cs) = BLOCK" and "unat (next_gap z) < BLOCK"
    and "d = take (unat (next_gap z)) (zbcr_data z) @ concat cs"
  shows "receive_chunks env db z cs =
    (if zhash env d = zbcr_hash z
     then Some (z\<lparr>zbcr_data := d, next_gap := ZFTP_BLOCK_SIZE, zbcr_valid := True\<rparr>,
                map_option (\<lambda>m. db_insert env m (zbcr_hash z) d) db)
     else None)"
  using assms
proof (induction cs arbitrary: z)
  case (Cons c cs)
  let ?g = "unat (next_gap z)"
  let ?z = "z\<lparr>zbcr_data := take ?g (zbcr_data z) @ c @ drop (?g + length c) (zbcr_data z),
         next_gap := next_gap z + of_nat (length c)\<rparr>"
  have fit: "?g + length c \<le> BLOCK" using Cons.prems(4) by simp
  have l: "unat (of_nat (length c) :: u32) = length c" using fit by (intro unat_of_nat_u32) simp
  have g': "unat (next_gap ?z) = ?g + length c" using fit by (simp add: unat_add_no_wrap l)
  have step: "receive_data env db z (next_gap z) (next_gap z + of_nat (length c)) c 0 =
      map_option (Pair True) (zbcr_validate env db ?z)"
    by (rule receive_chunk [OF Cons.prems(2) fit])
  have v: "\<not> zbcr_valid ?z" using Cons.prems(3) by simp
  have len: "length (zbcr_data ?z) = BLOCK" using Cons.prems(2) fit by simp
  show ?case
  proof (cases "concat cs = []")
    case True
    then have nil: "cs = []" using Cons.prems(1) by (cases cs) auto
    have full: "unat (next_gap ?z) = BLOCK" using Cons.prems(4) g' nil by simp
    have gap: "next_gap ?z = ZFTP_BLOCK_SIZE" using full unat_BLOCK_SIZE by (metis word_unat_eq_iff)
    have data: "zbcr_data ?z = d" using Cons.prems(2,4,6) nil by simp
    show ?thesis
      unfolding receive_chunks.simps step zbcr_validate_full [OF v full] nil
      using gap data by simp
  next
    case False
    then have "0 < length (concat cs)" by (simp only: length_greater_0_conv) simp
    moreover have "?g + length c + length (concat cs) = BLOCK" using Cons.prems(4) by simp
    ultimately have lt: "unat (next_gap ?z) < BLOCK" unfolding g' by linarith
    have "receive_chunks env db ?z cs =
       (if zhash env d = zbcr_hash ?z
        then Some (?z\<lparr>zbcr_data := d, next_gap := ZFTP_BLOCK_SIZE, zbcr_valid := True\<rparr>,
                   map_option (\<lambda>m. db_insert env m (zbcr_hash ?z) d) db)
        else None)"
      by (rule Cons.IH [OF _ len v _ lt]) (use Cons.prems g' in simp_all)
    then show ?thesis unfolding receive_chunks.simps step zbcr_validate_partial [OF v lt] by simp
  qed
qed simp

text \<open>Chunks that leave a gap are stored and nothing is checked yet; zeros may then close the gap.\<close>

lemma receive_chunks_partial:
  assumes "\<not> zbcr_valid z" and "length (zbcr_data z) = BLOCK" and "unat (next_gap z) + length (concat cs) < BLOCK"
  obtains y where "receive_chunks env db z cs = Some (y, db)" "zbcr_hash y = zbcr_hash z" "\<not> zbcr_valid y"
    "length (zbcr_data y) = BLOCK" "unat (next_gap y) = unat (next_gap z) + length (concat cs)"
    "take (unat (next_gap y)) (zbcr_data y) = take (unat (next_gap z)) (zbcr_data z) @ concat cs"
  using assms
proof (induction cs arbitrary: z thesis)
  case Nil
  then show ?case by simp
next
  case (Cons c cs)
  let ?g = "unat (next_gap z)"
  let ?z = "z\<lparr>zbcr_data := take ?g (zbcr_data z) @ c @ drop (?g + length c) (zbcr_data z),
         next_gap := next_gap z + of_nat (length c)\<rparr>"
  have fit: "?g + length c \<le> BLOCK" using Cons.prems(4) by simp
  have l: "unat (of_nat (length c) :: u32) = length c" using fit by (intro unat_of_nat_u32) simp
  have g': "unat (next_gap ?z) = ?g + length c" using fit by (simp add: unat_add_no_wrap l)
  have v: "\<not> zbcr_valid ?z" using Cons.prems(2) by simp
  have len: "length (zbcr_data ?z) = BLOCK" using Cons.prems(3) fit by simp
  have lt: "unat (next_gap ?z) + length (concat cs) < BLOCK" unfolding g' using Cons.prems(4) by simp
  then have "unat (next_gap ?z) < BLOCK" by linarith
  then have "receive_data env db z (next_gap z) (next_gap z + of_nat (length c)) c 0 = Some (True, ?z, db)"
    unfolding receive_chunk [OF Cons.prems(3) fit] using zbcr_validate_partial [OF v] by simp
  then have step: "receive_chunks env db z (c # cs) = receive_chunks env db ?z cs" by simp
  have take: "take (unat (next_gap ?z)) (zbcr_data ?z) = take ?g (zbcr_data z) @ c"
    unfolding g' using Cons.prems(3) fit by simp
  show ?case
  proof (rule Cons.IH [OF _ v len lt])
    fix y assume y: "receive_chunks env db ?z cs = Some (y, db)" "zbcr_hash y = zbcr_hash ?z" "\<not> zbcr_valid y"
      "length (zbcr_data y) = BLOCK" "unat (next_gap y) = unat (next_gap ?z) + length (concat cs)"
      "take (unat (next_gap y)) (zbcr_data y) = take (unat (next_gap ?z)) (zbcr_data ?z) @ concat cs"
    show ?case by (rule Cons.prems(1) [of y]) (use y step take g' in \<open>simp_all del: receive_chunks.simps\<close>)
  qed
qed

lemma complete_with_zeros_partial:
  assumes "\<not> zbcr_valid z" and "length (zbcr_data z) = BLOCK" and "unat (next_gap z) < BLOCK"
    and "d = take (unat (next_gap z)) (zbcr_data z) @ replicate (BLOCK - unat (next_gap z)) 0"
  shows "complete_with_zeros env db z =
    (if zhash env d = zbcr_hash z
     then Some (z\<lparr>zbcr_data := d, next_gap := ZFTP_BLOCK_SIZE, zbcr_valid := True\<rparr>,
                map_option (\<lambda>m. db_insert env m (zbcr_hash z) d) db)
     else None)"
proof -
  have l: "unat (ZFTP_BLOCK_SIZE - next_gap z) = BLOCK - unat (next_gap z)"
    using assms(3) by (subst unat_sub_no_wrap) simp_all
  let ?y = "z\<lparr>zbcr_data := d, next_gap := ZFTP_BLOCK_SIZE\<rparr>"
  have "load_data_internal z [] 0 (ZFTP_BLOCK_SIZE - next_gap z) = Some ?y"
    using load_data_internal_fits [OF assms(2), of "ZFTP_BLOCK_SIZE - next_gap z" 0 "[]"] assms l by simp
  moreover have "next_gap z < ZFTP_BLOCK_SIZE" using assms(3) by (simp add: word_less_nat_alt)
  ultimately show ?thesis
    using zbcr_validate_full [of ?y env db] assms(1) by (simp add: complete_with_zeros_def)
qed

section \<open>The authenticity invariant\<close>

text \<open>
  What the code relies on outside the sources: a fresh block has the block's size, and the
  database returns for a key only what was stored under it.
\<close>

definition env_ok :: "'d zenv \<Rightarrow> bool" where
  "env_ok env \<longleftrightarrow> length (fresh_block env) = BLOCK
     \<and> (\<forall>db h d h' x. db_lookup env (db_insert env db h d) h' = Some x
          \<longrightarrow> h' = h \<and> x = d \<or> db_lookup env db h' = Some x)"

definition zbcr_ok :: "'d zenv \<Rightarrow> ZBlockCacheRecord \<Rightarrow> bool" where
  "zbcr_ok env z \<longleftrightarrow> length (zbcr_data z) = BLOCK \<and> next_gap z \<le> ZFTP_BLOCK_SIZE
     \<and> (zbcr_valid z \<longrightarrow> zhash env (zbcr_data z) = zbcr_hash z)"

definition db_ok :: "'d zenv \<Rightarrow> 'd option \<Rightarrow> bool" where
  "db_ok env zdb \<longleftrightarrow> (\<forall>db h d. zdb = Some db \<and> db_lookup env db h = Some d
     \<longrightarrow> length d = BLOCK \<and> zhash env d = h)"

definition bc_ok :: "'d zenv \<Rightarrow> 'd ZBlockCache \<Rightarrow> bool" where
  "bc_ok env bc \<longleftrightarrow>
     ht_ready zbcr_hash_func zbcr_cmp_func (block_ht bc)
     \<and> (\<forall>h. h \<in># ht_data (block_ht bc) \<longleftrightarrow> blocks bc h \<noteq> None)
     \<and> (\<forall>h z. blocks bc h = Some z \<longrightarrow> zbcr_hash z = h \<and> zbcr_ok env z)
     \<and> db_ok env (zblockDB bc)"

lemma store_block_ok:
  assumes "env_ok env" and "db_ok env db" and "store_block env db z = Some db'" and "zbcr_ok env z"
  shows "db_ok env db'"
proof (cases db)
  case (Some m)
  then have v: "zbcr_valid z" and db': "db' = Some (db_insert env m (zbcr_hash z) (zbcr_data z))"
    using assms(3) by (auto simp: store_block_def peek_data_def opt_simps)
  have "length d = BLOCK \<and> zhash env d = h"
    if "db_lookup env (db_insert env m (zbcr_hash z) (zbcr_data z)) h = Some d" for h d
  proof -
    have "h = zbcr_hash z \<and> d = zbcr_data z \<or> db_lookup env m h = Some d"
      using assms(1) that unfolding env_ok_def by blast
    then show ?thesis using v assms(2,4) Some by (auto simp: db_ok_def zbcr_ok_def)
  qed
  then show ?thesis by (simp add: db_ok_def db')
qed (use assms(3) in \<open>simp add: store_block_def db_ok_def\<close>)

lemma zbcr_validate_ok:
  assumes "env_ok env" and "db_ok env db" and "zbcr_ok env z" and "zbcr_validate env db z = Some (z', db')"
  shows "zbcr_ok env z' \<and> db_ok env db' \<and> zbcr_hash z' = zbcr_hash z"
proof (cases "next_gap z < ZFTP_BLOCK_SIZE")
  case True
  then show ?thesis using assms by (auto simp: zbcr_validate_def)
next
  case False
  let ?z = "z\<lparr>zbcr_valid := True\<rparr>"
  have s: "store_block env db ?z = Some db'" and z': "z' = ?z" and h: "zhash env (zbcr_data z) = zbcr_hash z"
    using assms(4) False by (auto simp: zbcr_validate_def Let_def opt_simps)
  have ok: "zbcr_ok env ?z" using assms(3) h by (simp add: zbcr_ok_def)
  show ?thesis using store_block_ok [OF assms(1,2) s ok] ok z' by simp
qed

lemma load_data_internal_ok:
  assumes "zbcr_ok env z" and "\<not> zbcr_valid z" and "load_data_internal z src p l = Some z'"
  shows "zbcr_ok env z' \<and> zbcr_hash z' = zbcr_hash z"
  using load_data_internal_frame [OF assms(3)] assms(1,2) by (simp add: zbcr_ok_def)

text \<open>
  A record taken from the database is valid, yet its gap is at zero: filling it trips the
  assertion of the validation that follows, so no reply ever leads to a state where its data changed.
\<close>

lemma load_then_validate_ok:
  assumes "env_ok env" and "db_ok env db" and "zbcr_ok env z"
    and "load_data_internal z src p l = Some y" and "zbcr_validate env db y = Some (z', db')"
  shows "zbcr_ok env z' \<and> db_ok env db' \<and> zbcr_hash z' = zbcr_hash z \<and> \<not> zbcr_valid z"
proof -
  have "\<not> zbcr_valid y" using assms(5) by (simp add: zbcr_validate_def)
  then have v: "\<not> zbcr_valid z" using load_data_internal_frame [OF assms(4)] by simp
  note y = load_data_internal_ok [OF assms(3) v assms(4)]
  show ?thesis using zbcr_validate_ok [OF assms(1,2) _ assms(5)] y v by simp
qed

lemma receive_data_ok:
  assumes "env_ok env" and "db_ok env db" and "zbcr_ok env z"
    and "receive_data env db z s e payload offset = Some (c, z', db')"
  shows "zbcr_ok env z' \<and> db_ok env db' \<and> zbcr_hash z' = zbcr_hash z"
proof (cases "s < next_gap z")
  case True
  then show ?thesis using assms by (simp add: receive_data_def)
next
  case False
  then obtain y where y: "load_data_internal z (drop (unat offset) payload)
        (min (of_nat (length payload) - offset) (e - s)) (e - s) = Some y"
      "zbcr_validate env db y = Some (z', db')"
    using assms(4) by (auto simp: receive_data_def Let_def Option.bind_eq_Some_conv)
  show ?thesis using load_then_validate_ok [OF assms(1-3) y] by blast
qed

lemma complete_with_zeros_ok:
  assumes "env_ok env" and "db_ok env db" and "zbcr_ok env z"
    and "complete_with_zeros env db z = Some (z', db')"
  shows "zbcr_ok env z' \<and> db_ok env db' \<and> zbcr_hash z' = zbcr_hash z"
proof (cases "next_gap z < ZFTP_BLOCK_SIZE")
  case True
  then obtain y where y: "load_data_internal z [] 0 (ZFTP_BLOCK_SIZE - next_gap z) = Some y"
      "zbcr_validate env db y = Some (z', db')"
    using assms(4) by (auto simp: complete_with_zeros_def Option.bind_eq_Some_conv)
  show ?thesis using load_then_validate_ok [OF assms(1-3) y] by blast
next
  case False
  then show ?thesis using assms by (simp add: complete_with_zeros_def)
qed

lemma zbcr_expected_ok: "env_ok env \<Longrightarrow> zbcr_ok env (zbcr_expected env h) \<and> zbcr_hash (zbcr_expected env h) = h"
  by (simp add: env_ok_def zbcr_ok_def zbcr_expected_def zbcr_common_init_def)

lemma zbcr_from_data_ok:
  assumes "env_ok env" and "zbcr_from_data env d n = Some z"
  shows "zbcr_ok env z \<and> zbcr_valid z"
proof -
  obtain y where y: "load_data_internal (zbcr_common_init env 0) d n ZFTP_BLOCK_SIZE = Some y"
      and z: "z = y\<lparr>zbcr_hash := zhash env (zbcr_data y), zbcr_valid := True\<rparr>"
    using assms(2) by (auto simp: zbcr_from_data_def opt_simps)
  show ?thesis
    using load_data_internal_frame [OF y] assms(1) z
    by (simp add: zbcr_ok_def env_ok_def zbcr_common_init_def)
qed

subsection \<open>The cache keeps it\<close>

lemma ht_ready_lookup:
  assumes "ht_ready hash cmp ht" and "hash_table_lookup ht k = (r, ht')"
  shows "ht_ready hash cmp ht' \<and> ht_data ht' = ht_data ht
    \<and> (case r of None \<Rightarrow> \<not> present cmp k (ht_data ht) | Some d \<Rightarrow> d \<in># ht_data ht \<and> cmp k d = 0)"
proof -
  have wf: "ht_wf ht" and c: "cmp_func ht = cmp" using assms(1) by (auto simp: ht_ready_def)
  note state = hash_table_lookup_state [OF wf, of k]
  show ?thesis
    using assms state hash_table_lookup_None [OF wf, of k] hash_table_lookup_Some [OF wf, of k]
    by (auto simp: ht_ready_def present_def c split: option.split)
qed

lemma hash_table_lookup_miss: "hash_table_lookup ht k = (None, ht) \<longleftrightarrow> fst (hash_table_lookup ht k) = None"
  by (auto simp: hash_table_lookup_def split: option.splits)

lemma present_hash [simp]: "present zbcr_cmp_func h M \<longleftrightarrow> h \<in># M"
  by (auto simp: present_def zbcr_cmp_func_def)

lemma ht_insert_hash:
  assumes "ht_ready zbcr_hash_func zbcr_cmp_func ht" and "h \<notin># ht_data ht"
  obtains ht' where "hash_table_insert ht h = Some ht'" and "ht_ready zbcr_hash_func zbcr_cmp_func ht'"
    and "ht_data ht' = add_mset h (ht_data ht)"
  using table_step_Insert_Union [OF assms(1), of True h] assms(2) that
  by (auto simp: hash_table_insert_def split: option.splits)

lemma retrieve_block_ok:
  assumes "env_ok env" and "db_ok env db" and "retrieve_block env db h = Some z"
  shows "zbcr_ok env z \<and> zbcr_hash z = h \<and> zbcr_valid z"
  using assms by (auto simp: retrieve_block_def zbcr_from_db_def zbcr_common_init_def zbcr_ok_def db_ok_def
      split: option.splits)

definition bc_extends :: "'d ZBlockCache \<Rightarrow> 'd ZBlockCache \<Rightarrow> bool" where
  "bc_extends bc bc' \<longleftrightarrow> (\<forall>h z. blocks bc h = Some z \<longrightarrow> blocks bc' h = Some z)"

lemma block_lookup_nolock_ok:
  assumes "env_ok env" and "bc_ok env bc"
  obtains bc' where "block_lookup_nolock env bc h = Some (if blocks bc' h = None then None else Some h, bc')"
    and "bc_ok env bc'" and "zblockDB bc' = zblockDB bc" and "bc_extends bc bc'"
proof -
  obtain r ht where look: "hash_table_lookup (block_ht bc) h = (r, ht)" by (cases "hash_table_lookup (block_ht bc) h")
  have ready: "ht_ready zbcr_hash_func zbcr_cmp_func (block_ht bc)"
    and dom: "\<And>h. h \<in># ht_data (block_ht bc) \<longleftrightarrow> blocks bc h \<noteq> None"
    and db: "db_ok env (zblockDB bc)" using assms(2) by (auto simp: bc_ok_def)
  note l = ht_ready_lookup [OF ready look]
  show thesis
  proof (cases r)
    case (Some d)
    then have "d = h" "h \<in># ht_data (block_ht bc)" using l by (auto simp: zbcr_cmp_func_def)
    then show thesis
      using that [of "bc\<lparr>block_ht := ht\<rparr>"] Some look l assms(2) dom [of h]
      by (simp add: block_lookup_nolock_def bc_ok_def bc_extends_def)
  next
    case None
    then have new: "h \<notin># ht_data ht" "blocks bc h = None" using l dom [of h] by auto
    show thesis
    proof (cases "retrieve_block env (zblockDB bc) h")
      case None
      then show thesis
        using that [of "bc\<lparr>block_ht := ht\<rparr>"] \<open>r = None\<close> look l assms(2) new
        by (simp add: block_lookup_nolock_def bc_ok_def bc_extends_def)
    next
      case (Some z)
      note z = retrieve_block_ok [OF assms(1) db Some]
      obtain ht1 where ht1: "hash_table_insert ht h = Some ht1" "ht_ready zbcr_hash_func zbcr_cmp_func ht1"
          "ht_data ht1 = add_mset h (ht_data ht)"
        using ht_insert_hash [OF conjunct1 [OF l] new(1)] .
      obtain r2 ht2 where look2: "hash_table_lookup ht1 h = (r2, ht2)" by (cases "hash_table_lookup ht1 h")
      note l2 = ht_ready_lookup [OF ht1(2) look2]
      have r2: "r2 = Some h" using l2 ht1(3) by (auto simp: zbcr_cmp_func_def split: option.splits)
      show thesis
        using that [of "bc\<lparr>block_ht := ht2, blocks := (blocks bc)(h \<mapsto> z)\<rparr>"]
          \<open>r = None\<close> look Some z ht1 look2 l l2 r2 assms(2) new
        by (auto simp: block_lookup_nolock_def bc_ok_def bc_extends_def)
    qed
  qed
qed

lemma block_insert_ok:
  assumes "env_ok env" and "bc_ok env bc" and "zbcr_ok env z" and "block_insert env bc z = Some (fresh, bc')"
  shows "bc_ok env bc' \<and> bc_extends bc bc' \<and> blocks bc' (zbcr_hash z) \<noteq> None"
proof -
  obtain bc1 where bc1: "block_lookup_nolock env bc (zbcr_hash z) =
        Some (if blocks bc1 (zbcr_hash z) = None then None else Some (zbcr_hash z), bc1)"
      "bc_ok env bc1" "zblockDB bc1 = zblockDB bc" "bc_extends bc bc1"
    by (rule block_lookup_nolock_ok [OF assms(1,2), of "zbcr_hash z"])
  show ?thesis
  proof (cases "blocks bc1 (zbcr_hash z) = None")
    case False
    then show ?thesis using assms(4) bc1 by (auto simp: block_insert_def)
  next
    case True
    have ready: "ht_ready zbcr_hash_func zbcr_cmp_func (block_ht bc1)" and new: "zbcr_hash z \<notin># ht_data (block_ht bc1)"
      and db: "db_ok env (zblockDB bc1)" using bc1(2) True by (auto simp: bc_ok_def)
    obtain ht where ht: "hash_table_insert (block_ht bc1) (zbcr_hash z) = Some ht"
        "ht_ready zbcr_hash_func zbcr_cmp_func ht" "ht_data ht = add_mset (zbcr_hash z) (ht_data (block_ht bc1))"
      by (rule ht_insert_hash [OF ready new])
    obtain db' where s: "store_block env (zblockDB bc1) z = Some db'"
        and bc': "bc' = bc1\<lparr>block_ht := ht, blocks := (blocks bc1)(zbcr_hash z \<mapsto> z), zblockDB := db'\<rparr>"
      using assms(4) bc1(1) True ht(1) by (auto simp: block_insert_def Option.bind_eq_Some_conv)
    show ?thesis
      using bc1(2,4) ht store_block_ok [OF assms(1) db s assms(3)] assms(3) True
      by (auto simp: bc' bc_ok_def bc_extends_def)
  qed
qed

lemma cached_receive_data_ok:
  assumes "env_ok env" and "bc_ok env bc" and "cached_receive_data env bc h s e payload offset = Some (c, bc')"
  shows "bc_ok env bc'"
proof -
  obtain z z' db where z: "blocks bc h = Some z"
      and r: "receive_data env (zblockDB bc) z s e payload offset = Some (c, z', db)"
      and bc': "bc' = bc\<lparr>blocks := (blocks bc)(h \<mapsto> z'), zblockDB := db\<rparr>"
    using assms(3) by (auto simp: cached_receive_data_def Option.bind_eq_Some_conv)
  have "zbcr_ok env z" "db_ok env (zblockDB bc)" "zbcr_hash z = h" using assms(2) z by (auto simp: bc_ok_def)
  then show ?thesis using receive_data_ok [OF assms(1) _ _ r] assms(2) z by (auto simp: bc' bc_ok_def)
qed

lemma cached_complete_with_zeros_ok:
  assumes "env_ok env" and "bc_ok env bc" and "cached_complete_with_zeros env bc h = Some bc'"
  shows "bc_ok env bc'"
proof -
  obtain z z' db where z: "blocks bc h = Some z"
      and r: "complete_with_zeros env (zblockDB bc) z = Some (z', db)"
      and bc': "bc' = bc\<lparr>blocks := (blocks bc)(h \<mapsto> z'), zblockDB := db\<rparr>"
    using assms(3) by (auto simp: cached_complete_with_zeros_def Option.bind_eq_Some_conv)
  have "zbcr_ok env z" "db_ok env (zblockDB bc)" "zbcr_hash z = h" using assms(2) z by (auto simp: bc_ok_def)
  then show ?thesis using complete_with_zeros_ok [OF assms(1) _ _ r] assms(2) z by (auto simp: bc' bc_ok_def)
qed

lemma ZBlockCache_init_ok: "db_ok env db \<Longrightarrow> bc_ok env (ZBlockCache_init db)"
  using ht_ready_init [OF zbcr_key.hash_key_axioms]
  by (simp add: bc_ok_def ZBlockCache_init_def) (simp add: hash_table_init_def ht_data_def)

section \<open>Properties\<close>

text \<open>A history of calls on the cache and on the records it hands out.\<close>

datatype block_op =
    Find_Block hash_t
  | Expect_Block hash_t
  | Load_Block bytes u32
  | Receive_Data hash_t u32 u32 bytes u32
  | Complete_Block hash_t

fun block_step :: "'d zenv \<Rightarrow> block_op \<Rightarrow> 'd ZBlockCache \<Rightarrow> 'd ZBlockCache option" where
  "block_step env (Find_Block h) bc = map_option snd (block_lookup env bc h)"
| "block_step env (Expect_Block h) bc = map_option snd (block_insert env bc (zbcr_expected env h))"
| "block_step env (Load_Block d n) bc = do {
     z \<leftarrow> zbcr_from_data env d n; map_option snd (block_insert env bc z) }"
| "block_step env (Receive_Data h s e payload offset) bc =
     map_option snd (cached_receive_data env bc h s e payload offset)"
| "block_step env (Complete_Block h) bc = cached_complete_with_zeros env bc h"

fun block_run :: "'d zenv \<Rightarrow> block_op list \<Rightarrow> 'd ZBlockCache \<Rightarrow> 'd ZBlockCache option" where
  "block_run env [] bc = Some bc"
| "block_run env (a # as) bc = do { bc \<leftarrow> block_step env a bc; block_run env as bc }"

lemma block_step_ok:
  assumes "env_ok env" and "bc_ok env bc" and "block_step env a bc = Some bc'"
  shows "bc_ok env bc'"
proof (cases a)
  case (Find_Block h)
  obtain r bc1 where "block_lookup_nolock env bc h = Some (r, bc1)" "bc_ok env bc1"
    using block_lookup_nolock_ok [OF assms(1,2), of h] by blast
  then show ?thesis using assms(3) Find_Block by (simp add: block_lookup_def)
next
  case (Expect_Block h)
  then show ?thesis
    using assms(3) block_insert_ok [OF assms(1,2), of "zbcr_expected env h"] zbcr_expected_ok [OF assms(1), of h]
    by auto
next
  case (Load_Block d n)
  then obtain z fresh where z: "zbcr_from_data env d n = Some z" "block_insert env bc z = Some (fresh, bc')"
    using assms(3) by (auto simp: Option.bind_eq_Some_conv)
  show ?thesis
    using block_insert_ok [OF assms(1,2) conjunct1 [OF zbcr_from_data_ok [OF assms(1) z(1)]] z(2)] by blast
next
  case (Receive_Data h s e payload offset)
  then show ?thesis using assms(3) cached_receive_data_ok [OF assms(1,2)] by auto
next
  case (Complete_Block h)
  then show ?thesis using assms(3) cached_complete_with_zeros_ok [OF assms(1,2)] by auto
qed

lemma block_run_ok:
  "env_ok env \<Longrightarrow> bc_ok env bc \<Longrightarrow> block_run env as bc = Some bc' \<Longrightarrow> bc_ok env bc'"
  by (induction as arbitrary: bc) (auto simp: Option.bind_eq_Some_conv dest: block_step_ok)

text \<open>
  C8: Whatever replies arrive and in whatever order the cache and its records are used, a block
  the cache calls valid has the data its key is the hash of, a full block of it, and so does everything
  in the persistent store, if that held of the store at the start.
\<close>

theorem block_cache_authentic:
  assumes "env_ok env" and "db_ok env db" and "block_run env as (ZBlockCache_init db) = Some bc"
  shows "(\<forall>h z. blocks bc h = Some z \<and> zbcr_valid z
            \<longrightarrow> length (zbcr_data z) = BLOCK \<and> zhash env (zbcr_data z) = h)
         \<and> db_ok env (zblockDB bc)"
  using block_run_ok [OF assms(1) ZBlockCache_init_ok [OF assms(2)] assms(3)]
  by (auto simp: bc_ok_def zbcr_ok_def)

definition sample_env :: "(hash_t \<Rightarrow> bytes option) zenv" where
  "sample_env = \<lparr>zhash = (\<lambda>d. of_nat (length d)), fresh_block = replicate BLOCK 1,
     db_lookup = (\<lambda>m. m), db_insert = (\<lambda>m h d. m(h \<mapsto> d))\<rparr>"

lemma sample_env_ok: "env_ok sample_env"
  by (auto simp: env_ok_def sample_env_def)

lemma sample_load:
  "zbcr_from_data sample_env [] 0 = Some \<lparr>zbcr_hash = 65536, zbcr_data = replicate BLOCK 0,
     next_gap = 65536, zbcr_valid = True\<rparr>"
proof -
  have "load_data_internal (zbcr_common_init sample_env 0) [] 0 ZFTP_BLOCK_SIZE =
      Some \<lparr>zbcr_hash = 0, zbcr_data = replicate BLOCK 0, next_gap = 65536, zbcr_valid = False\<rparr>"
    by (subst load_data_internal_fits) (simp_all add: zbcr_common_init_def sample_env_def ZFTP_BLOCK_SIZE_eq)
  then show ?thesis by (simp add: zbcr_from_data_def) (simp add: sample_env_def)
qed

theorem block_cache_authentic_witness:
  "\<exists>bc. block_run sample_env [Load_Block [] 0] (ZBlockCache_init None) = Some bc
     \<and> length (zbcr_data (the (blocks bc 65536))) = BLOCK
     \<and> zhash sample_env (zbcr_data (the (blocks bc 65536))) = 65536"
proof -
  have db: "db_ok sample_env None" by (simp add: db_ok_def)
  note init = ZBlockCache_init_ok [OF db]
  let ?z = "\<lparr>zbcr_hash = 65536, zbcr_data = replicate BLOCK 0, next_gap = 65536, zbcr_valid = True\<rparr>"
  have ready: "ht_ready zbcr_hash_func zbcr_cmp_func (hash_table_init zbcr_hash_func zbcr_cmp_func)"
    by (rule ht_ready_init [OF zbcr_key.hash_key_axioms])
  have none: "hash_table_lookup (hash_table_init zbcr_hash_func zbcr_cmp_func) 65536
      = (None, hash_table_init zbcr_hash_func zbcr_cmp_func)"
    using hash_table_lookup_None [of "hash_table_init zbcr_hash_func zbcr_cmp_func" 65536] ready
    by (simp add: ht_ready_def hash_table_lookup_miss) (simp add: hash_table_init_def ht_data_def)
  obtain ht where ht: "hash_table_insert (hash_table_init zbcr_hash_func zbcr_cmp_func) 65536 = Some ht"
    by (rule ht_insert_hash [OF ready, of 65536]) (simp_all add: hash_table_init_def ht_data_def)
  define bc where "bc = \<lparr>block_ht = ht, blocks = (\<lambda>h. None)(65536 \<mapsto> ?z),
      zblockDB = (None :: (hash_t \<Rightarrow> bytes option) option)\<rparr>"
  have run: "block_run sample_env [Load_Block [] 0] (ZBlockCache_init None) = Some bc"
    using ht none sample_load
    by (simp add: block_insert_def block_lookup_nolock_def ZBlockCache_init_def retrieve_block_def
        store_block_def bc_def)
  moreover have "blocks bc 65536 = Some ?z" by (simp add: bc_def)
  moreover from this have "zhash sample_env (zbcr_data ?z) = 65536"
    using block_cache_authentic [OF sample_env_ok db run, THEN conjunct1, rule_format, of 65536 ?z] by simp
  ultimately show ?thesis by (intro exI [of _ bc]) simp
qed

text \<open>
  C16: A block fetched piecewise. Let chunks, none of them empty, arrive in order for a block that is expected by
  its hash, let them make up at most a block, and let zeros complete it, which is what happens to the last block of
  a file. If the chunks followed by zeros have the expected hash, the record ends up valid, holds exactly these bytes and
  is stored; otherwise the process stops. As long as the chunks make up less than a block, nothing is stored,
  the record is not valid, and its gap is what is still to come.
\<close>

theorem block_reassembly:
  assumes "length (fresh_block env) = BLOCK" and "\<forall>c \<in> set cs. c \<noteq> []" and "length (concat cs) \<le> BLOCK"
    and "d = concat cs @ replicate (BLOCK - length (concat cs)) 0"
  shows "receive_chunks env db (zbcr_expected env h) cs \<bind> (\<lambda>(z, db). complete_with_zeros env db z) =
    (if zhash env d = h
     then Some (\<lparr>zbcr_hash = h, zbcr_data = d, next_gap = ZFTP_BLOCK_SIZE, zbcr_valid = True\<rparr>,
                map_option (\<lambda>m. db_insert env m h d) db)
     else None)
    \<and> (length (concat cs) < BLOCK \<longrightarrow> (\<exists>z. receive_chunks env db (zbcr_expected env h) cs = Some (z, db)
        \<and> get_first_gap z = Some (of_nat (length (concat cs)), of_nat (BLOCK - length (concat cs)))))"
proof (cases "length (concat cs) < BLOCK")
  case True
  let ?e = "zbcr_expected env h"
  have e: "\<not> zbcr_valid ?e" "length (zbcr_data ?e) = BLOCK" "unat (next_gap ?e) = 0" "zbcr_hash ?e = h"
    using assms(1) by (simp_all add: zbcr_expected_def zbcr_common_init_def)
  obtain y where y: "receive_chunks env db ?e cs = Some (y, db)" "zbcr_hash y = h" "\<not> zbcr_valid y"
      "length (zbcr_data y) = BLOCK" "unat (next_gap y) = length (concat cs)"
      "take (unat (next_gap y)) (zbcr_data y) = concat cs"
    by (rule receive_chunks_partial [OF e(1,2), of cs env db]) (use e True in auto)
  have d: "d = take (unat (next_gap y)) (zbcr_data y) @ replicate (BLOCK - unat (next_gap y)) 0"
    unfolding y(6) unfolding y(5) by (rule assms(4))
  have gap: "next_gap y = of_nat (length (concat cs))" unfolding y(5) [symmetric] by simp
  then have "get_first_gap y = Some (of_nat (length (concat cs)), of_nat (BLOCK - length (concat cs)))"
    using y(3) assms(3) by (simp add: get_first_gap_def ZFTP_BLOCK_SIZE_eq of_nat_diff)
  then show ?thesis
    using y complete_with_zeros_partial [OF y(3,4) _ d, of env db] True by (cases y) simp
next
  case False
  then have full: "length (concat cs) = BLOCK" "d = concat cs" using assms(3,4) by simp_all
  then show ?thesis
    using receive_chunks_append [OF assms(2), of "zbcr_expected env h" d env db] assms(1)
    by (simp add: zbcr_expected_def zbcr_common_init_def complete_with_zeros_def)
qed

theorem block_reassembly_witness:
  "\<exists>z. receive_chunks sample_env None (zbcr_expected sample_env 65536) [replicate 300 1, replicate 200 2]
         \<bind> (\<lambda>(z, db). complete_with_zeros sample_env db z) = Some (z, None)
     \<and> zbcr_valid z \<and> zbcr_data z = (replicate 300 1 @ replicate 200 2) @ replicate 65036 0"
  using block_reassembly [of sample_env "[replicate 300 1, replicate 200 2]"
      "(replicate 300 1 @ replicate 200 2) @ replicate 65036 0" None 65536]
  by (simp add: sample_env_def)

text \<open>
  C37: A reply may leave out trailing zeros of its range, and the payload then ends before the
  offset of a later block of the range. The length computed for that block wraps around, and the copy reads
  beyond the payload: the fill of the block is never a zero fill but a read outside the buffer.
\<close>

theorem receive_data_short_payload:
  assumes "zbcr_ok env z" and "next_gap z = s" and "s < e" and "e \<le> ZFTP_BLOCK_SIZE"
    and "length payload < unat offset" and "offset < 0x80000000"
  shows "receive_data env db z s e payload offset = None"
proof -
  let ?l = "of_nat (length payload) :: u32"
  have l: "unat ?l = length payload"
    using less_trans [OF assms(5) unat_u32_bound [of offset]] by (intro unat_of_nat_u32) simp
  have es: "unat (e - s) = unat e - unat s" "unat s < unat e" "unat e \<le> BLOCK"
    using assms(3,4) unat_BLOCK_SIZE by (auto simp: unat_sub_no_wrap word_less_nat_alt word_le_nat_alt)
  have "unat (?l - offset) = unat ?l + 2 ^ 32 - unat offset"
    using assms(5) l by (simp add: unat_sub_if')
  then have "e - s \<le> ?l - offset"
    using es assms(6) by (simp add: word_le_nat_alt word_less_nat_alt)
  then have "min (?l - offset) (e - s) = e - s" by simp
  moreover have "drop (unat offset) payload = []" using assms(5) by simp
  moreover have "e - s > 0" using assms(3) by (auto simp: word_greater_zero_iff)
  ultimately show ?thesis
    using assms(2) es by (simp add: receive_data_def load_data_internal_def Let_def lite_memcpy_eq)
qed

theorem receive_data_short_payload_witness:
  "receive_data sample_env None (zbcr_expected sample_env 7) 0 65536 (replicate 10 5) 65536 = None"
  by (rule receive_data_short_payload [OF conjunct1 [OF zbcr_expected_ok [OF sample_env_ok]]])
    (simp_all add: ZFTP_BLOCK_SIZE_eq zbcr_expected_def zbcr_common_init_def)

text \<open>
  C38: A record that came from the persistent store accepts no data: its gap was never moved to the
  end, so a repeated packet for the block is not seen as a duplicate, and the validation after the fill (or after
  the zero padding of a last block) always trips its assertion.
\<close>

theorem stored_block_rejects_data:
  "receive_data env db (zbcr_from_db env h v) s e payload offset = None
   \<and> complete_with_zeros env db (zbcr_from_db env h v) = None"
proof -
  let ?z = "zbcr_from_db env h v"
  have z: "next_gap ?z = 0" "zbcr_valid ?z" by (simp_all add: zbcr_from_db_def zbcr_common_init_def)
  have stop: "zbcr_validate env db y = None" if "load_data_internal ?z src p l = Some y" for src p l y
    using load_data_internal_frame [OF that] z by (simp add: zbcr_validate_def)
  have stops: "load_data_internal ?z src p l \<bind> (\<lambda>y. zbcr_validate env db y \<bind> f) = None"
      "load_data_internal ?z src p l \<bind> zbcr_validate env db = None"
    for src p l and f :: "ZBlockCacheRecord \<times> 'a option \<Rightarrow> (bool \<times> ZBlockCacheRecord \<times> 'a option) option"
    using stop [of src p l] by (cases "load_data_internal ?z src p l"; simp)+
  then have "receive_data env db ?z s e payload offset = None"
    unfolding receive_data_def Let_def z(1) by (simp add: Option.bind_eq_None_conv)
  moreover have "complete_with_zeros env db ?z = None"
    unfolding complete_with_zeros_def z(1) by (simp add: ZFTP_BLOCK_SIZE_eq stops)
  ultimately show ?thesis by blast
qed

text \<open>
  With a persistent store, a record made to wait for its data cannot even enter the cache: it is
  offered to the store, which insists on valid data.
\<close>

lemma expected_block_not_storable:
  assumes "env_ok env" and "bc_ok env bc" and "zblockDB bc = Some db" and "db_lookup env db h = None"
    and "blocks bc h = None"
  shows "block_insert env bc (zbcr_expected env h) = None"
proof -
  obtain r ht where look: "hash_table_lookup (block_ht bc) h = (r, ht)" by (cases "hash_table_lookup (block_ht bc) h")
  have "h \<notin># ht_data (block_ht bc)" and ready: "ht_ready zbcr_hash_func zbcr_cmp_func (block_ht bc)"
    using assms(2,5) by (auto simp: bc_ok_def)
  then have "r = None" using ht_ready_lookup [OF ready look] by (auto simp: zbcr_cmp_func_def split: option.splits)
  then show ?thesis
    using look assms(3,4)
    by (auto simp: block_insert_def block_lookup_nolock_def retrieve_block_def store_block_def peek_data_def
        zbcr_expected_def zbcr_common_init_def Option.bind_eq_None_conv)
qed

end
