(* ===== verification/Merkle_File.thy ===== *)
theory Merkle_File
  imports Block_Cache Zftp_Messages
begin

text \<open>
  A cached file and its Merkle tree, \<^verbatim>\<open>common/zftp_module/ZCachedFile.cpp\<close> with
  \<^verbatim>\<open>ValidatedMerkleRecord.cpp\<close>: the tree is an array of hashes, each unknown, tentative or validated; a
  reply from a server installs metadata, hashes and data, and the hashes are then validated against their parents.
  Requests that wait for data are in \<open>File_Service\<close>, files that are hashed from an origin in \<open>Origin_File\<close>.

  A pointer to a node of the tree is its location, which is the position in the array; the table
  \<^verbatim>\<open>parents_of_tentative_nodes\<close> holds such pointers. Reading or writing the array outside its allocation is \<^const>\<open>None\<close>.
  The virtual methods that \<^verbatim>\<open>ZOriginFile\<close> overrides branch on the field \<open>is_origin\<close>, the class of the object.
\<close>

section \<open>Definitions\<close>

subsection \<open>Validity\<close>

datatype ValidityState = v_unknown | v_tentative | v_validated | v_margin

fun validity_rank :: "ValidityState \<Rightarrow> nat" where
  "validity_rank v_unknown = 0"
| "validity_rank v_tentative = 1"
| "validity_rank v_validated = 2"
| "validity_rank v_margin = 3"

instantiation ValidityState :: linorder
begin

definition less_eq_ValidityState :: "ValidityState \<Rightarrow> ValidityState \<Rightarrow> bool" where
  "less_eq_ValidityState a b \<longleftrightarrow> validity_rank a \<le> validity_rank b"

definition less_ValidityState :: "ValidityState \<Rightarrow> ValidityState \<Rightarrow> bool" where
  "less_ValidityState a b \<longleftrightarrow> validity_rank a < validity_rank b"

instance
proof
  fix a b c :: ValidityState
  show "a \<le> b \<Longrightarrow> b \<le> a \<Longrightarrow> a = b"
    by (cases a; cases b; simp add: less_eq_ValidityState_def)
qed (auto simp: less_eq_ValidityState_def less_ValidityState_def)

end

record ValidatedMerkleRecord =
  vmr_hash :: hash_t
  vmr_state :: ValidityState

definition vmr_hash_func :: "u32 \<Rightarrow> u32" where
  "vmr_hash_func loc = loc"

definition vmr_cmp_func :: "u32 \<Rightarrow> u32 \<Rightarrow> int" where
  "vmr_cmp_func a b = sint (a - b)"

lemma vmr_cmp_zero [simp]: "vmr_cmp_func a b = 0 \<longleftrightarrow> a = b"
proof -
  have "sint (a - b) = 0 \<longleftrightarrow> a - b = 0" using signed_word_eqI [of "a - b" 0] by auto
  then show ?thesis by (simp add: vmr_cmp_func_def)
qed

interpretation vmr_key: hash_key vmr_hash_func vmr_cmp_func
  by unfold_locales simp_all

subsection \<open>The file\<close>

datatype ZCachedStatus = zcs_ignorant | zcs_clean | zcs_dirty

datatype InstallResult = FAIL | NO_EFFECT | NEW_DATA

type_synonym request_ptr = nat

record ZCachedFile =
  file_hash :: hash_t
  metadata :: ZFTPFileMetadata
  tree :: "ValidatedMerkleRecord list"
  file_len :: u32
  num_blocks :: u32
  tree_depth :: nat
  tree_size :: u32
  metadata_state :: ValidityState
  waiters :: "(request_ptr \<times> ZFileRequest) list"
  parents_of_tentative_nodes :: "u32 hash_table"
  is_origin :: bool
  status :: ZCachedStatus
  progress_counter :: u32
  requesting_data_mode :: bool

definition zcf_ctor_init :: "hash_t \<Rightarrow> bool \<Rightarrow> ZCachedFile" where
  "zcf_ctor_init h origin =
     \<lparr>file_hash = h, metadata = \<lparr>file_len_network_order = 0, flags = 0\<rparr>, tree = [],
      file_len = 0, num_blocks = 0, tree_depth = 0, tree_size = 0, metadata_state = v_unknown, waiters = [],
      parents_of_tentative_nodes = hash_table_init vmr_hash_func vmr_cmp_func, is_origin = origin,
      status = zcs_ignorant, progress_counter = 0, requesting_data_mode = False\<rparr>"

definition ZCachedFile_new :: "hash_t \<Rightarrow> ZCachedFile" where
  "ZCachedFile_new h = zcf_ctor_init h False"

definition zcf_hash_func :: "hash_t \<Rightarrow> u32" where
  "zcf_hash_func h = field 0 4 (hash_bytes h)"

definition zcf_cmp_func :: "hash_t \<Rightarrow> hash_t \<Rightarrow> int" where
  "zcf_cmp_func a b = cmp_hash a b"

interpretation zcf_key: hash_key zcf_hash_func zcf_cmp_func
  by unfold_locales (simp_all add: zcf_cmp_func_def)

definition get_filelen :: "ZCachedFile \<Rightarrow> u32" where
  "get_filelen f = z_ntohl (file_len_network_order (metadata f))"

definition get_file_data_range :: "ZCachedFile \<Rightarrow> DataRange option" where
  "get_file_data_range f = do {
     lite_assert (metadata_state f = v_validated);
     Some (DataRange_of 0 (get_filelen f)) }"

definition zcf_is_dir :: "ZCachedFile \<Rightarrow> bool option" where
  "zcf_is_dir f = do {
     lite_assert (metadata_state f = v_validated);
     Some (z_ntohl (flags (metadata f)) AND 1 \<noteq> 0) }"

definition tree_at :: "ZCachedFile \<Rightarrow> u32 \<Rightarrow> ValidatedMerkleRecord option" where
  "tree_at f loc =
     (if loc < tree_size f \<and> unat loc < length (tree f) then Some (tree f ! unat loc) else None)"

definition tree_set :: "ZCachedFile \<Rightarrow> u32 \<Rightarrow> ValidatedMerkleRecord \<Rightarrow> ZCachedFile" where
  "tree_set f loc vmr = f\<lparr>tree := (tree f)[unat loc := vmr]\<rparr>"

definition get_validated_merkle_record :: "ZCachedFile \<Rightarrow> u32 \<Rightarrow> ValidatedMerkleRecord option" where
  "get_validated_merkle_record f location = do {
     vmr \<leftarrow> tree_at f location;
     lite_assert (vmr_state vmr = v_validated);
     Some vmr }"

subsection \<open>Metadata\<close>

definition compute_file_hash :: "'d zenv \<Rightarrow> ZFTPFileMetadata \<Rightarrow> hash_t \<Rightarrow> hash_t" where
  "compute_file_hash env m root_hash = zhash env (metadata_bytes m @ hash_bytes root_hash)"

definition configure_from_metadata :: "ZCachedFile \<Rightarrow> ZCachedFile" where
  "configure_from_metadata f =
     (let len = z_ntohl (file_len_network_order (metadata f));
          nb = compute_num_blocks len;
          depth = compute_tree_depth nb;
          size = compute_tree_size depth
      in f\<lparr>metadata_state := v_validated, file_len := len, num_blocks := nb, tree_depth := depth, tree_size := size,
           tree := replicate (unat size) \<lparr>vmr_hash = 0, vmr_state = v_unknown\<rparr>\<rparr>)"

definition find_root_merkle_record :: "ZFileReplyFromServer \<Rightarrow> ZFTPMerkleRecord option" where
  "find_root_merkle_record reply = find (\<lambda>zmr. z_ntohl (tree_location zmr) = 0) (rp_raw_records reply)"

definition install_metadata ::
    "'d zenv \<Rightarrow> ZCachedFile \<Rightarrow> ZFileReplyFromServer \<Rightarrow> InstallResult \<times> ZCachedFile" where
  "install_metadata env f reply =
     (if metadata_state f = v_validated then (NO_EFFECT, f)
      else case find_root_merkle_record reply of
          None \<Rightarrow> (FAIL, f)
        | Some root_zmr \<Rightarrow>
            let root_hash = zmr_hash root_zmr;
                computed_file_hash = compute_file_hash env (rp_metadata reply) root_hash
            in if cmp_hash computed_file_hash (file_hash f) \<noteq> 0 then (FAIL, f)
               else let f = configure_from_metadata (f\<lparr>metadata := rp_metadata reply\<rparr>)
                    in (NEW_DATA, tree_set f 0 \<lparr>vmr_hash = root_hash, vmr_state = v_validated\<rparr>))"

subsection \<open>Hashes\<close>

definition hash_children :: "'d zenv \<Rightarrow> ZCachedFile \<Rightarrow> u32 \<Rightarrow> u32 \<Rightarrow> hash_t option" where
  "hash_children env f ca cb =
     (let (left_sib, right_sib) = (if ca < cb then (ca, cb) else (cb, ca)) in do {
        lite_assert (left_sib AND 1 = 1);
        lite_assert (left_sib + 1 = right_sib);
        l \<leftarrow> tree_at f left_sib;
        r \<leftarrow> tree_at f right_sib;
        Some (zhash env (hash_bytes (vmr_hash l) @ hash_bytes (vmr_hash r))) })"

definition track_parent_of_tentative_nodes :: "ZCachedFile \<Rightarrow> u32 \<Rightarrow> ZCachedFile option" where
  "track_parent_of_tentative_nodes f parent =
     (if is_origin f then Some f
      else do {
        l \<leftarrow> tree_at f (left_child parent);
        (if vmr_state l = v_unknown then Some f
         else do {
           r \<leftarrow> tree_at f (right_child parent);
           (if vmr_state r = v_unknown then Some f
            else do {
              ht \<leftarrow> hash_table_union (parents_of_tentative_nodes f) parent;
              Some (f\<lparr>parents_of_tentative_nodes := ht\<rparr>) }) }) })"

definition assert_root_validated :: "ZCachedFile \<Rightarrow> unit option" where
  "assert_root_validated f =
     (if is_origin f then Some ()
      else do { root \<leftarrow> tree_at f 0; lite_assert (vmr_state root = v_validated) })"

lemma tree_at_less: "tree_at f loc = Some v \<Longrightarrow> unat loc < 2 ^ 32 - 1"
proof -
  assume "tree_at f loc = Some v"
  then have "unat loc < unat (tree_size f)" by (auto simp: tree_at_def word_less_nat_alt split: if_splits)
  then have "unat loc < 4294967295" using unat_u32_bound [of "tree_size f"] by linarith
  then show ?thesis by simp
qed

function mark_node_tentative :: "'d zenv \<Rightarrow> ZCachedFile \<Rightarrow> u32 \<Rightarrow> ZCachedFile option" where
  "mark_node_tentative env f location =
     tree_at f location \<bind> (\<lambda>vmr.
     lite_assert (vmr_state vmr \<noteq> v_validated) \<bind> (\<lambda>_.
     let f1 = tree_set f location (vmr\<lparr>vmr_state := v_tentative\<rparr>) in
     if location > 0 then
       let parent_loc = parent_location location in
       track_parent_of_tentative_nodes f1 parent_loc \<bind> (\<lambda>f2.
       sibling_location location \<bind> (\<lambda>sibling_loc.
       tree_at f2 parent_loc \<bind> (\<lambda>parent.
       tree_at f2 sibling_loc \<bind> (\<lambda>sibling.
       if vmr_state parent = v_unknown \<and> vmr_state sibling \<noteq> v_unknown
       then hash_children env f2 location sibling_loc \<bind> (\<lambda>h.
            mark_node_tentative env (tree_set f2 parent_loc (parent\<lparr>vmr_hash := h\<rparr>)) parent_loc)
       else Some f2))))
     else assert_root_validated f1 \<bind> (\<lambda>_. Some f1)))"
  by pat_completeness auto
termination
proof (relation "measure (\<lambda>(env, f, location). unat location)")
  fix env :: "'d zenv" and f :: ZCachedFile and location parent_loc :: u32 and vmr f2 s parent h
  assume "tree_at f location = Some vmr" "0 < location" "parent_loc = parent_location location"
  then show "((env, tree_set f2 parent_loc (parent\<lparr>vmr_hash := h\<rparr>), parent_loc), env, f, location)
      \<in> measure (\<lambda>(env, f, location). unat location)"
    using unat_parent_location [of location] tree_at_less [of f location vmr]
    by (simp add: word_less_nat_alt)
qed simp

declare mark_node_tentative.simps [simp del]

definition load_hash :: "'d zenv \<Rightarrow> ZCachedFile \<Rightarrow> ZFTPMerkleRecord \<Rightarrow> (bool \<times> ZCachedFile) option" where
  "load_hash env f record =
     (let location = z_ntohl (tree_location record) in
      if \<not> location < tree_size f then Some (False, f)
      else do {
        vmr \<leftarrow> tree_at f location;
        (if vmr_state vmr = v_validated then Some (False, f)
         else do {
           f \<leftarrow> mark_node_tentative env (tree_set f location (vmr\<lparr>vmr_hash := zmr_hash record\<rparr>)) location;
           Some (True, f) }) })"

fun install_merkle_records_loop ::
    "'d zenv \<Rightarrow> ZFTPMerkleRecord list \<Rightarrow> bool \<Rightarrow> ZCachedFile \<Rightarrow> (bool \<times> ZCachedFile) option" where
  "install_merkle_records_loop env [] caused_change f = Some (caused_change, f)"
| "install_merkle_records_loop env (zmr # zmrs) caused_change f =
     (let location = z_ntohl (tree_location zmr) in do {
        vmr \<leftarrow> tree_at f location;
        (case vmr_state vmr of
           v_validated \<Rightarrow> do {
             lite_assert (cmp_hash (vmr_hash vmr) (zmr_hash zmr) = 0);
             install_merkle_records_loop env zmrs caused_change f }
         | v_tentative \<Rightarrow> install_merkle_records_loop env zmrs caused_change f
         | v_unknown \<Rightarrow> do {
             f \<leftarrow> mark_node_tentative env (tree_set f location (vmr\<lparr>vmr_hash := zmr_hash zmr\<rparr>)) location;
             install_merkle_records_loop env zmrs True f }
         | v_margin \<Rightarrow> None) })"

definition install_merkle_records ::
    "'d zenv \<Rightarrow> ZCachedFile \<Rightarrow> ZFileReplyFromServer \<Rightarrow> (bool \<times> ZCachedFile) option" where
  "install_merkle_records env f reply = install_merkle_records_loop env (rp_raw_records reply) False f"

definition mark_hash_validated :: "ZCachedFile \<Rightarrow> u32 \<Rightarrow> ZCachedFile option" where
  "mark_hash_validated f loc = do {
     vmr \<leftarrow> tree_at f loc;
     let f = tree_set f loc (vmr\<lparr>vmr_state := v_validated\<rparr>);
     lite_assert (fst (tree_unindex loc) \<le> tree_depth f);
     Some f }"

definition validate_children ::
    "'d zenv \<Rightarrow> ZCachedFile \<Rightarrow> u32 \<Rightarrow> (InstallResult \<times> ZCachedFile) option" where
  "validate_children env f parent_loc =
     (let left_sib = left_child parent_loc; right_sib = left_sib + 1 in do {
        lite_assert (right_sib < tree_size f);
        l \<leftarrow> tree_at f left_sib;
        lite_assert (vmr_state l \<noteq> v_unknown);
        r \<leftarrow> tree_at f right_sib;
        lite_assert (vmr_state r \<noteq> v_unknown);
        parent_hash_computed \<leftarrow> hash_children env f left_sib right_sib;
        parent \<leftarrow> tree_at f parent_loc;
        (if cmp_hash (vmr_hash parent) parent_hash_computed = 0 then do {
           f \<leftarrow> mark_hash_validated f left_sib;
           f \<leftarrow> mark_hash_validated f right_sib;
           Some (NEW_DATA, f) }
         else Some (FAIL, f)) })"

fun validate_parents ::
    "'d zenv \<Rightarrow> u32 list \<Rightarrow> InstallResult \<Rightarrow> ZCachedFile \<Rightarrow> (InstallResult \<times> ZCachedFile) option" where
  "validate_parents env [] result f = Some (result, f)"
| "validate_parents env (p # ps) result f = do {
     (ir, f) \<leftarrow> validate_children env f p;
     validate_parents env ps (if ir = FAIL then FAIL else NEW_DATA) f }"

definition validate_tentative_hashes :: "'d zenv \<Rightarrow> ZCachedFile \<Rightarrow> (InstallResult \<times> ZCachedFile) option" where
  "validate_tentative_hashes env f =
     (let num_parents = ht_count (parents_of_tentative_nodes f) in do {
        (ht, sorted_parents) \<leftarrow> hash_table_remove_every (parents_of_tentative_nodes f) (\<lambda>ps p. ps @ [p]) [];
        lite_assert (int (length sorted_parents) = num_parents);
        lite_assert (ht_count ht = 0);
        validate_parents env sorted_parents NO_EFFECT (f\<lparr>parents_of_tentative_nodes := ht\<rparr>) })"

subsection \<open>Data\<close>

definition find_block_hash :: "ZCachedFile \<Rightarrow> u32 \<Rightarrow> ValidityState \<Rightarrow> hash_t option option" where
  "find_block_hash f block_num required_validity = do {
     leaf_loc \<leftarrow> tree_index (tree_depth f) (sint block_num) (tree_size f);
     vmr \<leftarrow> tree_at f leaf_loc;
     (if vmr_state vmr < required_validity then Some None else Some (Some (vmr_hash vmr))) }"

definition lookup_block ::
    "'d zenv \<Rightarrow> ZCachedFile \<Rightarrow> 'd ZBlockCache \<Rightarrow> u32 \<Rightarrow> ValidityState \<Rightarrow> (hash_t option \<times> 'd ZBlockCache) option" where
  "lookup_block env f bc block_num required_validity = do {
     block_hash \<leftarrow> find_block_hash f block_num required_validity;
     (case block_hash of
        None \<Rightarrow> Some (None, bc)
      | Some h \<Rightarrow> do {
          (block, bc) \<leftarrow> block_lookup env bc h;
          (case block of
             Some b \<Rightarrow> Some (Some b, bc)
           | None \<Rightarrow> do {
               (_, bc) \<leftarrow> block_insert env bc (zbcr_expected env h);
               Some (Some h, bc) }) }) }"

text \<open>
  The loop over the blocks a reply has data for, for a number of rounds; \<open>unfinished\<close> is the outcome when the rounds
  are used up before the loop has ended. A file has fewer than 2^16 blocks, so the caller's rounds are enough.
\<close>

fun install_data_loop ::
    "(bool \<times> 'd ZBlockCache) option \<Rightarrow> nat \<Rightarrow> 'd zenv \<Rightarrow> ZCachedFile \<Rightarrow> ZFileReplyFromServer \<Rightarrow> u32 \<Rightarrow> bool \<Rightarrow> 'd ZBlockCache
       \<Rightarrow> (bool \<times> 'd ZBlockCache) option" where
  "install_data_loop unfinished 0 env f reply next_start_byte caused_change bc = unfinished"
| "install_data_loop unfinished (Suc fuel) env f reply next_start_byte caused_change bc =
     (if next_start_byte < dr_end (rp_data_range reply) then
        let next_start_block = drop_bit ZFTP_LG_BLOCK_SIZE next_start_byte;
            block_start_byte = push_bit ZFTP_LG_BLOCK_SIZE next_start_block in do {
          lite_assert (\<not> next_start_block \<ge> num_blocks f);
          let block_end_byte = block_start_byte + ZFTP_BLOCK_SIZE;
          let next_end_byte = min block_end_byte (dr_end (rp_data_range reply));
          (block_record, bc) \<leftarrow> lookup_block env f bc next_start_block v_tentative;
          h \<leftarrow> block_record;
          (changed, bc) \<leftarrow> cached_receive_data env bc h (next_start_byte - block_start_byte)
             (next_end_byte - block_start_byte) (rp_payload reply) (next_start_byte - dr_start (rp_data_range reply));
          bc \<leftarrow> (if next_start_block = num_blocks f - 1 \<and> next_end_byte = get_filelen f
                 then cached_complete_with_zeros env bc h else Some bc);
          install_data_loop unfinished fuel env f reply next_end_byte (caused_change \<or> changed) bc }
      else Some (caused_change, bc))"

definition install_data ::
    "'d zenv \<Rightarrow> ZCachedFile \<Rightarrow> 'd ZBlockCache \<Rightarrow> ZFileReplyFromServer \<Rightarrow> (bool \<times> 'd ZBlockCache) option" where
  "install_data env f bc reply = install_data_loop None 65537 env f reply (dr_start (rp_data_range reply)) False bc"

text \<open>
  The part of \<^verbatim>\<open>install_reply\<close> that takes the reply in, before the waiting requests are looked at again.
  \<^const>\<open>None\<close> inside is the jump to \<^verbatim>\<open>fail\<close>, and otherwise there is the flag \<^verbatim>\<open>caused_change\<close>.
\<close>

definition take_in_reply ::
    "'d zenv \<Rightarrow> ZCachedFile \<Rightarrow> 'd ZBlockCache \<Rightarrow> ZFileReplyFromServer
       \<Rightarrow> (bool option \<times> ZCachedFile \<times> 'd ZBlockCache) option" where
  "take_in_reply env f bc reply =
     (case install_metadata env f reply of
        (FAIL, f) \<Rightarrow> Some (None, f, bc)
      | (ir, f) \<Rightarrow> do {
          let caused_change = (ir = NEW_DATA);
          (c1, f) \<leftarrow> install_merkle_records env f reply;
          (c2, bc) \<leftarrow> install_data env f bc reply;
          (ir, f) \<leftarrow> validate_tentative_hashes env f;
          lite_assert (ir = NEW_DATA \<longrightarrow> caused_change \<or> c1 \<or> c2);
          Some (Some (caused_change \<or> c1 \<or> c2 \<or> ir = NEW_DATA), f, bc) })"

end
