(* ===== verification/Merkle_Validation.thy ===== *)
theory Merkle_Validation
  imports Merkle_File
begin

text \<open>
  What the Merkle tree of a cached file guarantees: the invariant of the tree, its preservation by everything a
  reply does to a file, and what it means for a hash to be validated.
\<close>

section \<open>The tree as an array of nodes\<close>

abbreviation st :: "ZCachedFile \<Rightarrow> nat \<Rightarrow> ValidityState" where
  "st f n \<equiv> vmr_state (tree f ! n)"

abbreviation hs :: "ZCachedFile \<Rightarrow> nat \<Rightarrow> hash_t" where
  "hs f n \<equiv> vmr_hash (tree f ! n)"

abbreviation nodes :: "ZCachedFile \<Rightarrow> nat" where
  "nodes f \<equiv> length (tree f)"

definition pair_hash :: "'d zenv \<Rightarrow> hash_t \<Rightarrow> hash_t \<Rightarrow> hash_t" where
  "pair_hash env a b = zhash env (hash_bytes a @ hash_bytes b)"

definition tree_sized :: "ZCachedFile \<Rightarrow> bool" where
  "tree_sized f \<longleftrightarrow> tree_depth f \<le> 16 \<and> tree_size f = compute_tree_size (tree_depth f)
     \<and> length (tree f) = unat (tree_size f)"

lemma tree_sized_nodes:
  assumes "tree_sized f"
  shows "nodes f = 2 ^ (tree_depth f + 1) - 1" and "nodes f < 2 ^ 17" and "0 < nodes f" and "odd (nodes f)"
proof -
  have d: "tree_depth f \<le> 16" using assms by (simp add: tree_sized_def)
  show n: "nodes f = 2 ^ (tree_depth f + 1) - 1"
    using assms unat_compute_tree_size [of "tree_depth f"] by (simp add: tree_sized_def)
  have "(2 :: nat) ^ (tree_depth f + 1) \<le> 2 ^ 17" by (rule power_increasing) (use d in simp_all)
  then show "nodes f < 2 ^ 17" using n by simp
  define k :: nat where "k = 2 ^ tree_depth f"
  have "1 \<le> k" by (simp add: k_def)
  moreover have "nodes f = 2 * k - 1" using n by (simp add: k_def)
  ultimately show "0 < nodes f" "odd (nodes f)" by presburger+
qed

lemma tree_at_iff:
  assumes "tree_sized f"
  shows "tree_at f loc = (if unat loc < nodes f then Some (tree f ! unat loc) else None)"
  using assms by (simp add: tree_at_def tree_sized_def word_less_nat_alt)

lemma tree_at_in: "tree_sized f \<Longrightarrow> unat loc < nodes f \<Longrightarrow> tree_at f loc = Some (tree f ! unat loc)"
  by (simp add: tree_at_iff)

lemma tree_set_simps [simp]:
  "tree (tree_set f loc v) = (tree f)[unat loc := v]"
  "tree_sized (tree_set f loc v) = tree_sized f"
  "is_origin (tree_set f loc v) = is_origin f"
  "tree_depth (tree_set f loc v) = tree_depth f"
  "tree_size (tree_set f loc v) = tree_size f"
  "parents_of_tentative_nodes (tree_set f loc v) = parents_of_tentative_nodes f"
  by (simp_all add: tree_set_def tree_sized_def)

text \<open>The family of a node that is not the root, in the array.\<close>

lemma node_family:
  assumes "tree_sized f" and "unat loc < nodes f" and "0 < loc"
  obtains p s where "parent_location loc = p" and "sibling_location loc = Some s"
    and "left_child p = (if odd (unat loc) then loc else s)" and "right_child p = (if odd (unat loc) then s else loc)"
    and "unat (left_child p) = 2 * unat p + 1" and "unat (right_child p) = 2 * unat p + 2"
    and "2 * unat p + 2 < nodes f" and "unat p < unat loc"
proof -
  have b: "0 < unat loc" "unat loc < 2 ^ 31"
    using assms tree_sized_nodes(2) [OF assms(1)] by (auto simp: word_less_nat_alt)
  have edge: "unat p < 2 ^ 31 - 1 \<Longrightarrow> 2 * unat p + 2 < nodes f"
    if "unat loc = 2 * unat p + 1 \<or> unat loc = 2 * unat p + 2" for p :: u32
    using that assms(2) tree_sized_nodes(4) [OF assms(1)] by (auto elim!: oddE)
  from b show thesis
  proof (cases rule: tree_node_cases)
    case (left p)
    show thesis
      by (rule that [of p "right_child p"])
        (use left edge [of p] unat_left_child [of p] unat_right_child [of p] in auto)
  next
    case (right p)
    show thesis
      by (rule that [of p "left_child p"])
        (use right edge [of p] unat_left_child [of p] unat_right_child [of p] in auto)
  qed
qed

section \<open>The invariant\<close>

text \<open>
  \<open>waiting x\<close> is the location whose own marking is under way, exempt from the rule that a node with two
  known children is known.
\<close>

definition known :: "ZCachedFile \<Rightarrow> nat \<Rightarrow> bool" where
  "known f n \<longleftrightarrow> st f n \<noteq> v_unknown"

definition closed_upwards :: "nat option \<Rightarrow> ZCachedFile \<Rightarrow> bool" where
  "closed_upwards waiting f \<longleftrightarrow> (\<forall>p. 2 * p + 2 < nodes f \<and> waiting \<noteq> Some p
     \<and> known f (2 * p + 1) \<and> known f (2 * p + 2) \<longrightarrow> known f p)"

definition tracked_ok :: "ZCachedFile \<Rightarrow> bool" where
  "tracked_ok f \<longleftrightarrow> ht_ready vmr_hash_func vmr_cmp_func (parents_of_tentative_nodes f)
     \<and> (\<forall>p \<in># ht_data (parents_of_tentative_nodes f).
          2 * unat p + 2 < nodes f \<and> known f (2 * unat p + 1) \<and> known f (2 * unat p + 2))"

definition validated_ok :: "'d zenv \<Rightarrow> ZCachedFile \<Rightarrow> bool" where
  "validated_ok env f \<longleftrightarrow> (\<forall>p. 2 * p + 2 < nodes f
     \<and> (st f (2 * p + 1) = v_validated \<or> st f (2 * p + 2) = v_validated)
     \<longrightarrow> st f (2 * p + 1) = v_validated \<and> st f (2 * p + 2) = v_validated \<and> known f p
         \<and> hs f p = pair_hash env (hs f (2 * p + 1)) (hs f (2 * p + 2)))"

definition merkle_inv :: "'d zenv \<Rightarrow> nat option \<Rightarrow> ZCachedFile \<Rightarrow> bool" where
  "merkle_inv env waiting f \<longleftrightarrow> tree_sized f \<and> \<not> is_origin f \<and> st f 0 = v_validated
     \<and> (\<forall>n < nodes f. st f n \<noteq> v_margin)
     \<and> closed_upwards waiting f \<and> tracked_ok f \<and> validated_ok env f"

text \<open>What marking does to the file: unknown nodes may become tentative, nothing else changes.\<close>

definition advances :: "ZCachedFile \<Rightarrow> ZCachedFile \<Rightarrow> bool" where
  "advances f f' \<longleftrightarrow>
     (\<exists>t ht. f' = f\<lparr>tree := t, parents_of_tentative_nodes := ht\<rparr>) \<and> nodes f' = nodes f
     \<and> (\<forall>n < nodes f. tree f' ! n = tree f ! n \<or> st f n = v_unknown \<and> st f' n = v_tentative)
     \<and> ht_data (parents_of_tentative_nodes f) \<subseteq># ht_data (parents_of_tentative_nodes f')"

lemma advances_known: "advances f f' \<Longrightarrow> n < nodes f \<Longrightarrow> known f n \<Longrightarrow> tree f' ! n = tree f ! n \<and> known f' n"
  unfolding advances_def known_def by metis

lemma advances_validated:
  "advances f f' \<Longrightarrow> n < nodes f \<Longrightarrow> st f' n = v_validated \<longleftrightarrow> st f n = v_validated"
  unfolding advances_def by (elim conjE, drule spec [of _ n]) auto

lemma advances_nodes: "advances f f' \<Longrightarrow> nodes f' = nodes f"
  by (simp add: advances_def)

lemma advances_parents:
  assumes "ht_data (parents_of_tentative_nodes f) \<subseteq># ht_data ht"
  shows "advances f (f\<lparr>parents_of_tentative_nodes := ht\<rparr>)"
proof -
  have "f\<lparr>parents_of_tentative_nodes := ht\<rparr> = f\<lparr>tree := tree f, parents_of_tentative_nodes := ht\<rparr>" by simp
  then show ?thesis using assms unfolding advances_def by fastforce
qed

lemma advances_refl [simp]: "advances f f"
proof -
  have "f = f\<lparr>tree := tree f, parents_of_tentative_nodes := parents_of_tentative_nodes f\<rparr>" by simp
  then show ?thesis unfolding advances_def by blast
qed

lemma advances_trans [trans]:
  assumes "advances f g" and "advances g h"
  shows "advances f h"
proof -
  obtain t ht u hu where g: "g = f\<lparr>tree := t, parents_of_tentative_nodes := ht\<rparr>"
    and h: "h = g\<lparr>tree := u, parents_of_tentative_nodes := hu\<rparr>"
    using assms unfolding advances_def by blast
  have "h = f\<lparr>tree := u, parents_of_tentative_nodes := hu\<rparr>" by (simp add: g h)
  moreover have "tree h ! n = tree f ! n \<or> st f n = v_unknown \<and> st h n = v_tentative" if "n < nodes f" for n
    using assms that unfolding advances_def by (metis ValidityState.distinct(1))
  ultimately show ?thesis
    using assms unfolding advances_def by (auto intro: subset_mset.order_trans)
qed

lemma validated_ok_cong:
  assumes "validated_ok env f" and "nodes f' = nodes f"
    and "\<And>n. n < nodes f \<Longrightarrow> known f n \<Longrightarrow> tree f' ! n = tree f ! n"
    and "\<And>n. n < nodes f \<Longrightarrow> st f' n = v_validated \<Longrightarrow> st f n = v_validated"
  shows "validated_ok env f'"
  unfolding validated_ok_def
proof (intro allI impI)
  fix p
  assume a: "2 * p + 2 < nodes f' \<and> (st f' (2 * p + 1) = v_validated \<or> st f' (2 * p + 2) = v_validated)"
  have lt: "p < nodes f" "2 * p + 1 < nodes f" "2 * p + 2 < nodes f" using a assms(2) by auto
  have "st f (2 * p + 1) = v_validated \<or> st f (2 * p + 2) = v_validated"
    using a assms(4) lt by blast
  then have *: "st f (2 * p + 1) = v_validated \<and> st f (2 * p + 2) = v_validated \<and> known f p
         \<and> hs f p = pair_hash env (hs f (2 * p + 1)) (hs f (2 * p + 2))"
    using assms(1) lt unfolding validated_ok_def by blast
  then have "known f (2 * p + 1)" "known f (2 * p + 2)" by (auto simp: known_def)
  then show "st f' (2 * p + 1) = v_validated \<and> st f' (2 * p + 2) = v_validated \<and> known f' p
         \<and> hs f' p = pair_hash env (hs f' (2 * p + 1)) (hs f' (2 * p + 2))"
    using * assms(3) [OF lt(1)] assms(3) [OF lt(2)] assms(3) [OF lt(3)] by (simp add: known_def)
qed

lemma validated_ok_advances: "validated_ok env f \<Longrightarrow> advances f f' \<Longrightarrow> validated_ok env f'"
  by (rule validated_ok_cong [where f = f]) (auto simp: advances_nodes advances_known advances_validated)

subsection \<open>Marking a node\<close>

lemma present_location [simp]: "present vmr_cmp_func p M \<longleftrightarrow> p \<in># M"
  by (auto simp: present_def)

lemma track_parent_ok:
  assumes "tree_sized f" and "\<not> is_origin f" and "tracked_ok f" and "2 * unat p + 2 < nodes f"
    and "unat (left_child p) = 2 * unat p + 1" and "unat (right_child p) = 2 * unat p + 2"
  obtains ht where "track_parent_of_tentative_nodes f p = Some (f\<lparr>parents_of_tentative_nodes := ht\<rparr>)"
    and "tracked_ok (f\<lparr>parents_of_tentative_nodes := ht\<rparr>)"
    and "ht_data (parents_of_tentative_nodes f) \<subseteq># ht_data ht"
    and "known f (2 * unat p + 1) \<Longrightarrow> known f (2 * unat p + 2) \<Longrightarrow> p \<in># ht_data ht"
proof (cases "known f (2 * unat p + 1) \<and> known f (2 * unat p + 2)")
  case True
  have ready: "ht_ready vmr_hash_func vmr_cmp_func (parents_of_tentative_nodes f)"
    using assms(3) by (simp add: tracked_ok_def)
  obtain ht where ht: "hash_table_union (parents_of_tentative_nodes f) p = Some ht"
      and r: "ht_ready vmr_hash_func vmr_cmp_func ht"
      and d: "ht_data ht = (if p \<in># ht_data (parents_of_tentative_nodes f) then ht_data (parents_of_tentative_nodes f)
              else add_mset p (ht_data (parents_of_tentative_nodes f)))"
    using table_step_Insert_Union [OF ready, of False p]
    by (auto simp: hash_table_union_def split: option.splits if_splits)
  show thesis
  proof (rule that [of ht])
    show "track_parent_of_tentative_nodes f p = Some (f\<lparr>parents_of_tentative_nodes := ht\<rparr>)"
      using True assms ht by (simp add: track_parent_of_tentative_nodes_def tree_at_in known_def)
    show "tracked_ok (f\<lparr>parents_of_tentative_nodes := ht\<rparr>)"
      using assms(3,4) r d True by (auto simp: tracked_ok_def known_def split: if_splits)
  qed (use d in \<open>auto split: if_splits\<close>)
next
  case False
  then have "track_parent_of_tentative_nodes f p = Some (f\<lparr>parents_of_tentative_nodes := parents_of_tentative_nodes f\<rparr>)"
    using assms by (auto simp: track_parent_of_tentative_nodes_def tree_at_in known_def)
  then show thesis using that [of "parents_of_tentative_nodes f"] assms(3) False by simp
qed

lemma hash_children_family:
  assumes "tree_sized f" and "2 * unat p + 2 < nodes f"
    and "unat (left_child p) = 2 * unat p + 1" and "unat (right_child p) = 2 * unat p + 2"
  shows "hash_children env f (left_child p) (right_child p) = Some (pair_hash env (hs f (2 * unat p + 1)) (hs f (2 * unat p + 2)))"
    and "hash_children env f (right_child p) (left_child p) = Some (pair_hash env (hs f (2 * unat p + 1)) (hs f (2 * unat p + 2)))"
proof -
  have lt: "left_child p < right_child p" using assms(3,4) by (simp add: word_less_nat_alt)
  have "unat (left_child p AND 1) = 1"
    by (simp only: unsigned_and_eq unsigned_1 assms(3)) (simp add: and_one_eq mod2_eq_if)
  then have "left_child p AND 1 = 1" by (metis unat_1 word_unat_eq_iff)
  moreover have "left_child p + 1 = right_child p" by (simp add: right_child_def)
  moreover have "tree_at f (left_child p) = Some (tree f ! (2 * unat p + 1))"
    "tree_at f (right_child p) = Some (tree f ! (2 * unat p + 2))"
    using assms by (simp_all add: tree_at_in)
  ultimately show "hash_children env f (left_child p) (right_child p) =
      Some (pair_hash env (hs f (2 * unat p + 1)) (hs f (2 * unat p + 2)))"
    and "hash_children env f (right_child p) (left_child p) =
      Some (pair_hash env (hs f (2 * unat p + 1)) (hs f (2 * unat p + 2)))"
    using lt less_not_sym [OF lt] by (simp_all add: hash_children_def pair_hash_def Let_def)
qed

text \<open>The state right after the node itself has been marked.\<close>

lemma marked_once:
  assumes "merkle_inv env (Some (unat loc)) f" and "unat loc < nodes f" and "\<not> known f (unat loc)"
    and "f1 = tree_set f loc ((tree f ! unat loc)\<lparr>vmr_state := v_tentative\<rparr>)"
  shows "advances f f1" and "tracked_ok f1" and "validated_ok env f1" and "tree_sized f1" and "\<not> is_origin f1"
    and "st f1 0 = v_validated" and "\<forall>n < nodes f. st f1 n \<noteq> v_margin" and "known f1 (unat loc)"
    and "\<And>n. n \<noteq> unat loc \<Longrightarrow> tree f1 ! n = tree f ! n"
    and "\<And>q. 2 * q + 2 < nodes f \<Longrightarrow> unat loc \<noteq> 2 * q + 1 \<Longrightarrow> unat loc \<noteq> 2 * q + 2 \<Longrightarrow>
           known f1 (2 * q + 1) \<Longrightarrow> known f1 (2 * q + 2) \<Longrightarrow> known f1 q"
proof -
  have unk: "st f (unat loc) = v_unknown" using assms(3) by (simp add: known_def)
  have pos: "unat loc \<noteq> 0" using assms(1) unk by (metis ValidityState.distinct(3) merkle_inv_def)
  show adv: "advances f f1"
    unfolding advances_def assms(4) tree_set_def using unk assms(2)
    by (auto simp: nth_list_update intro!: exI [of _ "parents_of_tentative_nodes f"] exI [of _ "(tree f)[unat loc := (tree f ! unat loc)\<lparr>vmr_state := v_tentative\<rparr>]"])
  show other: "tree f1 ! n = tree f ! n" if "n \<noteq> unat loc" for n using that by (simp add: assms(4))
  show here: "known f1 (unat loc)" using assms(2) by (simp add: assms(4) known_def)
  have mono: "known f1 n" if "known f n" for n
    using that here other by (cases "n = unat loc") (auto simp: known_def)
  show "tracked_ok f1" using assms(1) mono by (auto simp: merkle_inv_def tracked_ok_def assms(4))
  show "validated_ok env f1" using validated_ok_advances [OF _ adv, of env] assms(1) by (simp add: merkle_inv_def)
  show "tree_sized f1" "\<not> is_origin f1" using assms(1) by (simp_all add: assms(4) merkle_inv_def)
  show "st f1 0 = v_validated" using assms(1) other [of 0] pos by (simp add: merkle_inv_def)
  show "\<forall>n < nodes f. st f1 n \<noteq> v_margin"
    using assms(1,2) by (auto simp: merkle_inv_def assms(4) nth_list_update)
  show "known f1 q" if "2 * q + 2 < nodes f" "unat loc \<noteq> 2 * q + 1" "unat loc \<noteq> 2 * q + 2"
    "known f1 (2 * q + 1)" "known f1 (2 * q + 2)" for q
  proof (cases "q = unat loc")
    case False
    have "known f (2 * q + 1)" "known f (2 * q + 2)"
      using that(4,5) other [of "2 * q + 1"] other [of "2 * q + 2"] that(2,3) unfolding known_def by metis+
    then have "known f q"
      using assms(1) that(1) False unfolding merkle_inv_def closed_upwards_def by blast
    then show ?thesis by (rule mono)
  qed (use here in simp)
qed

text \<open>
  Besides keeping the invariant, marking records every pair of siblings it completes, and the hashes it
  infers on the way up are those of their children.
\<close>

definition completes :: "ZCachedFile \<Rightarrow> ZCachedFile \<Rightarrow> bool" where
  "completes f f' \<longleftrightarrow> (\<forall>q. 2 * q + 2 < nodes f \<and> known f' (2 * q + 1) \<and> known f' (2 * q + 2)
     \<and> \<not> (known f (2 * q + 1) \<and> known f (2 * q + 2)) \<longrightarrow> of_nat q \<in># ht_data (parents_of_tentative_nodes f'))"

definition infers :: "'d zenv \<Rightarrow> nat \<Rightarrow> ZCachedFile \<Rightarrow> ZCachedFile \<Rightarrow> bool" where
  "infers env loc f f' \<longleftrightarrow> (\<forall>n < nodes f. n \<noteq> loc \<and> \<not> known f n \<and> known f' n
     \<longrightarrow> 2 * n + 2 < nodes f \<and> known f' (2 * n + 1) \<and> known f' (2 * n + 2)
         \<and> hs f' n = pair_hash env (hs f' (2 * n + 1)) (hs f' (2 * n + 2)))"

lemma mark_node_tentative_unfold:
  assumes "tree_sized f" and "unat loc < nodes f" and "0 < loc" and "\<not> known f (unat loc)"
    and "f1 = tree_set f loc ((tree f ! unat loc)\<lparr>vmr_state := v_tentative\<rparr>)"
    and "parent_location loc = p" and "sibling_location loc = Some s"
    and "track_parent_of_tentative_nodes f1 p = Some f2" and "tree_sized f2" and "unat p < nodes f2" and "unat s < nodes f2"
  shows "mark_node_tentative env f loc =
    (if \<not> known f2 (unat p) \<and> known f2 (unat s)
     then hash_children env f2 loc s \<bind> (\<lambda>h.
            mark_node_tentative env (tree_set f2 p ((tree f2 ! unat p)\<lparr>vmr_hash := h\<rparr>)) p)
     else Some f2)"
proof -
  have "vmr_state (tree f ! unat loc) \<noteq> v_validated" using assms(4) by (simp add: known_def)
  then show ?thesis
    using assms by (subst mark_node_tentative.simps) (simp add: tree_at_in Let_def known_def)
qed

text \<open>Giving an unknown node a hash.\<close>

definition rehash :: "ZCachedFile \<Rightarrow> u32 \<Rightarrow> hash_t \<Rightarrow> ZCachedFile" where
  "rehash f loc h = tree_set f loc ((tree f ! unat loc)\<lparr>vmr_hash := h\<rparr>)"

lemma rehash_nth: "n \<noteq> unat loc \<Longrightarrow> tree (rehash f loc h) ! n = tree f ! n"
  by (simp add: rehash_def)

lemma rehash_frame [simp]:
  "nodes (rehash f loc h) = nodes f" "tree_sized (rehash f loc h) = tree_sized f"
  "parents_of_tentative_nodes (rehash f loc h) = parents_of_tentative_nodes f"
  "is_origin (rehash f loc h) = is_origin f"
  by (simp_all add: rehash_def)

lemma rehash_st [simp]: "unat loc < nodes f \<Longrightarrow> st (rehash f loc h) n = st f n"
  by (cases "n = unat loc") (simp_all add: rehash_def)

lemma rehash_known [simp]: "unat loc < nodes f \<Longrightarrow> known (rehash f loc h) n = known f n"
  by (simp add: known_def)

lemma rehash_inv:
  assumes "merkle_inv env w f" and "unat loc < nodes f" and "\<not> known f (unat loc)"
  shows "merkle_inv env w (rehash f loc h)"
proof -
  have f: "tree_sized f" "\<not> is_origin f" "st f 0 = v_validated" "\<forall>n < nodes f. st f n \<noteq> v_margin"
    "closed_upwards w f" "tracked_ok f" "validated_ok env f" using assms(1) unfolding merkle_inv_def by blast+
  have "validated_ok env (rehash f loc h)"
  proof (rule validated_ok_cong [OF f(7)])
    show "tree (rehash f loc h) ! n = tree f ! n" if "known f n" for n
      using that assms(3) by (intro rehash_nth) auto
  qed (simp_all add: assms(2))
  moreover have "closed_upwards w (rehash f loc h) = closed_upwards w f" "tracked_ok (rehash f loc h) = tracked_ok f"
    by (simp_all add: closed_upwards_def tracked_ok_def assms(2))
  ultimately show ?thesis using f assms(2) unfolding merkle_inv_def by simp
qed

lemma advances_rehash:
  assumes "advances (rehash f loc h) f'" and "unat loc < nodes f" and "\<not> known f (unat loc)"
    and "st f' (unat loc) = v_tentative"
  shows "advances f f'"
proof -
  obtain t u where "f' = (rehash f loc h)\<lparr>tree := t, parents_of_tentative_nodes := u\<rparr>"
    using assms(1) unfolding advances_def by blast
  then have "\<exists>t u. f' = f\<lparr>tree := t, parents_of_tentative_nodes := u\<rparr>"
    by (intro exI [of _ t] exI [of _ u]) (simp add: rehash_def tree_set_def)
  moreover have "tree f' ! n = tree f ! n \<or> st f n = v_unknown \<and> st f' n = v_tentative" if "n < nodes f" for n
    using assms that rehash_nth [of n loc f h] unfolding advances_def
    by (cases "n = unat loc") (auto simp: known_def)
  ultimately show ?thesis using assms(1) unfolding advances_def by simp
qed

text \<open>One level of the climb: the node is marked and its parent recorded.\<close>

lemma mark_step:
  assumes "merkle_inv env (Some (unat loc)) f" and "unat loc < nodes f" and "\<not> known f (unat loc)"
  obtains p s :: u32 and f2 where "unat p < unat loc" and "2 * unat p + 2 < nodes f"
    and "{unat loc, unat s} = {2 * unat p + 1, 2 * unat p + 2}"
    and "nodes f2 = nodes f" and "merkle_inv env (Some (unat p)) f2" and "advances f f2" and "completes f f2"
    and "tree f2 ! unat loc = (tree f ! unat loc)\<lparr>vmr_state := v_tentative\<rparr>"
    and "\<And>n. n \<noteq> unat loc \<Longrightarrow> known f2 n = known f n"
    and "mark_node_tentative env f loc =
       (if \<not> known f2 (unat p) \<and> known f2 (unat s)
        then mark_node_tentative env (rehash f2 p (pair_hash env (hs f2 (2 * unat p + 1)) (hs f2 (2 * unat p + 2)))) p
        else Some f2)"
proof -
  have sized: "tree_sized f" using assms(1) by (simp add: merkle_inv_def)
  have pos: "0 < loc"
    using assms unfolding merkle_inv_def known_def by (metis ValidityState.distinct(3) unat_0 word_neq_0_conv)
  obtain p s where fam: "parent_location loc = p" "sibling_location loc = Some s"
    "left_child p = (if odd (unat loc) then loc else s)" "right_child p = (if odd (unat loc) then s else loc)"
    and up: "unat (left_child p) = 2 * unat p + 1" "unat (right_child p) = 2 * unat p + 2"
    and edge: "2 * unat p + 2 < nodes f" "unat p < unat loc"
    by (rule node_family [OF sized assms(2) pos])
  define f1 where "f1 = tree_set f loc ((tree f ! unat loc)\<lparr>vmr_state := v_tentative\<rparr>)"
  note m = marked_once [OF assms f1_def]
  have nodes1: "nodes f1 = nodes f" by (simp add: f1_def)
  obtain ht where ht: "track_parent_of_tentative_nodes f1 p = Some (f1\<lparr>parents_of_tentative_nodes := ht\<rparr>)"
      "tracked_ok (f1\<lparr>parents_of_tentative_nodes := ht\<rparr>)"
      "ht_data (parents_of_tentative_nodes f1) \<subseteq># ht_data ht"
      "known f1 (2 * unat p + 1) \<Longrightarrow> known f1 (2 * unat p + 2) \<Longrightarrow> p \<in># ht_data ht"
    using track_parent_ok [OF m(4,5,2) _ up] edge(1) nodes1 by metis
  define f2 where "f2 = f1\<lparr>parents_of_tentative_nodes := ht\<rparr>"
  have t2: "tree f2 = tree f1" "nodes f2 = nodes f" "tree_sized f2" and k2: "known f2 = known f1"
    using m(4) nodes1 by (auto simp: f2_def tree_sized_def known_def)
  have kids: "{unat loc, unat s} = {2 * unat p + 1, 2 * unat p + 2}"
    using fam(3,4) up by (auto split: if_splits)
  have only: "q = unat p" if "unat loc = 2 * q + 1 \<or> unat loc = 2 * q + 2" for q
    using that kids by (auto simp: doubleton_eq_iff)
  have adv2: "advances f f2"
    unfolding f2_def by (rule advances_trans [OF m(1) advances_parents [OF ht(3)]])
  have kf: "known f2 n = known f n" if "n \<noteq> unat loc" for n
    using m(9) [OF that] by (simp add: k2 known_def)
  have "of_nat q \<in># ht_data ht"
    if "known f2 (2 * q + 1)" "known f2 (2 * q + 2)" "\<not> (known f (2 * q + 1) \<and> known f (2 * q + 2))" for q
  proof -
    have "unat loc = 2 * q + 1 \<or> unat loc = 2 * q + 2" using that kf by metis
    then have "q = unat p" by (rule only)
    then show ?thesis using ht(4) that k2 by simp
  qed
  then have "completes f f2" using t2(2) by (simp add: completes_def f2_def)
  moreover have "closed_upwards (Some (unat p)) f2"
    unfolding closed_upwards_def
  proof (intro allI impI)
    fix q assume q: "2 * q + 2 < nodes f2 \<and> Some (unat p) \<noteq> Some q \<and> known f2 (2 * q + 1) \<and> known f2 (2 * q + 2)"
    then have "\<not> (unat loc = 2 * q + 1 \<or> unat loc = 2 * q + 2)" using only by metis
    then show "known f2 q" using m(10) [of q] q t2(2) k2 by simp
  qed
  then have "merkle_inv env (Some (unat p)) f2"
    using m t2 ht(2) validated_ok_advances [OF _ adv2, of env] assms(1)
    by (simp add: merkle_inv_def f2_def [symmetric]) (simp add: f2_def)
  moreover have "mark_node_tentative env f loc =
    (if \<not> known f2 (unat p) \<and> known f2 (unat s)
     then mark_node_tentative env (rehash f2 p (pair_hash env (hs f2 (2 * unat p + 1)) (hs f2 (2 * unat p + 2)))) p
     else Some f2)"
  proof -
    have "hash_children env f2 loc s = Some (pair_hash env (hs f2 (2 * unat p + 1)) (hs f2 (2 * unat p + 2)))"
      using hash_children_family [OF t2(3) _ up, of env] edge(1) t2(2) fam(3,4)
      by (cases "odd (unat loc)") simp_all
    moreover have "unat p < nodes f2" "unat s < nodes f2" using edge kids t2(2) by (auto simp: doubleton_eq_iff)
    ultimately show ?thesis
      using mark_node_tentative_unfold [OF sized assms(2) pos assms(3) f1_def fam(1,2) ht(1) [folded f2_def] t2(3), of env]
      by (simp add: rehash_def)
  qed
  moreover have "tree f2 ! unat loc = (tree f ! unat loc)\<lparr>vmr_state := v_tentative\<rparr>"
    using assms(2) by (simp add: t2(1) f1_def)
  ultimately show thesis using that [OF edge(2,1) kids t2(2)] adv2 kf by blast
qed

lemma completes_refl [simp]: "completes f f"
  by (auto simp: completes_def)

lemma completes_trans:
  assumes "completes f g" and "completes g h" and "nodes g = nodes f"
    and "ht_data (parents_of_tentative_nodes g) \<subseteq># ht_data (parents_of_tentative_nodes h)"
  shows "completes f h"
  unfolding completes_def
proof (intro allI impI)
  fix q assume q: "2 * q + 2 < nodes f \<and> known h (2 * q + 1) \<and> known h (2 * q + 2)
    \<and> \<not> (known f (2 * q + 1) \<and> known f (2 * q + 2))"
  show "of_nat q \<in># ht_data (parents_of_tentative_nodes h)"
  proof (cases "known g (2 * q + 1) \<and> known g (2 * q + 2)")
    case True
    then have "of_nat q \<in># ht_data (parents_of_tentative_nodes g)" using assms(1) q unfolding completes_def by blast
    then show ?thesis using assms(4) by (rule mset_subset_eqD [rotated])
  next
    case False
    then show ?thesis using assms(2,3) q unfolding completes_def by simp
  qed
qed

lemma mark_ok:
  assumes "merkle_inv env (Some (unat loc)) f" and "unat loc < nodes f" and "\<not> known f (unat loc)"
  shows "\<exists>f'. mark_node_tentative env f loc = Some f' \<and> merkle_inv env None f' \<and> advances f f'
    \<and> tree f' ! unat loc = (tree f ! unat loc)\<lparr>vmr_state := v_tentative\<rparr>
    \<and> completes f f' \<and> infers env (unat loc) f f'"
  using assms
proof (induction "unat loc" arbitrary: loc f rule: less_induct)
  case less
  obtain p s :: u32 and f2 where p: "unat p < unat loc" "2 * unat p + 2 < nodes f"
      "{unat loc, unat s} = {2 * unat p + 1, 2 * unat p + 2}" "nodes f2 = nodes f"
    and f2: "merkle_inv env (Some (unat p)) f2" "advances f f2" "completes f f2"
      "tree f2 ! unat loc = (tree f ! unat loc)\<lparr>vmr_state := v_tentative\<rparr>"
    and kf: "\<And>n. n \<noteq> unat loc \<Longrightarrow> known f2 n = known f n"
    and mark: "mark_node_tentative env f loc =
       (if \<not> known f2 (unat p) \<and> known f2 (unat s)
        then mark_node_tentative env (rehash f2 p (pair_hash env (hs f2 (2 * unat p + 1)) (hs f2 (2 * unat p + 2)))) p
        else Some f2)"
    using mark_step [OF less.prems] by blast
  have loc_known: "known f2 (unat loc)" by (simp add: known_def f2(4))
  show ?case
  proof (cases "\<not> known f2 (unat p) \<and> known f2 (unat s)")
    case False
    then have "known f2 (unat p) \<or> \<not> (known f2 (2 * unat p + 1) \<and> known f2 (2 * unat p + 2))"
      using p(3) by (auto simp: doubleton_eq_iff)
    then have "closed_upwards None f2"
      using f2(1) unfolding merkle_inv_def closed_upwards_def by blast
    then have "merkle_inv env None f2" using f2(1) unfolding merkle_inv_def by blast
    moreover have "infers env (unat loc) f f2" using kf by (auto simp: infers_def)
    ultimately show ?thesis using mark False f2 by auto
  next
    case True
    let ?h = "pair_hash env (hs f2 (2 * unat p + 1)) (hs f2 (2 * unat p + 2))"
    let ?f3 = "rehash f2 p ?h"
    have p_in: "unat p < nodes f2" using p(2,4) by simp
    have "\<exists>f'. mark_node_tentative env ?f3 p = Some f' \<and> merkle_inv env None f' \<and> advances ?f3 f'
        \<and> tree f' ! unat p = (tree ?f3 ! unat p)\<lparr>vmr_state := v_tentative\<rparr>
        \<and> completes ?f3 f' \<and> infers env (unat p) ?f3 f'"
      by (rule less.hyps [OF p(1) rehash_inv [OF f2(1) p_in]]) (use True p_in in auto)
    then obtain f' where f': "mark_node_tentative env ?f3 p = Some f'" "merkle_inv env None f'" "advances ?f3 f'"
        "tree f' ! unat p = (tree ?f3 ! unat p)\<lparr>vmr_state := v_tentative\<rparr>" "completes ?f3 f'" "infers env (unat p) ?f3 f'"
      by blast
    have adv: "advances f2 f'" by (rule advances_rehash [OF f'(3) p_in]) (use True f'(4) in auto)
    have sub: "ht_data (parents_of_tentative_nodes f2) \<subseteq># ht_data (parents_of_tentative_nodes f')"
      using adv by (simp add: advances_def)
    have "completes f2 f'" using f'(5) p_in by (simp add: completes_def)
    then have comp: "completes f f'" by (rule completes_trans [OF f2(3) _ p(4) sub])
    have keep: "tree f' ! n = tree f2 ! n \<and> known f' n" if "n < nodes f" "known f2 n" for n
      using advances_known [OF adv] that p(4) by simp
    have "infers env (unat loc) f f'"
      unfolding infers_def
    proof (intro allI impI)
      fix n assume n: "n < nodes f" and c: "n \<noteq> unat loc \<and> \<not> known f n \<and> known f' n"
      show "2 * n + 2 < nodes f \<and> known f' (2 * n + 1) \<and> known f' (2 * n + 2)
         \<and> hs f' n = pair_hash env (hs f' (2 * n + 1)) (hs f' (2 * n + 2))"
      proof (cases "n = unat p")
        case eq: True
        have "known f2 (2 * unat p + 1)" "known f2 (2 * unat p + 2)"
          using loc_known True p(3) by (auto simp: doubleton_eq_iff)
        moreover have "hs f' n = ?h" using f'(4) p_in eq by (simp add: rehash_def)
        ultimately show ?thesis
          using keep [of "2 * n + 1"] keep [of "2 * n + 2"] p(2) unfolding eq by simp
      next
        case False
        then show ?thesis using f'(6) n c kf [of n] p(4) p_in unfolding infers_def by simp
      qed
    qed
    moreover have "tree f' ! unat loc = (tree f ! unat loc)\<lparr>vmr_state := v_tentative\<rparr>"
      using keep [OF less.prems(2) loc_known] f2(4) by simp
    moreover have "mark_node_tentative env f loc = Some f'" using mark True f'(1) by simp
    ultimately show ?thesis using f'(2) comp advances_trans [OF f2(2) adv] by blast
  qed
qed

subsection \<open>The records of a reply\<close>

definition record_fits :: "ZCachedFile \<Rightarrow> ZFTPMerkleRecord \<Rightarrow> bool" where
  "record_fits f zmr \<longleftrightarrow> (let n = unat (z_ntohl (tree_location zmr)) in
     n < nodes f \<and> (st f n = v_validated \<longrightarrow> hs f n = zmr_hash zmr))"

lemma record_fits_advances: "advances f f' \<Longrightarrow> record_fits f' zmr = record_fits f zmr"
proof -
  assume a: "advances f f'"
  let ?n = "unat (z_ntohl (tree_location zmr))"
  have "hs f' ?n = hs f ?n" if "?n < nodes f" "st f ?n = v_validated"
    using advances_known [OF a that(1)] that(2) by (simp add: known_def)
  then show ?thesis
    using advances_nodes [OF a] advances_validated [OF a, of ?n] by (auto simp: record_fits_def Let_def)
qed

text \<open>
  The records are taken in exactly when each lies in the tree and agrees with what is validated
  there; every location they name is then known.
\<close>

lemma install_merkle_records_loop_ok:
  assumes "merkle_inv env None f"
  shows "if list_all (record_fits f) zmrs
    then \<exists>c' f'. install_merkle_records_loop env zmrs c f = Some (c', f') \<and> merkle_inv env None f' \<and> advances f f'
      \<and> completes f f' \<and> (c \<longrightarrow> c') \<and> (\<not> c' \<longrightarrow> f' = f)
      \<and> (\<forall>zmr \<in> set zmrs. known f' (unat (z_ntohl (tree_location zmr))))
    else install_merkle_records_loop env zmrs c f = None"
  using assms
proof (induction zmrs arbitrary: f c)
  case Nil
  then show ?case by simp
next
  case (Cons zmr zmrs)
  let ?loc = "z_ntohl (tree_location zmr)"
  have sized: "tree_sized f" and nomargin: "\<forall>n < nodes f. st f n \<noteq> v_margin"
    using Cons.prems by (auto simp: merkle_inv_def)
  show ?case
  proof (cases "record_fits f zmr")
    case False
    then show ?thesis
      using sized nomargin
      by (auto simp: record_fits_def Let_def tree_at_iff split: ValidityState.splits if_splits)
  next
    case fits: True
    then have n: "unat ?loc < nodes f" by (simp add: record_fits_def Let_def)
    have at: "tree_at f ?loc = Some (tree f ! unat ?loc)" by (rule tree_at_in [OF sized n])
    show ?thesis
    proof (cases "known f (unat ?loc)")
      case True
      have step: "install_merkle_records_loop env (zmr # zmrs) c f = install_merkle_records_loop env zmrs c f"
        using at True fits nomargin n
        by (cases "st f (unat ?loc)") (auto simp: record_fits_def Let_def known_def)
      have "known f' (unat ?loc)" if "advances f f'" for f' using advances_known [OF that n True] by blast
      then show ?thesis unfolding step using Cons.IH [OF Cons.prems, of c] fits
        by (cases "list_all (record_fits f) zmrs") (simp, blast, simp)
    next
      case False
      let ?f0 = "rehash f ?loc (zmr_hash zmr)"
      have "merkle_inv env (Some (unat ?loc)) f"
        using Cons.prems unfolding merkle_inv_def closed_upwards_def by blast
      then have inv0: "merkle_inv env (Some (unat ?loc)) ?f0" by (rule rehash_inv [OF _ n False])
      obtain f1 where f1: "mark_node_tentative env ?f0 ?loc = Some f1" "merkle_inv env None f1" "advances ?f0 f1"
          "tree f1 ! unat ?loc = (tree ?f0 ! unat ?loc)\<lparr>vmr_state := v_tentative\<rparr>" "completes ?f0 f1"
        using mark_ok [OF inv0] n False by auto
      have adv: "advances f f1" by (rule advances_rehash [OF f1(3) n False]) (simp add: f1(4))
      have comp: "completes f f1" using f1(5) n by (simp add: completes_def)
      have step: "install_merkle_records_loop env (zmr # zmrs) c f = install_merkle_records_loop env zmrs True f1"
        using at False f1(1) by (simp add: Let_def known_def rehash_def)
      have k1: "known f1 (unat ?loc)" by (simp add: known_def f1(4))
      have all: "list_all (record_fits f1) zmrs = list_all (record_fits f) zmrs"
        by (simp add: record_fits_advances [OF adv] list_all_iff)
      show ?thesis
      proof (cases "list_all (record_fits f) zmrs")
        case True
        then obtain c' f' where r: "install_merkle_records_loop env zmrs True f1 = Some (c', f')" "merkle_inv env None f'"
            "advances f1 f'" "completes f1 f'" "c'" "\<forall>zmr \<in> set zmrs. known f' (unat (z_ntohl (tree_location zmr)))"
          using Cons.IH [OF f1(2), of True] all by auto
        have "known f' (unat ?loc)" using advances_known [OF r(3) _ k1] n advances_nodes [OF adv] by simp
        moreover have "completes f f'"
          by (rule completes_trans [OF comp r(4)]) (use adv r(3) in \<open>simp_all add: advances_def\<close>)
        moreover have "list_all (record_fits f) (zmr # zmrs)" using True fits by simp
        ultimately show ?thesis
          unfolding step using r advances_trans [OF adv r(3)] by auto
      next
        case False
        then show ?thesis using Cons.IH [OF f1(2), of True] all step by simp
      qed
    qed
  qed
qed

subsection \<open>Validation\<close>

definition validate_pair :: "ZCachedFile \<Rightarrow> nat \<Rightarrow> ZCachedFile" where
  "validate_pair f p = f\<lparr>tree := (tree f)
     [2 * p + 1 := (tree f ! (2 * p + 1))\<lparr>vmr_state := v_validated\<rparr>,
      2 * p + 2 := (tree f ! (2 * p + 2))\<lparr>vmr_state := v_validated\<rparr>]\<rparr>"

definition pair_matches :: "'d zenv \<Rightarrow> ZCachedFile \<Rightarrow> nat \<Rightarrow> bool" where
  "pair_matches env f p \<longleftrightarrow> hs f p = pair_hash env (hs f (2 * p + 1)) (hs f (2 * p + 2))"

definition pair_known :: "ZCachedFile \<Rightarrow> nat \<Rightarrow> bool" where
  "pair_known f p \<longleftrightarrow> 2 * p + 2 < nodes f \<and> known f (2 * p + 1) \<and> known f (2 * p + 2)"

definition settles :: "ZCachedFile \<Rightarrow> ZCachedFile \<Rightarrow> bool" where
  "settles f f' \<longleftrightarrow> (\<exists>t. f' = f\<lparr>tree := t\<rparr>) \<and> nodes f' = nodes f
     \<and> (\<forall>n < nodes f. hs f' n = hs f n \<and> (st f' n = st f n \<or> known f n \<and> st f' n = v_validated))"

lemma settles_refl [simp]: "settles f f"
proof -
  have "f = f\<lparr>tree := tree f\<rparr>" by simp
  then show ?thesis unfolding settles_def by blast
qed

lemma settles_known: "settles f f' \<Longrightarrow> n < nodes f \<Longrightarrow> known f' n = known f n"
  unfolding settles_def known_def by (metis ValidityState.distinct(3))

lemma settles_trans [trans]:
  assumes "settles f g" and "settles g h"
  shows "settles f h"
proof -
  obtain t u where "g = f\<lparr>tree := t\<rparr>" and "h = g\<lparr>tree := u\<rparr>" using assms unfolding settles_def by blast
  then have "h = f\<lparr>tree := u\<rparr>" by simp
  moreover have "hs h n = hs f n \<and> (st h n = st f n \<or> known f n \<and> st h n = v_validated)" if "n < nodes f" for n
    using assms that settles_known [OF assms(1) that] unfolding settles_def by metis
  ultimately show ?thesis using assms unfolding settles_def by simp blast
qed

lemma settles_pair_known: "settles f f' \<Longrightarrow> pair_known f' p = pair_known f p"
  using settles_known [of f f' "2 * p + 1"] settles_known [of f f' "2 * p + 2"]
  by (auto simp: pair_known_def settles_def)

lemma settles_pair_matches: "settles f f' \<Longrightarrow> 2 * p + 2 < nodes f \<Longrightarrow> pair_matches env f' p = pair_matches env f p"
  by (simp add: pair_matches_def settles_def)

lemma settles_validated: "settles f f' \<Longrightarrow> n < nodes f \<Longrightarrow> st f n = v_validated \<Longrightarrow> st f' n = v_validated"
  by (auto simp: settles_def)

lemma validate_pair_nth:
  "2 * p + 2 < nodes f \<Longrightarrow> tree (validate_pair f p) ! n =
     (if n = 2 * p + 1 \<or> n = 2 * p + 2 then (tree f ! n)\<lparr>vmr_state := v_validated\<rparr> else tree f ! n)"
  by (auto simp: validate_pair_def nth_list_update)

lemma validate_pair_frame [simp]:
  "nodes (validate_pair f p) = nodes f" "tree_sized (validate_pair f p) = tree_sized f"
  "is_origin (validate_pair f p) = is_origin f"
  "parents_of_tentative_nodes (validate_pair f p) = parents_of_tentative_nodes f"
  by (simp_all add: validate_pair_def tree_sized_def)

lemma validate_pair_settles: "pair_known f p \<Longrightarrow> settles f (validate_pair f p)"
  unfolding settles_def
  by (intro conjI allI impI exI [of _ "tree (validate_pair f p)"])
    (auto simp: validate_pair_nth pair_known_def, simp add: validate_pair_def)

lemma tree_unindex_level:
  assumes "tree_sized f" and "unat loc < nodes f"
  shows "fst (tree_unindex loc) \<le> tree_depth f"
proof -
  have n: "nodes f = 2 ^ (tree_depth f + 1) - 1" "nodes f < 2 ^ 17" using tree_sized_nodes [OF assms(1)] by simp_all
  have u: "unat (loc + 1) = unat loc + 1" by (rule unat_add_one_no_wrap) (use assms(2) n(2) in simp)
  then have "2 ^ (lite_log2 (loc + 1) - 1) \<le> unat loc + 1" using lite_log2_bounds(1) [of "loc + 1"] by simp
  also have "\<dots> < 2 ^ (tree_depth f + 1)" using assms(2) n(1) by linarith
  finally have "lite_log2 (loc + 1) - 1 < tree_depth f + 1" by (rule power_less_imp_less_exp [rotated]) simp
  then show ?thesis by (simp add: tree_unindex_def Let_def)
qed

lemma mark_hash_validated_eq:
  assumes "tree_sized f" and "unat loc < nodes f"
  shows "mark_hash_validated f loc = Some (tree_set f loc ((tree f ! unat loc)\<lparr>vmr_state := v_validated\<rparr>))"
  using tree_unindex_level [OF assms] by (simp add: mark_hash_validated_def tree_at_in [OF assms])

lemma validate_children_eq:
  assumes "tree_sized f" and "pair_known f (unat p)"
  shows "validate_children env f p =
    Some (if pair_matches env f (unat p) then (NEW_DATA, validate_pair f (unat p)) else (FAIL, f))"
proof -
  have lt: "2 * unat p + 2 < nodes f" using assms(2) by (simp add: pair_known_def)
  have "unat p < 2 ^ 31 - 1" using lt tree_sized_nodes(2) [OF assms(1)] by simp
  then have u: "unat (left_child p) = 2 * unat p + 1" "unat (right_child p) = 2 * unat p + 2"
    by (rule unat_left_child, rule unat_right_child)
  have r: "left_child p + 1 = right_child p" by (simp add: right_child_def)
  have sz: "right_child p < tree_size f" using lt u assms(1) by (simp add: word_less_nat_alt tree_sized_def)
  let ?f1 = "tree_set f (left_child p) ((tree f ! unat (left_child p))\<lparr>vmr_state := v_validated\<rparr>)"
  have m1: "mark_hash_validated f (left_child p) = Some ?f1"
    by (rule mark_hash_validated_eq [OF assms(1)]) (use u lt in simp)
  have m2: "mark_hash_validated ?f1 (right_child p) =
      Some (tree_set ?f1 (right_child p) ((tree ?f1 ! unat (right_child p))\<lparr>vmr_state := v_validated\<rparr>))"
    by (rule mark_hash_validated_eq) (use assms(1) u lt in simp_all)
  have "tree_set ?f1 (right_child p) ((tree ?f1 ! unat (right_child p))\<lparr>vmr_state := v_validated\<rparr>)
      = validate_pair f (unat p)"
    by (simp add: validate_pair_def tree_set_def u)
  then show ?thesis
    using sz assms m1 m2 lt hash_children_family(1) [OF assms(1) lt u, of env]
    by (simp add: validate_children_def r Let_def tree_at_in u pair_known_def known_def pair_matches_def)
qed

lemma closed_upwards_cong:
  assumes "nodes f' = nodes f" and "\<And>n. n < nodes f \<Longrightarrow> known f' n = known f n"
  shows "closed_upwards w f' = closed_upwards w f"
proof -
  have "known f' (2 * p + 1) = known f (2 * p + 1) \<and> known f' (2 * p + 2) = known f (2 * p + 2) \<and> known f' p = known f p"
    if "2 * p + 2 < nodes f" for p
    using assms(2) that by simp
  then show ?thesis unfolding closed_upwards_def assms(1) by blast
qed

lemma closed_upwards_pair: "closed_upwards None f \<Longrightarrow> pair_known f p \<Longrightarrow> known f p"
  unfolding closed_upwards_def pair_known_def by blast

lemma validate_pair_inv:
  assumes "merkle_inv env None f" and "pair_known f p" and "pair_matches env f p"
  shows "merkle_inv env None (validate_pair f p)"
proof -
  let ?f = "validate_pair f p"
  have f: "tree_sized f" "\<not> is_origin f" "st f 0 = v_validated" "\<forall>n < nodes f. st f n \<noteq> v_margin"
    "closed_upwards None f" "tracked_ok f" "validated_ok env f" using assms(1) unfolding merkle_inv_def by blast+
  have lt: "2 * p + 2 < nodes f" using assms(2) by (simp add: pair_known_def)
  have k: "known ?f n = known f n" if "n < nodes f" for n
    by (rule settles_known [OF validate_pair_settles [OF assms(2)] that])
  have kp: "known f p" by (rule closed_upwards_pair [OF f(5) assms(2)])
  have "validated_ok env ?f"
    unfolding validated_ok_def
  proof (intro allI impI)
    fix q assume q: "2 * q + 2 < nodes ?f \<and> (st ?f (2 * q + 1) = v_validated \<or> st ?f (2 * q + 2) = v_validated)"
    have same: "hs ?f n = hs f n" for n by (simp add: validate_pair_nth [OF lt])
    show "st ?f (2 * q + 1) = v_validated \<and> st ?f (2 * q + 2) = v_validated \<and> known ?f q
      \<and> hs ?f q = pair_hash env (hs ?f (2 * q + 1)) (hs ?f (2 * q + 2))"
    proof (cases "q = p")
      case True
      then show ?thesis
        using assms(3) kp k lt by (simp add: same pair_matches_def) (simp add: validate_pair_nth [OF lt])
    next
      case False
      then have *: "2 * q + 1 \<noteq> 2 * p + 1 \<and> 2 * q + 1 \<noteq> 2 * p + 2 \<and> 2 * q + 2 \<noteq> 2 * p + 1 \<and> 2 * q + 2 \<noteq> 2 * p + 2"
        by presburger
      have st: "st ?f (2 * q + 1) = st f (2 * q + 1)" "st ?f (2 * q + 2) = st f (2 * q + 2)"
        using * by (simp_all add: validate_pair_nth [OF lt])
      have "2 * q + 2 < nodes f" "q < nodes f" using q by auto
      then show ?thesis
        using f(7) q k [of q] unfolding validated_ok_def st same by blast
    qed
  qed
  moreover have "closed_upwards None ?f" using f(5) closed_upwards_cong [of ?f f None] k by simp
  moreover have "tracked_ok ?f" using f(6) k by (auto simp: tracked_ok_def)
  moreover have "\<forall>n < nodes ?f. st ?f n \<noteq> v_margin" using f(4) by (simp add: validate_pair_nth [OF lt])
  moreover have "st ?f 0 = v_validated" using f(3) by (simp add: validate_pair_nth [OF lt])
  ultimately show ?thesis using f(1,2) unfolding merkle_inv_def by simp
qed

lemma validate_parents_ok:
  assumes "merkle_inv env None f" and "\<forall>p \<in> set ps. pair_known f (unat p)"
  shows "\<exists>r f'. validate_parents env ps r0 f = Some (r, f') \<and> merkle_inv env None f' \<and> settles f f'
    \<and> (ps = [] \<longrightarrow> r = r0 \<and> f' = f)
    \<and> (\<forall>p \<in> set ps. pair_matches env f (unat p) \<longrightarrow>
         st f' (2 * unat p + 1) = v_validated \<and> st f' (2 * unat p + 2) = v_validated)
    \<and> (\<forall>n < nodes f. st f' n \<noteq> st f n \<longrightarrow> (\<exists>p \<in> set ps. (n = 2 * unat p + 1 \<or> n = 2 * unat p + 2)))"
  using assms
proof (induction ps arbitrary: f r0)
  case Nil
  then show ?case by simp
next
  case (Cons p ps)
  have sized: "tree_sized f" using Cons.prems(1) by (simp add: merkle_inv_def)
  have pk: "pair_known f (unat p)" using Cons.prems(2) by simp
  have lt: "2 * unat p + 2 < nodes f" using pk by (simp add: pair_known_def)
  define f1 where "f1 = (if pair_matches env f (unat p) then validate_pair f (unat p) else f)"
  define r1 where "r1 = (if pair_matches env f (unat p) then NEW_DATA else FAIL)"
  have step: "validate_parents env (p # ps) r0 f = validate_parents env ps r1 f1"
    by (simp add: validate_children_eq [OF sized pk] f1_def r1_def)
  have inv: "merkle_inv env None f1" using validate_pair_inv [OF Cons.prems(1) pk] Cons.prems(1) by (simp add: f1_def)
  have s: "settles f f1" using validate_pair_settles [OF pk] by (simp add: f1_def)
  have n1: "nodes f1 = nodes f" using s by (simp add: settles_def)
  have "\<forall>q \<in> set ps. pair_known f1 (unat q)" using Cons.prems(2) settles_pair_known [OF s] by simp
  from Cons.IH [OF inv this, of r1] obtain r f' where r: "validate_parents env ps r1 f1 = Some (r, f')"
      "merkle_inv env None f'" "settles f1 f'"
    and all_done: "\<forall>p \<in> set ps. pair_matches env f1 (unat p) \<longrightarrow>
         st f' (2 * unat p + 1) = v_validated \<and> st f' (2 * unat p + 2) = v_validated"
    and frame: "\<forall>n < nodes f1. st f' n \<noteq> st f1 n \<longrightarrow> (\<exists>p \<in> set ps. (n = 2 * unat p + 1 \<or> n = 2 * unat p + 2))"
    by blast
  have "st f' (2 * unat p + 1) = v_validated \<and> st f' (2 * unat p + 2) = v_validated" if "pair_matches env f (unat p)"
    using that settles_validated [OF r(3)] n1 lt by (simp add: f1_def validate_pair_nth [OF lt])
  moreover have "st f' (2 * unat q + 1) = v_validated \<and> st f' (2 * unat q + 2) = v_validated"
    if q: "q \<in> set ps" "pair_matches env f (unat q)" for q
  proof -
    have "2 * unat q + 2 < nodes f" using Cons.prems(2) q(1) by (simp add: pair_known_def)
    then show ?thesis using all_done q settles_pair_matches [OF s] by blast
  qed
  moreover have "\<exists>q \<in> set (p # ps). (n = 2 * unat q + 1 \<or> n = 2 * unat q + 2)"
    if n: "n < nodes f" "st f' n \<noteq> st f n" for n
  proof (cases "st f' n = st f1 n")
    case True
    then show ?thesis using n(2) by (auto simp: f1_def validate_pair_nth [OF lt] split: if_splits)
  next
    case False
    then show ?thesis using frame n(1) n1 by auto
  qed
  ultimately show ?case unfolding step using r(1,2) settles_trans [OF s r(3)] by auto
qed

lemma validate_tentative_ok:
  assumes "merkle_inv env None f"
  obtains r f' where "validate_tentative_hashes env f = Some (r, f')" and "merkle_inv env None f'"
    and "ht_data (parents_of_tentative_nodes f') = {#}" and "\<exists>t ht. f' = f\<lparr>tree := t, parents_of_tentative_nodes := ht\<rparr>"
    and "nodes f' = nodes f" and "\<And>n. n < nodes f \<Longrightarrow> hs f' n = hs f n"
    and "\<And>n. n < nodes f \<Longrightarrow> known f' n = known f n"
    and "\<And>n. n < nodes f \<Longrightarrow> st f n = v_validated \<Longrightarrow> st f' n = v_validated"
    and "ht_data (parents_of_tentative_nodes f) = {#} \<Longrightarrow> r = NO_EFFECT \<and> tree f' = tree f"
    and "\<And>p. p \<in># ht_data (parents_of_tentative_nodes f) \<Longrightarrow> pair_matches env f (unat p) \<Longrightarrow>
           st f' (2 * unat p + 1) = v_validated \<and> st f' (2 * unat p + 2) = v_validated"
    and "\<And>n. n < nodes f \<Longrightarrow> st f' n \<noteq> st f n \<Longrightarrow>
           \<exists>p \<in># ht_data (parents_of_tentative_nodes f). (n = 2 * unat p + 1 \<or> n = 2 * unat p + 2)"
proof -
  have tr: "tracked_ok f" using assms by (simp add: merkle_inv_def)
  then have ready: "ht_ready vmr_hash_func vmr_cmp_func (parents_of_tentative_nodes f)" by (simp add: tracked_ok_def)
  obtain ht ps where rm: "hash_table_remove_every (parents_of_tentative_nodes f) (\<lambda>ps p. ps @ [p]) [] = Some (ht, ps)"
      "mset ps = ht_data (parents_of_tentative_nodes f)" "ht_ready vmr_hash_func vmr_cmp_func ht" "ht_data ht = {#}"
      "ht_count ht = 0" "ht_count (parents_of_tentative_nodes f) = int (length ps)"
    by (rule hash_table_drain [OF ready])
  let ?f = "f\<lparr>parents_of_tentative_nodes := ht\<rparr>"
  have set: "set ps = set_mset (ht_data (parents_of_tentative_nodes f))" using rm(2) by (metis set_mset_mset)
  have same: "known ?f = known f" "pair_known ?f = pair_known f" "pair_matches env ?f = pair_matches env f"
    by (auto simp: known_def pair_known_def pair_matches_def)
  have "merkle_inv env None ?f"
  proof -
    have "closed_upwards None ?f = closed_upwards None f" by (rule closed_upwards_cong) (simp_all add: same)
    moreover have "validated_ok env ?f = validated_ok env f" "tree_sized ?f = tree_sized f"
      by (simp_all add: validated_ok_def same tree_sized_def)
    moreover have "tracked_ok ?f" using rm(3,4) by (simp add: tracked_ok_def)
    ultimately show ?thesis using assms unfolding merkle_inv_def by simp
  qed
  moreover have "\<forall>p \<in> set ps. pair_known ?f (unat p)"
    using tr unfolding same set by (simp add: tracked_ok_def pair_known_def)
  ultimately obtain r f' where r: "validate_parents env ps NO_EFFECT ?f = Some (r, f')" "merkle_inv env None f'"
      "settles ?f f'" "ps = [] \<longrightarrow> r = NO_EFFECT \<and> f' = ?f"
    and all_done: "\<forall>p \<in> set ps. pair_matches env ?f (unat p) \<longrightarrow>
         st f' (2 * unat p + 1) = v_validated \<and> st f' (2 * unat p + 2) = v_validated"
    and frame: "\<forall>n < nodes ?f. st f' n \<noteq> st ?f n \<longrightarrow> (\<exists>p \<in> set ps. (n = 2 * unat p + 1 \<or> n = 2 * unat p + 2))"
    using validate_parents_ok by blast
  show thesis
  proof (rule that)
    show "validate_tentative_hashes env f = Some (r, f')"
      using rm(1,5,6) r(1) by (simp add: validate_tentative_hashes_def Let_def)
    obtain t where t: "f' = ?f\<lparr>tree := t\<rparr>" using r(3) by (auto simp: settles_def)
    then show "ht_data (parents_of_tentative_nodes f') = {#}" using rm(4) by simp
    have "f' = f\<lparr>tree := t, parents_of_tentative_nodes := ht\<rparr>" using t by simp
    then show "\<exists>t ht. f' = f\<lparr>tree := t, parents_of_tentative_nodes := ht\<rparr>" by blast
    show "nodes f' = nodes f" "\<And>n. n < nodes f \<Longrightarrow> hs f' n = hs f n" using r(3) by (simp_all add: settles_def)
    show "known f' n = known f n" if "n < nodes f" for n using settles_known [OF r(3)] that same by simp
    show "st f' n = v_validated" if "n < nodes f" "st f n = v_validated" for n
      using settles_validated [OF r(3)] that by simp
    show "r = NO_EFFECT \<and> tree f' = tree f" if "ht_data (parents_of_tentative_nodes f) = {#}"
      using that set r(4) by simp
  qed (use r(2) all_done frame set same in auto)
qed

end
