(* ===== verification/Merkle_Trust.thy ===== *)
theory Merkle_Trust
  imports Merkle_Validation
begin

text \<open>
  Replies taken in by a cached file, one after the other: the invariant between replies, when a reply is
  refused, what the validated hashes say about the file, and that honest replies get validated.
\<close>

section \<open>The file between replies\<close>

definition file_ok :: "'d zenv \<Rightarrow> ZCachedFile \<Rightarrow> bool" where
  "file_ok env f \<longleftrightarrow> \<not> is_origin f
     \<and> ht_ready vmr_hash_func vmr_cmp_func (parents_of_tentative_nodes f)
     \<and> ht_data (parents_of_tentative_nodes f) = {#}
     \<and> (metadata_state f = v_unknown \<or> metadata_state f = v_validated
          \<and> merkle_inv env None f \<and> file_hash f = compute_file_hash env (metadata f) (hs f 0)
          \<and> num_blocks f = compute_num_blocks (get_filelen f) \<and> tree_depth f = compute_tree_depth (num_blocks f))"

lemma file_ok_new: "file_ok env (ZCachedFile_new h)"
  using ht_ready_init [OF vmr_key.hash_key_axioms]
  by (simp add: file_ok_def ZCachedFile_new_def zcf_ctor_init_def hash_table_init_def ht_data_def)

lemma cmp_hash_zero_iff: "cmp_hash a b = 0 \<longleftrightarrow> a = b"
  by simp

lemma configured_tree:
  fixes f :: ZCachedFile and root :: hash_t
  defines "g \<equiv> tree_set (configure_from_metadata f) 0 \<lparr>vmr_hash = root, vmr_state = v_validated\<rparr>"
  assumes "\<not> is_origin f" and "ht_ready vmr_hash_func vmr_cmp_func (parents_of_tentative_nodes f)"
    and "ht_data (parents_of_tentative_nodes f) = {#}"
  shows "merkle_inv env None g" and "hs g 0 = root" and "\<And>n. 0 < n \<Longrightarrow> n < nodes g \<Longrightarrow> \<not> known g n"
    and "metadata_state g = v_validated" and "file_hash g = file_hash f" and "metadata g = metadata f"
    and "num_blocks g = compute_num_blocks (get_filelen g)" and "tree_depth g = compute_tree_depth (num_blocks g)"
    and "parents_of_tentative_nodes g = parents_of_tentative_nodes f" and "is_origin g = is_origin f"
proof -
  let ?nb = "compute_num_blocks (z_ntohl (file_len_network_order (metadata f)))"
  let ?d = "compute_tree_depth ?nb"
  have conf: "configure_from_metadata f = f\<lparr>metadata_state := v_validated,
      file_len := z_ntohl (file_len_network_order (metadata f)), num_blocks := ?nb,
      tree_depth := ?d, tree_size := compute_tree_size ?d,
      tree := replicate (unat (compute_tree_size ?d)) \<lparr>vmr_hash = 0, vmr_state = v_unknown\<rparr>\<rparr>"
    by (simp add: configure_from_metadata_def Let_def)
  have d: "?d \<le> 16" using compute_tree_depth_bound compute_num_blocks_bound by (meson le_trans)
  have sized: "tree_sized g" using d by (simp add: g_def conf tree_sized_def tree_set_def)
  have pos: "0 < unat (compute_tree_size ?d)"
    using tree_sized_nodes(3) [OF sized] by (simp add: g_def conf)
  show root: "hs g 0 = root" using pos by (simp add: g_def conf)
  have st0: "st g 0 = v_validated" using pos by (simp add: g_def conf)
  show unk: "\<not> known g n" if "0 < n" "n < nodes g" for n
    using that by (simp add: g_def conf known_def)
  have "closed_upwards None g" unfolding closed_upwards_def using unk by auto
  moreover have "validated_ok env g" unfolding validated_ok_def
    using unk by (auto simp: known_def)
  moreover have "st g n \<noteq> v_margin" if "n < nodes g" for n
    using st0 unk [of n] that by (cases "n = 0") (auto simp: known_def)
  moreover have "tracked_ok g" using assms(3,4) by (simp add: tracked_ok_def g_def conf)
  ultimately show "merkle_inv env None g"
    using sized st0 assms(2) unfolding merkle_inv_def by (simp add: g_def conf)
qed (simp_all add: g_def configure_from_metadata_def Let_def tree_set_def get_filelen_def)

lemma install_metadata_ok:
  assumes "file_ok env f" and "install_metadata env f reply = (ir, f')"
  shows "file_ok env f'" and "file_hash f' = file_hash f" and "ir = FAIL \<Longrightarrow> f' = f"
    and "ir = NO_EFFECT \<Longrightarrow> f' = f" and "ir \<noteq> FAIL \<Longrightarrow> metadata_state f' = v_validated"
    and "ir = FAIL \<Longrightarrow> metadata_state f = v_unknown"
proof -
  have base: "\<not> is_origin f" "ht_ready vmr_hash_func vmr_cmp_func (parents_of_tentative_nodes f)"
    "ht_data (parents_of_tentative_nodes f) = {#}" using assms(1) by (auto simp: file_ok_def)
  show "ir = FAIL \<Longrightarrow> f' = f" "ir = NO_EFFECT \<Longrightarrow> f' = f"
    using assms(2) by (auto simp: install_metadata_def Let_def split: if_splits option.splits)
  show "ir = FAIL \<Longrightarrow> metadata_state f = v_unknown"
    using assms by (auto simp: install_metadata_def Let_def file_ok_def)
  show "ir \<noteq> FAIL \<Longrightarrow> metadata_state f' = v_validated"
    using assms(2) configured_tree(4) [of "f\<lparr>metadata := rp_metadata reply\<rparr>"] base
    by (auto simp: install_metadata_def Let_def split: if_splits option.splits)
  show "file_hash f' = file_hash f"
    using assms(2) configured_tree(5) [of "f\<lparr>metadata := rp_metadata reply\<rparr>"] base
    by (auto simp: install_metadata_def Let_def split: if_splits option.splits)
  show "file_ok env f'"
  proof (cases "metadata_state f = v_validated \<or> ir = FAIL")
    case True
    then have "f' = f" using assms(2) by (auto simp: install_metadata_def Let_def split: if_splits option.splits)
    then show ?thesis using assms(1) by simp
  next
    case False
    then obtain root where z: "compute_file_hash env (rp_metadata reply) root = file_hash f"
      "f' = tree_set (configure_from_metadata (f\<lparr>metadata := rp_metadata reply\<rparr>)) 0
              \<lparr>vmr_hash = root, vmr_state = v_validated\<rparr>"
      using assms(2) by (auto simp: install_metadata_def Let_def split: if_splits option.splits)
    note conf = configured_tree(1) [where f = "f\<lparr>metadata := rp_metadata reply\<rparr>" and env = env and root = root]
      configured_tree(2) [where f = "f\<lparr>metadata := rp_metadata reply\<rparr>" and root = root]
      configured_tree(4-) [where f = "f\<lparr>metadata := rp_metadata reply\<rparr>" and root = root]
    show ?thesis
      using conf base z
      unfolding file_ok_def by simp
  qed
qed

section \<open>Taking in a reply\<close>

text \<open>A reply whose metadata is settled, on a file that has its metadata.\<close>

definition take_in_rest ::
    "'d zenv \<Rightarrow> bool \<Rightarrow> ZCachedFile \<Rightarrow> 'd ZBlockCache \<Rightarrow> ZFileReplyFromServer
       \<Rightarrow> (bool option \<times> ZCachedFile \<times> 'd ZBlockCache) option" where
  "take_in_rest env caused_change f bc reply = do {
     (c1, f) \<leftarrow> install_merkle_records env f reply;
     (c2, bc) \<leftarrow> install_data env f bc reply;
     (ir, f) \<leftarrow> validate_tentative_hashes env f;
     lite_assert (ir = NEW_DATA \<longrightarrow> caused_change \<or> c1 \<or> c2);
     Some (Some (caused_change \<or> c1 \<or> c2 \<or> ir = NEW_DATA), f, bc) }"

lemma take_in_reply_split:
  "take_in_reply env f bc reply = (case install_metadata env f reply of (ir, f1) \<Rightarrow>
     if ir = FAIL then Some (None, f1, bc) else take_in_rest env (ir = NEW_DATA) f1 bc reply)"
  by (auto simp: take_in_reply_def take_in_rest_def split: prod.splits InstallResult.splits)

lemma file_ok_inv: "file_ok env f \<Longrightarrow> metadata_state f = v_validated \<Longrightarrow> merkle_inv env None f"
  by (auto simp: file_ok_def)

lemma take_in_rest_ok:
  assumes "file_ok env f" and "metadata_state f = v_validated" and "list_all (record_fits f) (rp_raw_records reply)"
  obtains c1 f2 r f' where "install_merkle_records env f reply = Some (c1, f2)" and "merkle_inv env None f2"
    and "advances f f2" and "completes f f2"
    and "\<forall>zmr \<in> set (rp_raw_records reply). known f2 (unat (z_ntohl (tree_location zmr)))"
    and "validate_tentative_hashes env f2 = Some (r, f')"
    and "file_ok env f'" and "metadata_state f' = v_validated" and "file_hash f' = file_hash f" and "nodes f' = nodes f"
    and "metadata f' = metadata f"
    and "\<And>n. n < nodes f \<Longrightarrow> hs f' n = hs f2 n" and "\<And>n. n < nodes f \<Longrightarrow> known f' n = known f2 n"
    and "\<And>n. n < nodes f \<Longrightarrow> st f n = v_validated \<Longrightarrow> st f' n = v_validated"
    and "\<And>p. p \<in># ht_data (parents_of_tentative_nodes f2) \<Longrightarrow> pair_matches env f2 (unat p) \<Longrightarrow>
           st f' (2 * unat p + 1) = v_validated \<and> st f' (2 * unat p + 2) = v_validated"
    and "\<And>n. n < nodes f \<Longrightarrow> st f' n \<noteq> st f2 n \<Longrightarrow>
           \<exists>p \<in># ht_data (parents_of_tentative_nodes f2). (n = 2 * unat p + 1 \<or> n = 2 * unat p + 2)"
    and "take_in_rest env c f bc reply = (case install_data env f2 bc reply of None \<Rightarrow> None
           | Some (c2, bc') \<Rightarrow> Some (Some (c \<or> c1 \<or> c2 \<or> r = NEW_DATA), f', bc'))"
proof -
  have inv: "merkle_inv env None f" by (rule file_ok_inv [OF assms(1,2)])
  obtain c1 f2 where r1: "install_merkle_records env f reply = Some (c1, f2)" "merkle_inv env None f2"
      "advances f f2" "completes f f2" "\<not> c1 \<longrightarrow> f2 = f"
      "\<forall>zmr \<in> set (rp_raw_records reply). known f2 (unat (z_ntohl (tree_location zmr)))"
    using install_merkle_records_loop_ok [OF inv, of "rp_raw_records reply" False] assms(3)
    by (auto simp: install_merkle_records_def)
  obtain r f' where r2: "validate_tentative_hashes env f2 = Some (r, f')" "merkle_inv env None f'"
    "ht_data (parents_of_tentative_nodes f') = {#}" "\<exists>t ht. f' = f2\<lparr>tree := t, parents_of_tentative_nodes := ht\<rparr>"
    "nodes f' = nodes f2" "\<And>n. n < nodes f2 \<Longrightarrow> hs f' n = hs f2 n" "\<And>n. n < nodes f2 \<Longrightarrow> known f' n = known f2 n"
    "\<And>n. n < nodes f2 \<Longrightarrow> st f2 n = v_validated \<Longrightarrow> st f' n = v_validated"
    "ht_data (parents_of_tentative_nodes f2) = {#} \<Longrightarrow> r = NO_EFFECT \<and> tree f' = tree f2"
    "\<And>p. p \<in># ht_data (parents_of_tentative_nodes f2) \<Longrightarrow> pair_matches env f2 (unat p) \<Longrightarrow>
           st f' (2 * unat p + 1) = v_validated \<and> st f' (2 * unat p + 2) = v_validated"
    "\<And>n. n < nodes f2 \<Longrightarrow> st f' n \<noteq> st f2 n \<Longrightarrow>
           \<exists>p \<in># ht_data (parents_of_tentative_nodes f2). (n = 2 * unat p + 1 \<or> n = 2 * unat p + 2)"
    by (rule validate_tentative_ok [OF r1(2)]) blast
  have n2: "nodes f2 = nodes f" by (rule advances_nodes [OF r1(3)])
  obtain t ht where "f' = f\<lparr>tree := t, parents_of_tentative_nodes := ht\<rparr>"
    using r2(4) r1(3) unfolding advances_def by auto
  then have frame: "metadata f' = metadata f" "file_hash f' = file_hash f" "metadata_state f' = metadata_state f"
    "num_blocks f' = num_blocks f" "tree_depth f' = tree_depth f" "get_filelen f' = get_filelen f"
    by (simp_all add: get_filelen_def)
  have pos: "0 < nodes f" using inv by (auto simp: merkle_inv_def dest: tree_sized_nodes)
  have "hs f' 0 = hs f2 0" using r2(6) n2 pos by simp
  moreover have "hs f2 0 = hs f 0"
    using advances_known [OF r1(3) pos] inv by (simp add: merkle_inv_def known_def)
  ultimately have ok: "file_ok env f'"
    using assms(1,2) r2(2,3) frame unfolding file_ok_def by (simp add: merkle_inv_def tracked_ok_def)
  have noop: "r = NEW_DATA \<longrightarrow> c1"
    using r2(9) r1(5) assms(1) by (auto simp: file_ok_def)
  show thesis
  proof (rule that [OF r1(1-4) r1(6) r2(1) ok])
    show "take_in_rest env c f bc reply = (case install_data env f2 bc reply of None \<Rightarrow> None
           | Some (c2, bc') \<Rightarrow> Some (Some (c \<or> c1 \<or> c2 \<or> r = NEW_DATA), f', bc'))"
      using noop by (auto simp: take_in_rest_def r1(1) r2(1) split: option.splits)
    show "st f' n = v_validated" if "n < nodes f" "st f n = v_validated" for n
      using r2(8) n2 that advances_validated [OF r1(3)] by simp
  qed (use r2 n2 frame assms(2) in auto)
qed

lemma take_in_rest_None:
  assumes "file_ok env f" and "metadata_state f = v_validated" and "\<not> list_all (record_fits f) (rp_raw_records reply)"
  shows "take_in_rest env c f bc reply = None"
  using install_merkle_records_loop_ok [OF file_ok_inv [OF assms(1,2)], of "rp_raw_records reply" False] assms(3)
  by (simp add: take_in_rest_def install_merkle_records_def)

lemma take_in_reply_ok:
  assumes "file_ok env f" and "take_in_reply env f bc reply = Some (r, f', bc')"
  shows "file_ok env f' \<and> file_hash f' = file_hash f"
proof -
  obtain ir f1 where m: "install_metadata env f reply = (ir, f1)" by fastforce
  note ok = install_metadata_ok [OF assms(1) m]
  show ?thesis
  proof (cases "ir = FAIL")
    case True
    then show ?thesis using assms ok by (simp add: take_in_reply_split m)
  next
    case False
    then have t: "take_in_rest env (ir = NEW_DATA) f1 bc reply = Some (r, f', bc')"
      using assms(2) by (simp add: take_in_reply_split m)
    have v: "metadata_state f1 = v_validated" by (rule ok(5) [OF False])
    have fits: "list_all (record_fits f1) (rp_raw_records reply)"
      using take_in_rest_None [OF ok(1) v] t by fastforce
    obtain f2 f'' c1 r1 where f'': "file_ok env f''" "file_hash f'' = file_hash f1" and
      "take_in_rest env (ir = NEW_DATA) f1 bc reply = (case install_data env f2 bc reply of None \<Rightarrow> None
           | Some (c2, bc') \<Rightarrow> Some (Some (ir = NEW_DATA \<or> c1 \<or> c2 \<or> r1 = NEW_DATA), f'', bc'))"
      by (rule take_in_rest_ok [OF ok(1) v fits, of "ir = NEW_DATA" bc])
    then show ?thesis using t ok(2) by (auto split: option.splits)
  qed
qed

lemma take_in_reply_known:
  assumes "metadata_state f = v_validated"
  shows "take_in_reply env f bc reply = take_in_rest env False f bc reply"
  using assms by (simp add: take_in_reply_split install_metadata_def)

fun take_in_replies ::
    "'d zenv \<Rightarrow> ZCachedFile \<Rightarrow> 'd ZBlockCache \<Rightarrow> ZFileReplyFromServer list \<Rightarrow> (ZCachedFile \<times> 'd ZBlockCache) option" where
  "take_in_replies env f bc [] = Some (f, bc)"
| "take_in_replies env f bc (reply # replies) = do {
     (_, f, bc) \<leftarrow> take_in_reply env f bc reply;
     take_in_replies env f bc replies }"

lemma take_in_replies_ok:
  "file_ok env f \<Longrightarrow> take_in_replies env f bc replies = Some (f', bc') \<Longrightarrow> file_ok env f' \<and> file_hash f' = file_hash f"
proof (induction replies arbitrary: f bc)
  case (Cons reply replies)
  then obtain r f1 bc1 where r: "take_in_reply env f bc reply = Some (r, f1, bc1)"
      "take_in_replies env f1 bc1 replies = Some (f', bc')"
    by (auto simp: opt_simps)
  show ?case using take_in_reply_ok [OF Cons.prems(1) r(1)] Cons.IH [OF _ r(2)] by simp
qed simp

section \<open>What the hash of a file commits to\<close>

text \<open>The nodes from \<open>n\<close> up to the root, and the strings that are hashed along them.\<close>

fun path :: "nat \<Rightarrow> nat list" where
  "path n = n # (if n = 0 then [] else path ((n - 1) div 2))"

declare path.simps [simp del]

fun path_inputs :: "ZCachedFile \<Rightarrow> nat \<Rightarrow> bytes set" where
  "path_inputs f n = (if n = 0 then {metadata_bytes (metadata f) @ hash_bytes (hs f 0)}
     else let p = (n - 1) div 2 in insert (hash_bytes (hs f (2 * p + 1)) @ hash_bytes (hs f (2 * p + 2))) (path_inputs f p))"

declare path_inputs.simps [simp del]

lemma metadata_bytes_append: "metadata_bytes m @ xs = metadata_bytes m' @ ys \<longleftrightarrow> m = m' \<and> xs = ys"
proof
  assume eq: "metadata_bytes m @ xs = metadata_bytes m' @ ys"
  then have "m = m'" by (metis metadata_of_bytes)
  then show "m = m' \<and> xs = ys" using eq by simp
qed simp

lemma validated_path_root:
  assumes "file_ok env f" and "metadata_state f = v_validated" and "n < nodes f" and "0 < n" and "st f n = v_validated"
  defines "p \<equiv> (n - 1) div 2"
  shows "hs f p = zhash env (hash_bytes (hs f (2 * p + 1)) @ hash_bytes (hs f (2 * p + 2)))" and "2 * p + 2 < nodes f"
    and "n = 2 * p + 1 \<or> n = 2 * p + 2" and "p < n"
proof -
  have inv: "merkle_inv env None f" by (rule file_ok_inv [OF assms(1,2)])
  then have sized: "tree_sized f" and v: "validated_ok env f" by (auto simp: merkle_inv_def)
  show n: "n = 2 * p + 1 \<or> n = 2 * p + 2" "p < n" using assms(4) unfolding p_def by presburger+
  have "odd (nodes f)" by (rule tree_sized_nodes(4) [OF sized])
  then show lt: "2 * p + 2 < nodes f" using n(1) assms(3) by presburger
  show "hs f p = zhash env (hash_bytes (hs f (2 * p + 1)) @ hash_bytes (hs f (2 * p + 2)))"
    using v lt n(1) assms(5) unfolding validated_ok_def pair_hash_def by metis
qed

lemma path_agrees:
  assumes "file_ok env f" and "metadata_state f = v_validated" and "file_ok env g" and "metadata_state g = v_validated"
    and "file_hash f = file_hash g" and "n < nodes f" and "n < nodes g"
    and "\<forall>m \<in> set (path n). st f m = v_validated \<and> st g m = v_validated"
    and "inj_on (zhash env) (path_inputs f n \<union> path_inputs g n)"
  shows "hs f n = hs g n \<and> metadata f = metadata g"
  using assms(6-)
proof (induction n rule: less_induct)
  case (less n)
  show ?case
  proof (cases "n = 0")
    case True
    let ?x = "metadata_bytes (metadata f) @ hash_bytes (hs f 0)" and ?y = "metadata_bytes (metadata g) @ hash_bytes (hs g 0)"
    have "zhash env ?x = zhash env ?y"
      using assms(1-5) by (auto simp: file_ok_def compute_file_hash_def)
    then have "?x = ?y"
      using inj_onD [OF less.prems(4), of ?x ?y] True by (simp add: path_inputs.simps)
    then show ?thesis using True by (simp add: metadata_bytes_append hash_bytes_inject)
  next
    case False
    define p where "p = (n - 1) div 2"
    have v: "st f n = v_validated" "st g n = v_validated" using less.prems(3) by (simp_all add: path.simps [of n])
    note F = validated_path_root [OF assms(1,2) less.prems(1) _ v(1), folded p_def]
    note G = validated_path_root [OF assms(3,4) less.prems(2) _ v(2), folded p_def]
    let ?x = "hash_bytes (hs f (2 * p + 1)) @ hash_bytes (hs f (2 * p + 2))"
    let ?y = "hash_bytes (hs g (2 * p + 1)) @ hash_bytes (hs g (2 * p + 2))"
    have inputs: "path_inputs f n = insert ?x (path_inputs f p)" "path_inputs g n = insert ?y (path_inputs g p)"
      using False by (simp_all add: path_inputs.simps [of _ n] Let_def p_def)
    have "hs f p = hs g p \<and> metadata f = metadata g"
    proof (rule less.IH)
      show "p < n" "p < nodes f" "p < nodes g" using F G False by auto
      show "\<forall>m \<in> set (path p). st f m = v_validated \<and> st g m = v_validated"
        using less.prems(3) False by (simp add: path.simps [of n] p_def)
      show "inj_on (zhash env) (path_inputs f p \<union> path_inputs g p)"
        by (rule inj_on_subset [OF less.prems(4)]) (use inputs in auto)
    qed
    moreover from this have "zhash env ?x = zhash env ?y" using F(1) G(1) False by simp
    then have "?x = ?y" using inj_onD [OF less.prems(4), of ?x ?y] inputs by simp
    then have "hs f (2 * p + 1) = hs g (2 * p + 1)" "hs f (2 * p + 2) = hs g (2 * p + 2)" by (simp_all add: hash_bytes_inject)
    ultimately show ?thesis using F(3) False by auto
  qed
qed

section \<open>Honest replies\<close>

definition honest :: "(nat \<Rightarrow> hash_t) \<Rightarrow> ZCachedFile \<Rightarrow> bool" where
  "honest H f \<longleftrightarrow> (\<forall>n < nodes f. known f n \<longrightarrow> hs f n = H n)"

definition merkle_labels :: "'d zenv \<Rightarrow> nat \<Rightarrow> (nat \<Rightarrow> hash_t) \<Rightarrow> bool" where
  "merkle_labels env N H \<longleftrightarrow> (\<forall>p. 2 * p + 2 < N \<longrightarrow> H p = pair_hash env (H (2 * p + 1)) (H (2 * p + 2)))"

definition honest_record :: "(nat \<Rightarrow> hash_t) \<Rightarrow> nat \<Rightarrow> ZFTPMerkleRecord \<Rightarrow> bool" where
  "honest_record H N zmr \<longleftrightarrow> (let n = unat (z_ntohl (tree_location zmr)) in n < N \<and> zmr_hash zmr = H n)"

lemma honest_mark:
  assumes "honest H f" and "merkle_labels env (nodes f) H" and "loc < nodes f"
    and "advances f f'" and "infers env loc f f'" and "hs f' loc = H loc"
  shows "honest H f'"
  unfolding honest_def
proof (intro allI impI)
  fix n assume "n < nodes f'" and "known f' n"
  then show "hs f' n = H n"
  proof (induction "nodes f - n" arbitrary: n rule: less_induct)
    case less
    have n: "n < nodes f" using less.prems(1) advances_nodes [OF assms(4)] by simp
    show ?case
    proof (cases "known f n \<or> n = loc")
      case True
      then show ?thesis using assms(1,6) advances_known [OF assms(4) n] n by (auto simp: honest_def)
    next
      case False
      then have i: "2 * n + 2 < nodes f" "known f' (2 * n + 1)" "known f' (2 * n + 2)"
        "hs f' n = pair_hash env (hs f' (2 * n + 1)) (hs f' (2 * n + 2))"
        using assms(5) n less.prems(2) unfolding infers_def by blast+
      have "hs f' (2 * n + 1) = H (2 * n + 1)" "hs f' (2 * n + 2) = H (2 * n + 2)"
        using less.hyps [of "2 * n + 1"] less.hyps [of "2 * n + 2"] i advances_nodes [OF assms(4)] by auto
      then show ?thesis using i(1,4) assms(2) unfolding merkle_labels_def by simp
    qed
  qed
qed

lemma install_records_honest:
  assumes "merkle_inv env None f" and "honest H f" and "merkle_labels env (nodes f) H"
    and "list_all (honest_record H (nodes f)) zmrs"
    and "install_merkle_records_loop env zmrs c f = Some (c', f')"
  shows "honest H f'"
  using assms
proof (induction zmrs arbitrary: f c)
  case Nil
  then show ?case by simp
next
  case (Cons zmr zmrs)
  let ?loc = "z_ntohl (tree_location zmr)"
  have n: "unat ?loc < nodes f" and h: "zmr_hash zmr = H (unat ?loc)"
    using Cons.prems(4) by (auto simp: honest_record_def Let_def)
  have sized: "tree_sized f" and nomargin: "st f (unat ?loc) \<noteq> v_margin"
    using Cons.prems(1) n by (auto simp: merkle_inv_def)
  have at: "tree_at f ?loc = Some (tree f ! unat ?loc)" by (rule tree_at_in [OF sized n])
  show ?case
  proof (cases "known f (unat ?loc)")
    case True
    then have "install_merkle_records_loop env zmrs c f = Some (c', f')"
      using Cons.prems(5) at nomargin by (cases "st f (unat ?loc)") (auto simp: Let_def known_def opt_simps split: if_splits)
    then show ?thesis using Cons.IH Cons.prems by simp
  next
    case False
    let ?f0 = "rehash f ?loc (zmr_hash zmr)"
    have "merkle_inv env (Some (unat ?loc)) f"
      using Cons.prems(1) unfolding merkle_inv_def closed_upwards_def by blast
    then have inv0: "merkle_inv env (Some (unat ?loc)) ?f0" by (rule rehash_inv [OF _ n False])
    obtain f1 where f1: "mark_node_tentative env ?f0 ?loc = Some f1" "merkle_inv env None f1" "advances ?f0 f1"
        "tree f1 ! unat ?loc = (tree ?f0 ! unat ?loc)\<lparr>vmr_state := v_tentative\<rparr>" "infers env (unat ?loc) ?f0 f1"
      using mark_ok [OF inv0] n False by auto
    have "honest H f1"
    proof (rule honest_mark [OF _ _ _ f1(3,5)])
      have "hs ?f0 m = hs f m" if "known f m" for m
        using that False by (intro arg_cong [of _ _ vmr_hash] rehash_nth) auto
      then show "honest H ?f0" using Cons.prems(2) n by (simp add: honest_def)
      show "hs f1 (unat ?loc) = H (unat ?loc)" using f1(4) n h by (simp add: rehash_def)
    qed (use Cons.prems(3) n in simp_all)
    moreover have "install_merkle_records_loop env zmrs True f1 = Some (c', f')"
      using Cons.prems(5) at False f1(1) by (simp add: Let_def known_def rehash_def)
    moreover have "nodes f1 = nodes f" using advances_nodes [OF f1(3)] by simp
    ultimately show ?thesis using Cons.IH [OF f1(2)] Cons.prems(3,4) by simp
  qed
qed

definition settled :: "ZCachedFile \<Rightarrow> bool" where
  "settled f \<longleftrightarrow> (\<forall>p. pair_known f p \<longrightarrow> st f (2 * p + 1) = v_validated \<and> st f (2 * p + 2) = v_validated)"

lemma settled_configured:
  assumes "\<And>n. 0 < n \<Longrightarrow> n < nodes f \<Longrightarrow> \<not> known f n"
  shows "settled f"
  using assms by (auto simp: settled_def pair_known_def)

lemma honest_rest:
  assumes "file_ok env f" and "metadata_state f = v_validated" and "honest H f" and "settled f"
    and "merkle_labels env (nodes f) H" and "list_all (honest_record H (nodes f)) (rp_raw_records reply)"
  obtains c1 f2 r f' where "install_merkle_records env f reply = Some (c1, f2)"
    and "take_in_rest env c f bc reply = (case install_data env f2 bc reply of None \<Rightarrow> None
           | Some (c2, bc') \<Rightarrow> Some (Some (c \<or> c1 \<or> c2 \<or> r = NEW_DATA), f', bc'))"
    and "file_ok env f'" and "metadata_state f' = v_validated" and "honest H f'" and "settled f'" and "nodes f' = nodes f"
    and "\<And>n. n < nodes f \<Longrightarrow> known f n \<Longrightarrow> known f' n"
    and "\<And>zmr. zmr \<in> set (rp_raw_records reply) \<Longrightarrow> known f' (unat (z_ntohl (tree_location zmr)))"
proof -
  have inv: "merkle_inv env None f" by (rule file_ok_inv [OF assms(1,2)])
  have "record_fits f zmr" if "honest_record H (nodes f) zmr" for zmr
    using that assms(3) by (auto simp: record_fits_def honest_record_def honest_def Let_def known_def)
  then have fits: "list_all (record_fits f) (rp_raw_records reply)"
    using assms(6) by (auto simp: list_all_iff)
  show thesis
  proof (rule take_in_rest_ok [OF assms(1,2) fits, of c bc])
    fix c1 f2 r f'
    assume r: "install_merkle_records env f reply = Some (c1, f2)" "merkle_inv env None f2" "advances f f2" "completes f f2"
      "\<forall>zmr \<in> set (rp_raw_records reply). known f2 (unat (z_ntohl (tree_location zmr)))"
      "file_ok env f'" "metadata_state f' = v_validated" "nodes f' = nodes f"
      and same: "\<And>n. n < nodes f \<Longrightarrow> hs f' n = hs f2 n" "\<And>n. n < nodes f \<Longrightarrow> known f' n = known f2 n"
      and keep: "\<And>n. n < nodes f \<Longrightarrow> st f n = v_validated \<Longrightarrow> st f' n = v_validated"
      and new: "\<And>p. p \<in># ht_data (parents_of_tentative_nodes f2) \<Longrightarrow> pair_matches env f2 (unat p) \<Longrightarrow>
           st f' (2 * unat p + 1) = v_validated \<and> st f' (2 * unat p + 2) = v_validated"
      and rest: "take_in_rest env c f bc reply = (case install_data env f2 bc reply of None \<Rightarrow> None
           | Some (c2, bc') \<Rightarrow> Some (Some (c \<or> c1 \<or> c2 \<or> r = NEW_DATA), f', bc'))"
    have n2: "nodes f2 = nodes f" by (rule advances_nodes [OF r(3)])
    have H2: "honest H f2"
      by (rule install_records_honest [OF inv assms(3,5,6)]) (use r(1) in \<open>simp add: install_merkle_records_def\<close>)
    have H': "honest H f'" using H2 same r(8) n2 by (simp add: honest_def)
    have "settled f'"
      unfolding settled_def
    proof (intro allI impI)
      fix p assume "pair_known f' p"
      then have p: "2 * p + 2 < nodes f" "known f2 (2 * p + 1)" "known f2 (2 * p + 2)"
        using same(2) [of "2 * p + 1"] same(2) [of "2 * p + 2"] r(8) by (auto simp: pair_known_def)
      show "st f' (2 * p + 1) = v_validated \<and> st f' (2 * p + 2) = v_validated"
      proof (cases "known f (2 * p + 1) \<and> known f (2 * p + 2)")
        case True
        then have "st f (2 * p + 1) = v_validated \<and> st f (2 * p + 2) = v_validated"
          using assms(4) p(1) unfolding settled_def pair_known_def by blast
        then show ?thesis using keep p(1) by simp
      next
        case False
        then have "of_nat p \<in># ht_data (parents_of_tentative_nodes f2)" using r(4) p unfolding completes_def by blast
        moreover have "p < 2 ^ 32"
          using p(1) tree_sized_nodes(2) [of f] inv unfolding merkle_inv_def by simp
        then have u: "unat (of_nat p :: u32) = p" by (rule unat_of_nat_u32)
        moreover have "known f2 p"
          using closed_upwards_pair [of f2 p] r(2) p n2 by (simp add: merkle_inv_def pair_known_def)
        then have "pair_matches env f2 p"
          using H2 p assms(5) n2 unfolding pair_matches_def honest_def merkle_labels_def by simp
        ultimately show ?thesis using new [of "of_nat p"] by simp
      qed
    qed
    moreover have "known f' n" if "n < nodes f" "known f n" for n
      using same(2) that advances_known [OF r(3)] by simp
    moreover have "known f' (unat (z_ntohl (tree_location zmr)))" if "zmr \<in> set (rp_raw_records reply)" for zmr
    proof -
      have "unat (z_ntohl (tree_location zmr)) < nodes f"
        using that assms(6) by (auto simp: list_all_iff honest_record_def Let_def)
      then show ?thesis using r(5) that same(2) by simp
    qed
    ultimately show thesis using that [OF r(1) rest r(6,7) H' _ r(8)] by blast
  qed
qed

definition sent :: "ZFileReplyFromServer list \<Rightarrow> nat \<Rightarrow> bool" where
  "sent replies n \<longleftrightarrow> (\<exists>reply \<in> set replies. \<exists>zmr \<in> set (rp_raw_records reply). unat (z_ntohl (tree_location zmr)) = n)"

definition without_data :: "ZFileReplyFromServer \<Rightarrow> bool" where
  "without_data reply \<longleftrightarrow> \<not> dr_start (rp_data_range reply) < dr_end (rp_data_range reply)"

lemma install_data_without: "without_data reply \<Longrightarrow> install_data env f bc reply = Some (False, bc)"
proof -
  assume "without_data reply"
  then have "install_data_loop None (Suc 65536) env f reply (dr_start (rp_data_range reply)) False bc = Some (False, bc)"
    unfolding install_data_loop.simps without_data_def by (rule if_not_P)
  then show ?thesis by (simp add: install_data_def)
qed

definition downloading :: "'d zenv \<Rightarrow> (nat \<Rightarrow> hash_t) \<Rightarrow> ZCachedFile \<Rightarrow> bool" where
  "downloading env H f \<longleftrightarrow> file_ok env f \<and> metadata_state f = v_validated \<and> honest H f \<and> settled f
     \<and> merkle_labels env (nodes f) H"

lemma downloading_step:
  assumes "downloading env H f" and "list_all (honest_record H (nodes f)) (rp_raw_records reply)"
  obtains f2 f' where
    "take_in_rest env c f bc reply = None \<longleftrightarrow> install_data env f2 bc reply = None"
    and "\<And>r f1 bc'. take_in_rest env c f bc reply = Some (r, f1, bc') \<Longrightarrow> f1 = f'"
    and "without_data reply \<Longrightarrow> \<exists>r. take_in_rest env c f bc reply = Some (r, f', bc)"
    and "downloading env H f'" and "nodes f' = nodes f"
    and "\<And>n. n < nodes f \<Longrightarrow> known f n \<Longrightarrow> known f' n" and "\<And>n. sent [reply] n \<Longrightarrow> known f' n"
proof -
  have d: "file_ok env f" "metadata_state f = v_validated" "honest H f" "settled f" "merkle_labels env (nodes f) H"
    using assms(1) by (simp_all add: downloading_def)
  obtain c1 f2 r f' where r: "take_in_rest env c f bc reply = (case install_data env f2 bc reply of None \<Rightarrow> None
           | Some (c2, bc') \<Rightarrow> Some (Some (c \<or> c1 \<or> c2 \<or> r = NEW_DATA), f', bc'))"
    "file_ok env f'" "metadata_state f' = v_validated" "honest H f'" "settled f'" "nodes f' = nodes f"
    and k: "\<And>n. n < nodes f \<Longrightarrow> known f n \<Longrightarrow> known f' n"
      "\<And>zmr. zmr \<in> set (rp_raw_records reply) \<Longrightarrow> known f' (unat (z_ntohl (tree_location zmr)))"
    by (rule honest_rest [OF d assms(2), of c bc]) blast
  show thesis
  proof (rule that [of f2 f'])
    show "\<exists>r. take_in_rest env c f bc reply = Some (r, f', bc)" if "without_data reply"
      by (simp add: r(1) install_data_without [OF that])
    show "downloading env H f'" using d(5) r by (simp add: downloading_def)
    show "known f' n" if "sent [reply] n" for n using that k(2) by (auto simp: sent_def)
  qed (use r k in \<open>auto split: option.splits\<close>)
qed

lemma downloading_run:
  assumes "downloading env H f" and "\<forall>reply \<in> set replies. list_all (honest_record H (nodes f)) (rp_raw_records reply)"
    and "take_in_replies env f bc replies = Some (f', bc')"
  shows "downloading env H f' \<and> nodes f' = nodes f \<and> metadata f' = metadata f
     \<and> (\<forall>n < nodes f. known f n \<or> sent replies n \<longrightarrow> known f' n)"
  using assms
proof (induction replies arbitrary: f bc)
  case Nil
  then show ?case by (simp add: sent_def)
next
  case (Cons reply replies)
  have v: "metadata_state f = v_validated" "file_ok env f" using Cons.prems(1) by (simp_all add: downloading_def)
  have hr: "list_all (honest_record H (nodes f)) (rp_raw_records reply)" using Cons.prems(2) by simp
  obtain r f1 bc1 where t: "take_in_rest env False f bc reply = Some (r, f1, bc1)"
      "take_in_replies env f1 bc1 replies = Some (f', bc')"
    using Cons.prems(3) by (auto simp: opt_simps take_in_reply_known [OF v(1)])
  obtain f1' where "\<And>r f1 bc'. take_in_rest env False f bc reply = Some (r, f1, bc') \<Longrightarrow> f1 = f1'"
    and f1': "downloading env H f1'" "nodes f1' = nodes f" "\<And>n. n < nodes f \<Longrightarrow> known f n \<Longrightarrow> known f1' n"
      "\<And>n. sent [reply] n \<Longrightarrow> known f1' n"
    by (rule downloading_step [OF Cons.prems(1) hr, of False bc]) blast
  then have "f1 = f1'" using t(1) by blast
  note f1 = f1' [folded this]
  have "metadata f1 = metadata f"
  proof -
    have "list_all (record_fits f) (rp_raw_records reply)" using take_in_rest_None [OF v(2,1)] t(1) by fastforce
    then obtain f2 f'' c1 r1 where "metadata f'' = metadata f" and
      "take_in_rest env False f bc reply = (case install_data env f2 bc reply of None \<Rightarrow> None
           | Some (c2, bc') \<Rightarrow> Some (Some (False \<or> c1 \<or> c2 \<or> r1 = NEW_DATA), f'', bc'))"
      by (rule take_in_rest_ok [OF v(2,1), of reply False bc])
    then show ?thesis using t(1) by (auto split: option.splits)
  qed
  moreover have "sent (reply # replies) n \<longleftrightarrow> sent [reply] n \<or> sent replies n" for n by (auto simp: sent_def)
  ultimately show ?case using Cons.IH [OF f1(1) _ t(2)] Cons.prems(2) f1(2-4) by simp
qed

lemma downloading_total:
  assumes "downloading env H f" and "\<forall>reply \<in> set replies. list_all (honest_record H (nodes f)) (rp_raw_records reply)"
    and "\<forall>reply \<in> set replies. without_data reply"
  shows "\<exists>f'. take_in_replies env f bc replies = Some (f', bc)"
  using assms
proof (induction replies arbitrary: f)
  case Nil
  then show ?case by simp
next
  case (Cons reply replies)
  have v: "metadata_state f = v_validated" using Cons.prems(1) by (simp add: downloading_def)
  have hr: "list_all (honest_record H (nodes f)) (rp_raw_records reply)" using Cons.prems(2) by simp
  have nd: "without_data reply" using Cons.prems(3) by simp
  obtain f1 where "\<exists>r. take_in_rest env False f bc reply = Some (r, f1, bc)" "downloading env H f1" "nodes f1 = nodes f"
    by (rule downloading_step [OF Cons.prems(1) hr, of False bc]) (use nd in blast)
  then show ?case using Cons.IH [of f1] Cons.prems(2,3) by (auto simp: take_in_reply_known [OF v])
qed

lemma downloading_start:
  assumes "h = compute_file_hash env m (H 0)"
    and "N = unat (compute_tree_size (compute_tree_depth (compute_num_blocks (z_ntohl (file_len_network_order m)))))"
    and "merkle_labels env N H" and "rp_metadata reply = m" and "list_all (honest_record H N) (rp_raw_records reply)"
    and "sent [reply] 0"
  obtains f where "install_metadata env (ZCachedFile_new h) reply = (NEW_DATA, f)" and "downloading env H f"
    and "nodes f = N" and "metadata f = m"
proof -
  let ?f = "ZCachedFile_new h"
  obtain zmr where zmr: "zmr \<in> set (rp_raw_records reply)" "z_ntohl (tree_location zmr) = 0"
    using assms(6) by (auto simp: sent_def unat_eq_zero)
  then obtain root where root: "find_root_merkle_record reply = Some root"
    unfolding find_root_merkle_record_def by (metis (mono_tags, lifting) find_None_iff option.exhaust)
  then have "root \<in> set (rp_raw_records reply)" "z_ntohl (tree_location root) = 0"
    by (auto simp: find_root_merkle_record_def find_Some_iff)
  then have h0: "zmr_hash root = H 0" using assms(5) by (auto simp: list_all_iff honest_record_def Let_def)
  define f where "f = tree_set (configure_from_metadata (?f\<lparr>metadata := m\<rparr>)) 0 \<lparr>vmr_hash = H 0, vmr_state = v_validated\<rparr>"
  have im: "install_metadata env ?f reply = (NEW_DATA, f)"
    using root h0 assms(1,4)
    by (simp add: install_metadata_def f_def) (simp add: ZCachedFile_new_def zcf_ctor_init_def Let_def)
  have base: "\<not> is_origin (?f\<lparr>metadata := m\<rparr>)"
    "ht_ready vmr_hash_func vmr_cmp_func (parents_of_tentative_nodes (?f\<lparr>metadata := m\<rparr>))"
    "ht_data (parents_of_tentative_nodes (?f\<lparr>metadata := m\<rparr>)) = {#}"
    using file_ok_new [of env h] by (simp_all add: file_ok_def)
  note conf = configured_tree(1) [OF base, where env = env and root = "H 0", folded f_def]
    configured_tree(2-) [OF base, where root = "H 0", folded f_def]
  have nodes: "nodes f = N" using conf(1,7,8) conf(6) assms(2)
    by (simp add: merkle_inv_def tree_sized_def get_filelen_def)
  have "honest H f" unfolding honest_def using conf(2,3) by (metis neq0_conv)
  moreover have "file_ok env f" "metadata_state f = v_validated"
    using install_metadata_ok [OF file_ok_new im] by simp_all
  moreover have "settled f" by (rule settled_configured) (rule conf(3))
  ultimately have "downloading env H f" using assms(3) nodes by (simp add: downloading_def)
  then show thesis using that im nodes conf(6) by simp
qed

definition honest_reply :: "ZFTPFileMetadata \<Rightarrow> (nat \<Rightarrow> hash_t) \<Rightarrow> ZFileReplyFromServer \<Rightarrow> bool" where
  "honest_reply m H reply \<longleftrightarrow> rp_metadata reply = m \<and> list_all (honest_record H
     (unat (compute_tree_size (compute_tree_depth (compute_num_blocks (z_ntohl (file_len_network_order m)))))))
       (rp_raw_records reply)"

lemma take_in_rest_change:
  assumes "file_ok env f" and "metadata_state f = v_validated" and "list_all (record_fits f) (rp_raw_records reply)"
  shows "take_in_rest env True f bc reply = map_option (\<lambda>(r, f1, bc1). (Some True, f1, bc1)) (take_in_rest env False f bc reply)"
proof -
  obtain c1 f2 r f' where "install_merkle_records env f reply = Some (c1, f2)"
    "validate_tentative_hashes env f2 = Some (r, f')"
    "take_in_rest env False f bc reply = (case install_data env f2 bc reply of None \<Rightarrow> None
           | Some (c2, bc') \<Rightarrow> Some (Some (False \<or> c1 \<or> c2 \<or> r = NEW_DATA), f', bc'))"
    by (rule take_in_rest_ok [OF assms, of False bc])
  then show ?thesis by (auto simp: take_in_rest_def [of env True] split: option.splits)
qed

lemma honest_download:
  assumes "h = compute_file_hash env m (H 0)"
    and "N = unat (compute_tree_size (compute_tree_depth (compute_num_blocks (z_ntohl (file_len_network_order m)))))"
    and "merkle_labels env N H" and "list_all (honest_reply m H) (first # replies)" and "sent [first] 0"
  shows "list_all without_data (first # replies) \<Longrightarrow>
      \<exists>f. take_in_replies env (ZCachedFile_new h) bc (first # replies) = Some (f, bc)"
    and "take_in_replies env (ZCachedFile_new h) bc (first # replies) = Some (f', bc') \<Longrightarrow>
      downloading env H f' \<and> nodes f' = N \<and> metadata f' = m \<and> (\<forall>n < N. sent (first # replies) n \<longrightarrow> known f' n)"
proof -
  have hon: "list_all (honest_record H N) (rp_raw_records reply)" if "reply \<in> set replies" for reply
    using assms(2,4) that by (auto simp: honest_reply_def list_all_iff)
  have fst: "rp_metadata first = m" "list_all (honest_record H N) (rp_raw_records first)"
    using assms(2,4) by (auto simp: honest_reply_def)
  obtain f where f: "install_metadata env (ZCachedFile_new h) first = (NEW_DATA, f)" "downloading env H f"
      "nodes f = N" "metadata f = m"
    by (rule downloading_start [OF assms(1-3) fst assms(5)])
  have hr: "list_all (honest_record H (nodes f)) (rp_raw_records first)" using fst(2) f(3) by simp
  have first: "take_in_reply env (ZCachedFile_new h) bc first = take_in_rest env True f bc first"
    using f(1) by (simp add: take_in_reply_split)
  have v: "file_ok env f" "metadata_state f = v_validated" "honest H f" using f(2) by (simp_all add: downloading_def)
  have "list_all (record_fits f) (rp_raw_records first)"
    using hr v(3) by (auto simp: list_all_iff record_fits_def honest_record_def honest_def Let_def known_def)
  note same = take_in_rest_change [OF v(1,2) this, of bc]
  have run: "take_in_replies env (ZCachedFile_new h) bc (first # replies) = take_in_replies env f bc (first # replies)"
    by (cases "take_in_rest env False f bc first") (auto simp: first same take_in_reply_known [OF v(2)])
  have all: "\<forall>reply \<in> set (first # replies). list_all (honest_record H (nodes f)) (rp_raw_records reply)"
    using hr hon f(3) by auto
  show "\<exists>f. take_in_replies env (ZCachedFile_new h) bc (first # replies) = Some (f, bc)"
    if "list_all without_data (first # replies)"
    unfolding run by (rule downloading_total [OF f(2) all]) (use that in \<open>simp add: list_all_iff\<close>)
  show "downloading env H f' \<and> nodes f' = N \<and> metadata f' = m \<and> (\<forall>n < N. sent (first # replies) n \<longrightarrow> known f' n)"
    if "take_in_replies env (ZCachedFile_new h) bc (first # replies) = Some (f', bc')"
    using downloading_run [OF f(2) all that [unfolded run]] f(3,4) by simp
qed

section \<open>Pairs nobody vouches for\<close>

lemma pair_member:
  assumes "{a, b} = {2 * p + 1, 2 * p + 2}" and "a = 2 * q + 1 \<or> a = 2 * q + (2 :: nat)"
  shows "p = q"
  using assms by (auto simp: doubleton_eq_iff)

lemma forged_pair_installed:
  assumes "merkle_inv env None f" and "2 * q + 2 < nodes f"
    and "\<not> known f q" and "\<not> known f (2 * q + 1)" and "\<not> known f (2 * q + 2)"
    and "rp_raw_records reply = [\<lparr>tree_location = z_htonl (of_nat (2 * q + 1)), zmr_hash = a\<rparr>,
      \<lparr>tree_location = z_htonl (of_nat (2 * q + 2)), zmr_hash = b\<rparr>]"
  obtains f' where "install_merkle_records env f reply = Some (True, f')"
    and "hs f' (2 * q + 1) = a" and "hs f' (2 * q + 2) = b" and "pair_matches env f' q"
proof -
  have sized: "tree_sized f" using assms(1) by (simp add: merkle_inv_def)
  define l r :: u32 where "l = of_nat (2 * q + 1)" and "r = of_nat (2 * q + 2)"
  have small: "2 * q + 2 < 2 ^ 32" using assms(2) tree_sized_nodes(2) [OF sized] by simp
  then have ul: "unat l = 2 * q + 1" and ur: "unat r = 2 * q + 2"
    unfolding l_def r_def by (intro unat_of_nat_u32; simp)+
  let ?f0 = "rehash f l a"
  have "merkle_inv env (Some (unat l)) f" using assms(1) unfolding merkle_inv_def closed_upwards_def by blast
  then have inv0: "merkle_inv env (Some (unat l)) ?f0" by (rule rehash_inv) (use assms ul in simp_all)
  obtain p s :: u32 and f1 where p: "{unat l, unat s} = {2 * unat p + 1, 2 * unat p + 2}" "nodes f1 = nodes ?f0"
    and f1: "merkle_inv env (Some (unat p)) f1" "tree f1 ! unat l = (tree ?f0 ! unat l)\<lparr>vmr_state := v_tentative\<rparr>"
    and kf: "\<And>n. n \<noteq> unat l \<Longrightarrow> known f1 n = known ?f0 n"
    and mark: "mark_node_tentative env ?f0 l =
       (if \<not> known f1 (unat p) \<and> known f1 (unat s)
        then mark_node_tentative env (rehash f1 p (pair_hash env (hs f1 (2 * unat p + 1)) (hs f1 (2 * unat p + 2)))) p
        else Some f1)"
    by (rule mark_step [OF inv0]) (use assms ul in auto)
  have pq: "unat p = q" by (rule pair_member [OF p(1)]) (simp add: ul)
  have us: "unat s = 2 * q + 2" using p(1) ul unfolding pq by (auto simp: doubleton_eq_iff)
  have k1: "known f1 n = known f n" if "n \<noteq> 2 * q + 1" for n using kf [of n] that assms(2) by (simp add: ul)
  have n1: "nodes f1 = nodes f" using p(2) by simp
  have mark1: "mark_node_tentative env ?f0 l = Some f1" using mark k1 [of "2 * q + 2"] assms(5) us by simp
  have l1: "tree f1 ! (2 * q + 1) = \<lparr>vmr_hash = a, vmr_state = v_tentative\<rparr>"
    using f1(2) assms(2) ul by (simp add: rehash_def)
  have "closed_upwards None f1"
    unfolding closed_upwards_def
  proof (intro allI impI)
    fix x assume x: "2 * x + 2 < nodes f1 \<and> None \<noteq> Some x \<and> known f1 (2 * x + 1) \<and> known f1 (2 * x + 2)"
    then have "x \<noteq> q" using k1 [of "2 * q + 2"] assms(5) by auto
    then show "known f1 x" using f1(1) x unfolding merkle_inv_def closed_upwards_def pq by blast
  qed
  then have "merkle_inv env None f1" using f1(1) unfolding merkle_inv_def by blast
  let ?f1 = "rehash f1 r b"
  have "merkle_inv env (Some (unat r)) f1"
    using \<open>merkle_inv env None f1\<close> unfolding merkle_inv_def closed_upwards_def by blast
  then have inv1: "merkle_inv env (Some (unat r)) ?f1"
    by (rule rehash_inv) (use assms(2,5) k1 [of "2 * q + 2"] ur n1 in simp_all)
  obtain f' where f': "mark_node_tentative env ?f1 r = Some f'" "merkle_inv env None f'" "advances ?f1 f'"
      "tree f' ! unat r = (tree ?f1 ! unat r)\<lparr>vmr_state := v_tentative\<rparr>" "infers env (unat r) ?f1 f'"
    using mark_ok [OF inv1] assms(2,5) k1 [of "2 * q + 2"] ur n1 by auto
  have keep: "tree f' ! (2 * q + 1) = tree f1 ! (2 * q + 1) \<and> known f' (2 * q + 1)"
    using advances_known [OF f'(3), of "2 * q + 1"] l1 n1 assms(2) ur rehash_nth [of "2 * q + 1" r f1 b]
    by (simp add: known_def)
  have r': "tree f' ! (2 * q + 2) = (tree ?f1 ! (2 * q + 2))\<lparr>vmr_state := v_tentative\<rparr>" "hs f' (2 * q + 2) = b"
    using f'(4) assms(2) ur n1 by (simp_all add: rehash_def)
  have n': "nodes f' = nodes f" using advances_nodes [OF f'(3)] n1 by simp
  have "known f' (2 * q + 2)" using r'(1) by (simp add: known_def)
  then have "pair_known f' q" using keep assms(2) n' by (simp add: pair_known_def)
  moreover have "closed_upwards None f'" using f'(2) by (simp add: merkle_inv_def)
  ultimately have "known f' q" by (rule closed_upwards_pair [rotated])
  then have "pair_matches env f' q"
    using f'(5) k1 [of q] assms(2,3) ur n1 unfolding infers_def pair_matches_def by simp
  moreover have "install_merkle_records env f reply = Some (True, f')"
  proof -
    have "tree_at f l = Some (tree f ! unat l)" by (rule tree_at_in [OF sized]) (use assms(2) ul in simp)
    moreover have "tree_sized f1" using \<open>merkle_inv env None f1\<close> by (simp add: merkle_inv_def)
    then have "tree_at f1 r = Some (tree f1 ! unat r)" by (rule tree_at_in) (use assms(2) ur n1 in simp)
    ultimately show ?thesis
      using assms(4,5) mark1 f'(1) k1 [of "2 * q + 2"]
      by (simp add: install_merkle_records_def assms(6) [folded l_def r_def] Let_def z_ntohl_def ul ur known_def rehash_def)
  qed
  ultimately show thesis using that keep l1 r'(2) by simp
qed

section \<open>The data loop\<close>

lemma block_of_next:
  fixes x e :: u32
  assumes "drop_bit ZFTP_LG_BLOCK_SIZE x < nb" and "unat nb \<le> 65535"
  defines "y \<equiv> push_bit ZFTP_LG_BLOCK_SIZE (drop_bit ZFTP_LG_BLOCK_SIZE x) + ZFTP_BLOCK_SIZE"
  shows "unat (drop_bit ZFTP_LG_BLOCK_SIZE y) = unat (drop_bit ZFTP_LG_BLOCK_SIZE x) + 1"
proof -
  let ?b = "drop_bit ZFTP_LG_BLOCK_SIZE x"
  have b: "unat ?b < 65535" using assms(1,2) by (simp add: word_less_nat_alt)
  have lg: "ZFTP_LG_BLOCK_SIZE = 16" by (simp add: ZFTP_LG_BLOCK_SIZE_def)
  have push: "unat (push_bit ZFTP_LG_BLOCK_SIZE ?b) = unat ?b * 65536"
    using unat_push_bit_no_wrap [of ?b ZFTP_LG_BLOCK_SIZE] b by (simp add: lg)
  have "unat y = unat ?b * 65536 + 65536"
    unfolding y_def using b by (subst unat_add_no_wrap) (simp_all add: push)
  then show ?thesis by (simp add: unat_drop_bit lg)
qed

lemma install_data_loop_fuel:
  assumes "unat (num_blocks f) \<le> 65535"
    and "fuel + unat (drop_bit ZFTP_LG_BLOCK_SIZE x) > 65536 \<or> fuel > 0 \<and> \<not> x < dr_end (rp_data_range reply)"
    and "fuel \<le> fuel'"
  shows "install_data_loop unfinished' fuel' env f reply x c bc = install_data_loop unfinished fuel env f reply x c bc"
  using assms(2,3)
proof (induction fuel arbitrary: fuel' x c bc)
  case 0
  have "unat x < 65536 * 65536" using unat_u32_bound [of x] by simp
  then have "unat x div 65536 < 65536" by (rule less_mult_imp_div_less)
  then have "unat (drop_bit ZFTP_LG_BLOCK_SIZE x) < 65536" by (simp add: unat_drop_bit ZFTP_LG_BLOCK_SIZE_def)
  then show ?case using 0 by simp
next
  case (Suc n)
  obtain n' where n': "fuel' = Suc n'" "n \<le> n'" using Suc.prems(2) by (cases fuel') auto
  show ?case
  proof (cases "x < dr_end (rp_data_range reply) \<and> drop_bit ZFTP_LG_BLOCK_SIZE x < num_blocks f")
    case False
    then show ?thesis unfolding n' by (auto simp: Let_def not_less)
  next
    case True
    let ?y = "push_bit ZFTP_LG_BLOCK_SIZE (drop_bit ZFTP_LG_BLOCK_SIZE x) + ZFTP_BLOCK_SIZE"
    let ?z = "min ?y (dr_end (rp_data_range reply))"
    have up: "unat (drop_bit ZFTP_LG_BLOCK_SIZE ?y) = unat (drop_bit ZFTP_LG_BLOCK_SIZE x) + 1"
      using block_of_next True assms(1) by blast
    have b: "unat (drop_bit ZFTP_LG_BLOCK_SIZE x) < 65535"
      using True assms(1) by (simp add: word_less_nat_alt)
    have "n + unat (drop_bit ZFTP_LG_BLOCK_SIZE ?z) > 65536 \<or> n > 0 \<and> \<not> ?z < dr_end (rp_data_range reply)"
      using Suc.prems(1) True up b by (cases "?y \<le> dr_end (rp_data_range reply)") (auto simp: min_def)
    then have eq: "install_data_loop unfinished' n' env f reply ?z = install_data_loop unfinished n env f reply ?z"
      by (intro ext Suc.IH [OF _ n'(2)])
    show ?thesis unfolding n' install_data_loop.simps Let_def eq ..
  qed
qed

section \<open>Properties\<close>

text \<open>A file of two blocks, whose hashes are the lengths of what is hashed.\<close>

definition sample_metadata :: ZFTPFileMetadata where
  "sample_metadata = \<lparr>file_len_network_order = z_htonl 65537, flags = 0\<rparr>"

definition sample_reply :: "(u32 \<times> hash_t) list \<Rightarrow> ZFileReplyFromServer" where
  "sample_reply records = \<lparr>rp_zdp = (data_packet_of [])\<lparr>zdp_metadata := sample_metadata\<rparr>,
     rp_raw_records = map (\<lambda>(l, h). \<lparr>tree_location = z_htonl l, zmr_hash = h\<rparr>) records,
     rp_payload = [], rp_data_range = DataRange_empty\<rparr>"

definition sample_labels :: "nat \<Rightarrow> hash_t" where
  "sample_labels n = (if n = 0 then 40 else if n = 1 then 7 else 9)"

abbreviation sample_hash :: hash_t where
  "sample_hash \<equiv> compute_file_hash sample_env sample_metadata 40"

lemma sample_size:
  "unat (compute_tree_size (compute_tree_depth (compute_num_blocks (z_ntohl (file_len_network_order sample_metadata))))) = 3"
  by code_simp

lemma sample_merkle_labels: "merkle_labels sample_env 3 sample_labels"
  by (auto simp: merkle_labels_def sample_labels_def pair_hash_def sample_env_def)

abbreviation sample_replies :: "ZFileReplyFromServer list" where
  "sample_replies \<equiv> [sample_reply [(0, 40), (1, 7)], sample_reply [(2, 9)]]"

lemma sample_download:
  obtains f where "take_in_replies sample_env (ZCachedFile_new sample_hash) bc sample_replies = Some (f, bc)"
    and "downloading sample_env sample_labels f" and "nodes f = 3" and "metadata f = sample_metadata"
    and "\<forall>n < 3. known f n" and "\<forall>n < 3. st f n = v_validated"
proof -
  have 1: "list_all (honest_reply sample_metadata sample_labels) sample_replies"
    unfolding honest_reply_def sample_size
    by (simp add: honest_record_def Let_def sample_reply_def rp_metadata_def sample_labels_def z_ntohl_def)
  have 2: "sent [sample_reply [(0, 40), (1, 7)]] 0" "sent sample_replies 0" "sent sample_replies 1" "sent sample_replies 2"
    by (simp_all add: sent_def sample_reply_def z_ntohl_def)
  have 3: "list_all without_data sample_replies"
    by (simp add: without_data_def sample_reply_def DataRange_empty_def)
  have 4: "sample_hash = compute_file_hash sample_env sample_metadata (sample_labels 0)" by (simp add: sample_labels_def)
  note dl = honest_download [OF 4 sample_size [symmetric] sample_merkle_labels 1 2(1)]
  obtain f where f: "take_in_replies sample_env (ZCachedFile_new sample_hash) bc sample_replies = Some (f, bc)"
    using dl(1) [OF 3] by blast
  note d = dl(2) [OF f]
  have less3: "n < 3 \<longleftrightarrow> n = 0 \<or> n = 1 \<or> n = (2 :: nat)" for n by auto
  have k: "\<forall>n < 3. known f n" using d 2 unfolding less3 by auto
  then have "pair_known f 0" using d by (simp add: pair_known_def)
  then have "st f 1 = v_validated" "st f 2 = v_validated" using d by (auto simp: downloading_def settled_def numeral_2_eq_2)
  moreover have "st f 0 = v_validated" using d by (auto simp: downloading_def file_ok_def merkle_inv_def)
  ultimately have "\<forall>n < 3. st f n = v_validated" unfolding less3 by auto
  then show thesis using that f d k by blast
qed

text \<open>
  C2: Whatever replies a server sends, true or forged, the cached file keeps its invariant: the metadata and
  the root hash, once accepted, hash to the name of the file; the tree has the size that the length calls
  for; every validated pair of siblings hashes to its parent; no hash changes once it is known; and the table of
  parents to look at is empty again.
\<close>

theorem replies_keep_invariant:
  assumes "take_in_replies env (ZCachedFile_new h) bc replies = Some (f, bc')"
  shows "file_ok env f \<and> file_hash f = h"
  using take_in_replies_ok [OF file_ok_new assms] by (simp add: ZCachedFile_new_def zcf_ctor_init_def)

theorem replies_keep_invariant_witness:
  "\<exists>f bc'. take_in_replies sample_env (ZCachedFile_new sample_hash) (ZBlockCache_init None) sample_replies = Some (f, bc')
     \<and> file_ok sample_env f \<and> file_hash f = sample_hash"
  using replies_keep_invariant sample_download [of "ZBlockCache_init None"] by metis

text \<open>
  C25: A reply stops the client exactly when one of its Merkle records lies outside the tree or contradicts a
  validated hash, or when its data cannot be stored. Nothing else in taking in a reply faults: all the
  assertions about sizes, siblings, levels, states and counts in the marking and validation of hashes hold.
\<close>

theorem take_in_reply_faults:
  assumes "file_ok env f" and "install_metadata env f reply = (ir, f1)"
  shows "take_in_reply env f bc reply = None \<longleftrightarrow> ir \<noteq> FAIL
     \<and> (\<not> list_all (record_fits f1) (rp_raw_records reply)
        \<or> (\<exists>c f2. install_merkle_records env f1 reply = Some (c, f2) \<and> install_data env f2 bc reply = None))"
proof (cases "ir = FAIL")
  case True
  then show ?thesis using assms by (simp add: take_in_reply_split)
next
  case False
  note ok = install_metadata_ok [OF assms]
  have t: "take_in_reply env f bc reply = take_in_rest env (ir = NEW_DATA) f1 bc reply"
    using False assms(2) by (simp add: take_in_reply_split)
  show ?thesis
  proof (cases "list_all (record_fits f1) (rp_raw_records reply)")
    case fits: True
    obtain c1 f2 r f' where "install_merkle_records env f1 reply = Some (c1, f2)"
      "take_in_rest env (ir = NEW_DATA) f1 bc reply = (case install_data env f2 bc reply of None \<Rightarrow> None
           | Some (c2, bc') \<Rightarrow> Some (Some (ir = NEW_DATA \<or> c1 \<or> c2 \<or> r = NEW_DATA), f', bc'))"
      by (rule take_in_rest_ok [OF ok(1) ok(5) [OF False] fits, of "ir = NEW_DATA" bc])
    then show ?thesis using False fits t by (auto split: option.splits)
  next
    case nofit: False
    then show ?thesis using take_in_rest_None [OF ok(1) ok(5) [OF False] nofit] False t by simp
  qed
qed

theorem take_in_reply_faults_witness:
  "\<exists>f. take_in_replies sample_env (ZCachedFile_new sample_hash) (ZBlockCache_init None) sample_replies = Some (f, ZBlockCache_init None)
     \<and> take_in_reply sample_env f (ZBlockCache_init None) (sample_reply [(3, 0)]) = None"
proof -
  obtain f where f: "take_in_replies sample_env (ZCachedFile_new sample_hash) (ZBlockCache_init None) sample_replies = Some (f, ZBlockCache_init None)"
    "downloading sample_env sample_labels f" "nodes f = 3" by (rule sample_download)
  then have "file_ok sample_env f" "install_metadata sample_env f (sample_reply [(3, 0)]) = (NO_EFFECT, f)"
    by (simp_all add: downloading_def install_metadata_def)
  note take_in_reply_faults [OF this, of "ZBlockCache_init None"]
  moreover have "\<not> list_all (record_fits f) (rp_raw_records (sample_reply [(3, 0)]))"
    using f(3) by (simp add: record_fits_def sample_reply_def z_ntohl_def)
  ultimately show ?thesis using f(1) by auto
qed

text \<open>
  C1: The name of a file commits to its contents. Let two caches start from nothing with the same name and take in any
  two sequences of replies, true or forged, from any servers. When both have validated the hashes from a node up
  to the root, they agree on that node's hash and on the metadata, unless two different strings that were hashed on
  the two paths collide.
\<close>

theorem validated_paths_agree:
  assumes "take_in_replies env (ZCachedFile_new h) bc replies = Some (f, bc')"
    and "take_in_replies env (ZCachedFile_new h) bd replies' = Some (g, bd')"
    and "metadata_state f = v_validated" and "metadata_state g = v_validated" and "n < nodes f" and "n < nodes g"
    and "\<forall>m \<in> set (path n). st f m = v_validated \<and> st g m = v_validated"
    and "inj_on (zhash env) (path_inputs f n \<union> path_inputs g n)"
  shows "hs f n = hs g n \<and> metadata f = metadata g"
proof (rule path_agrees [OF _ assms(3) _ assms(4) _ assms(5-8)])
  show "file_ok env f" "file_ok env g" "file_hash f = file_hash g"
    using take_in_replies_ok [OF file_ok_new assms(1)] take_in_replies_ok [OF file_ok_new assms(2)] by simp_all
qed

theorem validated_paths_agree_witness:
  "\<exists>f g. take_in_replies sample_env (ZCachedFile_new sample_hash) (ZBlockCache_init None) sample_replies = Some (f, ZBlockCache_init None)
     \<and> take_in_replies sample_env (ZCachedFile_new sample_hash) (ZBlockCache_init (Some (\<lambda>h. None))) sample_replies = Some (g, ZBlockCache_init (Some (\<lambda>h. None)))
     \<and> hs f 2 = hs g 2 \<and> metadata f = metadata g"
proof -
  obtain f where f: "take_in_replies sample_env (ZCachedFile_new sample_hash) (ZBlockCache_init None) sample_replies = Some (f, ZBlockCache_init None)"
    "downloading sample_env sample_labels f" "nodes f = 3" "metadata f = sample_metadata" "\<forall>n < 3. known f n" "\<forall>n < 3. st f n = v_validated"
    by (rule sample_download)
  obtain g where g: "take_in_replies sample_env (ZCachedFile_new sample_hash) (ZBlockCache_init (Some (\<lambda>h. None))) sample_replies
      = Some (g, ZBlockCache_init (Some (\<lambda>h. None)))"
    "downloading sample_env sample_labels g" "nodes g = 3" "metadata g = sample_metadata" "\<forall>n < 3. known g n" "\<forall>n < 3. st g n = v_validated"
    by (rule sample_download)
  have path: "path 2 = [2, 0]" by code_simp
  have hash: "hs f n = sample_labels n" "hs g n = sample_labels n" if "n < 3" for n
    using f(2,3,5) g(2,3,5) that by (auto simp: downloading_def honest_def)
  have in_f: "path_inputs f 2 = {hash_bytes 7 @ hash_bytes 9, metadata_bytes sample_metadata @ hash_bytes 40}"
    and in_g: "path_inputs g 2 = {hash_bytes 7 @ hash_bytes 9, metadata_bytes sample_metadata @ hash_bytes 40}"
    using f(4) g(4) hash by (simp_all add: path_inputs.simps Let_def sample_labels_def numeral_2_eq_2)
  have "inj_on (zhash sample_env) (path_inputs f 2 \<union> path_inputs g 2)"
    unfolding in_f in_g by (auto simp: inj_on_def sample_env_def)
  then have "hs f 2 = hs g 2 \<and> metadata f = metadata g"
    using validated_paths_agree [OF f(1) g(1), of 2] f g path by (simp add: downloading_def)
  then show ?thesis using f(1) g(1) by blast
qed

text \<open>
  C7: An honest server gets the hashes of its file across. Let \<open>H\<close> label the Merkle tree of a file that has metadata
  \<open>m\<close>, and let every reply carry that metadata and only hashes of that tree, the first one the root's. If the replies
  carry no data, they are all accepted; nothing is said here on whether data is accepted. After any such replies, with or
  without data, that were all taken in, every pair of siblings whose hashes have been sent is validated and holds the
  true hashes.
\<close>

theorem honest_replies_validate:
  assumes "merkle_labels env (unat (compute_tree_size (compute_tree_depth
      (compute_num_blocks (z_ntohl (file_len_network_order m)))))) H"
    and "list_all (honest_reply m H) (first # replies)" and "sent [first] 0"
  shows "(list_all without_data (first # replies) \<longrightarrow>
      (\<exists>f. take_in_replies env (ZCachedFile_new (compute_file_hash env m (H 0))) bc (first # replies) = Some (f, bc)))
    \<and> (\<forall>f bc' p. take_in_replies env (ZCachedFile_new (compute_file_hash env m (H 0))) bc (first # replies) = Some (f, bc')
        \<and> 2 * p + 2 < nodes f \<and> sent (first # replies) (2 * p + 1) \<and> sent (first # replies) (2 * p + 2) \<longrightarrow>
        metadata f = m \<and> st f (2 * p + 1) = v_validated \<and> hs f (2 * p + 1) = H (2 * p + 1)
        \<and> st f (2 * p + 2) = v_validated \<and> hs f (2 * p + 2) = H (2 * p + 2))"
proof (intro conjI impI allI)
  note dl = honest_download [OF refl refl assms]
  show "\<exists>f. take_in_replies env (ZCachedFile_new (compute_file_hash env m (H 0))) bc (first # replies) = Some (f, bc)"
    if "list_all without_data (first # replies)" by (rule dl(1) [OF that])
  fix f bc' p
  assume a: "take_in_replies env (ZCachedFile_new (compute_file_hash env m (H 0))) bc (first # replies) = Some (f, bc')
        \<and> 2 * p + 2 < nodes f \<and> sent (first # replies) (2 * p + 1) \<and> sent (first # replies) (2 * p + 2)"
  then have d: "downloading env H f" "metadata f = m" "known f (2 * p + 1)" "known f (2 * p + 2)"
    using dl(2) [of bc f bc'] by auto
  then have "pair_known f p" using a by (simp add: pair_known_def)
  then show "st f (2 * p + 1) = v_validated" "st f (2 * p + 2) = v_validated"
    using d(1) by (auto simp: downloading_def settled_def)
  show "hs f (2 * p + 1) = H (2 * p + 1)" "hs f (2 * p + 2) = H (2 * p + 2)" "metadata f = m"
    using d a by (auto simp: downloading_def honest_def)
qed

theorem honest_replies_validate_witness:
  "\<exists>f. take_in_replies sample_env (ZCachedFile_new sample_hash) (ZBlockCache_init None) sample_replies = Some (f, ZBlockCache_init None)
     \<and> st f 1 = v_validated \<and> st f 2 = v_validated \<and> hs f 1 = 7 \<and> hs f 2 = 9"
proof -
  have 1: "list_all (honest_reply sample_metadata sample_labels) sample_replies"
    unfolding honest_reply_def sample_size
    by (simp add: honest_record_def Let_def sample_reply_def rp_metadata_def sample_labels_def z_ntohl_def)
  have 2: "sent [sample_reply [(0, 40), (1, 7)]] 0" "sent sample_replies (2 * 0 + 1)" "sent sample_replies (2 * 0 + 2)"
    by (simp_all add: sent_def sample_reply_def z_ntohl_def)
  have 3: "list_all without_data sample_replies"
    by (simp add: without_data_def sample_reply_def DataRange_empty_def)
  have l0: "sample_labels 0 = 40" by (simp add: sample_labels_def)
  note * = honest_replies_validate [OF _ 1 2(1), where env = sample_env and bc = "ZBlockCache_init None",
      unfolded sample_size l0, OF sample_merkle_labels]
  obtain f where f: "take_in_replies sample_env (ZCachedFile_new sample_hash) (ZBlockCache_init None) sample_replies
      = Some (f, ZBlockCache_init None)" using * 3 by blast
  moreover obtain f' where "take_in_replies sample_env (ZCachedFile_new sample_hash) (ZBlockCache_init None) sample_replies
      = Some (f', ZBlockCache_init None)" "nodes f' = 3" by (rule sample_download)
  ultimately have "2 * 0 + 2 < nodes f" by simp
  with * f 2(2,3) have "st f (2 * 0 + 1) = v_validated \<and> hs f (2 * 0 + 1) = sample_labels (2 * 0 + 1)
      \<and> st f (2 * 0 + 2) = v_validated \<and> hs f (2 * 0 + 2) = sample_labels (2 * 0 + 2)" by blast
  then have "st f 1 = v_validated \<and> st f 2 = v_validated \<and> hs f 1 = 7 \<and> hs f 2 = 9"
    by (simp add: sample_labels_def numeral_2_eq_2)
  then show ?thesis using f by blast
qed

text \<open>
  C26: A hash can be validated without a path to the root. \<open>_validate_children\<close> compares a pair of siblings with
  their parent's hash but not that the parent is validated, and the parent's hash may have been inferred from
  that very pair. So, below a node that is not known yet, any two hashes sent by anybody are marked
  validated at once.
\<close>

theorem forged_pair_validated:
  assumes "file_ok env f" and "metadata_state f = v_validated" and "2 * q + 2 < nodes f"
    and "\<not> known f q" and "\<not> known f (2 * q + 1)" and "\<not> known f (2 * q + 2)"
    and "rp_raw_records reply = [\<lparr>tree_location = z_htonl (of_nat (2 * q + 1)), zmr_hash = a\<rparr>,
      \<lparr>tree_location = z_htonl (of_nat (2 * q + 2)), zmr_hash = b\<rparr>]"
    and "without_data reply"
  shows "\<exists>r f'. take_in_reply env f bc reply = Some (r, f', bc)
    \<and> st f' (2 * q + 1) = v_validated \<and> hs f' (2 * q + 1) = a
    \<and> st f' (2 * q + 2) = v_validated \<and> hs f' (2 * q + 2) = b"
proof -
  have inv: "merkle_inv env None f" by (rule file_ok_inv [OF assms(1,2)])
  have small: "2 * q + 2 < 2 ^ 32" using assms(3) inv tree_sized_nodes(2) [of f] by (simp add: merkle_inv_def)
  then have u: "unat (of_nat (2 * q + 1) :: u32) = 2 * q + 1" "unat (of_nat (2 * q + 2) :: u32) = 2 * q + 2"
    "unat (of_nat q :: u32) = q" by (intro unat_of_nat_u32; simp)+
  have fits: "list_all (record_fits f) (rp_raw_records reply)"
    using assms(3,5,6) u(1,2) unfolding assms(7) by (simp add: record_fits_def z_ntohl_def known_def)
  obtain f1 where f1: "install_merkle_records env f reply = Some (True, f1)" "hs f1 (2 * q + 1) = a" "hs f1 (2 * q + 2) = b"
      "pair_matches env f1 q"
    by (rule forged_pair_installed [OF inv assms(3-7)])
  show ?thesis
  proof (rule take_in_rest_ok [OF assms(1,2) fits, of False bc])
    fix c1 f2 r f'
    assume r: "install_merkle_records env f reply = Some (c1, f2)" "completes f f2"
      "\<forall>zmr \<in> set (rp_raw_records reply). known f2 (unat (z_ntohl (tree_location zmr)))"
      "\<And>n. n < nodes f \<Longrightarrow> hs f' n = hs f2 n"
      and new: "\<And>p. p \<in># ht_data (parents_of_tentative_nodes f2) \<Longrightarrow> pair_matches env f2 (unat p) \<Longrightarrow>
           st f' (2 * unat p + 1) = v_validated \<and> st f' (2 * unat p + 2) = v_validated"
      and rest: "take_in_rest env False f bc reply = (case install_data env f2 bc reply of None \<Rightarrow> None
           | Some (c2, bc') \<Rightarrow> Some (Some (False \<or> c1 \<or> c2 \<or> r = NEW_DATA), f', bc'))"
    have eq: "f2 = f1" using r(1) f1(1) by simp
    have "known f2 (2 * q + 1)" "known f2 (2 * q + 2)"
      using r(3) u(1,2) unfolding assms(7) by (simp_all add: z_ntohl_def)
    then have "of_nat q \<in># ht_data (parents_of_tentative_nodes f2)"
      using r(2) assms(3,5) unfolding completes_def by blast
    then have "st f' (2 * q + 1) = v_validated \<and> st f' (2 * q + 2) = v_validated"
      using new [of "of_nat q"] f1(4) eq u(3) by simp
    then show ?thesis
      using r(4) f1(2,3) eq assms(3) rest install_data_without [OF assms(8), of env f2 bc]
      by (simp add: take_in_reply_known [OF assms(2)])
  qed
qed

text \<open>A file of four blocks of which only the root hash has come.\<close>

definition deep_reply :: ZFileReplyFromServer where
  "deep_reply = (sample_reply [(0, 40)])
     \<lparr>rp_zdp := (data_packet_of [])\<lparr>zdp_metadata := \<lparr>file_len_network_order = z_htonl 0x30001, flags = 0\<rparr>\<rparr>\<rparr>"

definition deep_file :: ZCachedFile where
  "deep_file = snd (install_metadata sample_env (ZCachedFile_new (compute_file_hash sample_env (rp_metadata deep_reply) 40)) deep_reply)"

lemma deep_file_facts:
  shows "file_ok sample_env deep_file" and "metadata_state deep_file = v_validated" and "nodes deep_file = 7"
    and "0 < k \<Longrightarrow> k < 7 \<Longrightarrow> \<not> known deep_file k"
proof -
  let ?m = "rp_metadata deep_reply"
  let ?f = "(ZCachedFile_new (compute_file_hash sample_env ?m 40))\<lparr>metadata := ?m\<rparr>"
  have "find_root_merkle_record deep_reply = Some \<lparr>tree_location = z_htonl 0, zmr_hash = 40\<rparr>"
    by (simp add: find_root_merkle_record_def deep_reply_def sample_reply_def z_ntohl_def)
  then have eq: "deep_file = tree_set (configure_from_metadata ?f) 0 \<lparr>vmr_hash = 40, vmr_state = v_validated\<rparr>"
    by (simp add: deep_file_def install_metadata_def) (simp add: ZCachedFile_new_def zcf_ctor_init_def Let_def)
  have base: "\<not> is_origin ?f" "ht_ready vmr_hash_func vmr_cmp_func (parents_of_tentative_nodes ?f)"
    "ht_data (parents_of_tentative_nodes ?f) = {#}"
    using file_ok_new [of sample_env] by (simp_all add: file_ok_def)
  note conf = configured_tree(1) [OF base, where env = sample_env and root = 40, folded eq]
    configured_tree(2-) [OF base, where root = 40, folded eq]
  show "file_ok sample_env deep_file"
    unfolding deep_file_def by (rule install_metadata_ok(1) [OF file_ok_new surjective_pairing])
  have "unat (compute_tree_size (compute_tree_depth (compute_num_blocks (z_ntohl (z_htonl 0x30001))))) = 7" by code_simp
  then show n: "nodes deep_file = 7"
    using conf(1,6,7,8) by (simp add: merkle_inv_def tree_sized_def get_filelen_def deep_reply_def rp_metadata_def)
  show "metadata_state deep_file = v_validated" by (rule conf(4))
  show "\<not> known deep_file k" if "0 < k" "k < 7" using conf(3) n that by simp
qed

theorem forged_pair_validated_witness:
  "\<exists>r f'. take_in_reply sample_env deep_file (ZBlockCache_init None) (sample_reply [(3, 0xbad), (4, 0xbad)])
       = Some (r, f', ZBlockCache_init None) \<and> st f' 3 = v_validated \<and> hs f' 3 = 0xbad"
proof -
  have "\<exists>r f'. take_in_reply sample_env deep_file (ZBlockCache_init None) (sample_reply [(3, 0xbad), (4, 0xbad)])
      = Some (r, f', ZBlockCache_init None)
    \<and> st f' (2 * 1 + 1) = v_validated \<and> hs f' (2 * 1 + 1) = 0xbad
    \<and> st f' (2 * 1 + 2) = v_validated \<and> hs f' (2 * 1 + 2) = 0xbad"
  proof (rule forged_pair_validated [OF deep_file_facts(1,2)])
    show "without_data (sample_reply [(3, 0xbad), (4, 0xbad)])"
      by (simp add: without_data_def sample_reply_def DataRange_empty_def)
    show "rp_raw_records (sample_reply [(3, 0xbad), (4, 0xbad)]) =
      [\<lparr>tree_location = z_htonl (of_nat (2 * 1 + 1)), zmr_hash = 0xbad\<rparr>,
       \<lparr>tree_location = z_htonl (of_nat (2 * 1 + 2)), zmr_hash = 0xbad\<rparr>]"
      by (simp add: sample_reply_def)
  qed (use deep_file_facts(3,4) in simp_all)
  then show ?thesis by (auto simp: numeral_3_eq_3)
qed

text \<open>
  C24: Storing the data of a reply ends within 65537 rounds of its loop, whatever range the reply claims. The
  outcome that stands for unfinished rounds is arbitrary, and no choice of it and no larger number of rounds changes
  the result: the loop has ended before, with its data stored or at an assertion.
\<close>

theorem install_data_terminates:
  assumes "file_ok env f" and "metadata_state f = v_validated" and "65537 \<le> rounds"
  shows "install_data_loop unfinished rounds env f reply (dr_start (rp_data_range reply)) False bc = install_data env f bc reply"
proof -
  have "unat (num_blocks f) \<le> 65535" using assms(1,2) compute_num_blocks_bound by (auto simp: file_ok_def)
  then show ?thesis
    unfolding install_data_def by (rule install_data_loop_fuel) (use assms(3) in simp_all)
qed

theorem install_data_terminates_witness:
  "install_data_loop (Some (True, ZBlockCache_init None)) 100000 sample_env deep_file deep_reply 0 False (ZBlockCache_init None)
     = install_data sample_env deep_file (ZBlockCache_init None) deep_reply"
proof -
  have "dr_start (rp_data_range deep_reply) = 0" by (simp add: deep_reply_def sample_reply_def DataRange_empty_def)
  moreover have "(65537 :: nat) \<le> 100000" by simp
  ultimately show ?thesis
    using install_data_terminates [OF deep_file_facts(1,2), of 100000 "Some (True, ZBlockCache_init None)" deep_reply
        "ZBlockCache_init None"]
    by metis
qed

end
