(* ===== verification/Avl_Tree.thy ===== *)
theory Avl_Tree
  imports Zoog_Prelude
begin

text \<open>
  The AVL tree of \<^verbatim>\<open>common/utils/avl2.h\<close> and \<^verbatim>\<open>common/utils/avl2logic.h\<close>.

  A node of the source has a parent pointer.  Here a pointer to a node is a position in the tree:
  the subtree below the node together with the list of its ancestors, nearest first, each with the
  link through which the position was reached (\<^verbatim>\<open>LeftOf\<close> or \<^verbatim>\<open>RightOf\<close>), its own fields and its other
  subtree.  Following \<^verbatim>\<open>getParent\<close> drops the first ancestor, and the assignments that relink a rotated
  subtree into its parent or into the root are the function \<^verbatim>\<open>root_of\<close>.  The element class is a type
  variable; its \<^verbatim>\<open>getKey\<close> is an argument \<open>key\<close> into a linear order.  Allocation succeeds, and the
  mutex of the tree makes each operation atomic.

  The lemmas show that no assertion of the library fails, that every operation keeps the balance
  fields exact and the keys in order, and that the operations are those of a sorted list.
\<close>

section \<open>Data\<close>

datatype AVLBalance = AVLNew | AVLLeft | AVLBalanced | AVLRight

datatype 'e avl_node =
    Null
  | Node (getLeft: "'e avl_node") (getElement: 'e) (getBalance: AVLBalance) (getRight: "'e avl_node")

datatype 'e avl_parent =
    LeftOf 'e AVLBalance "'e avl_node"
  | RightOf 'e AVLBalance "'e avl_node"

type_synonym 'e position = "'e avl_node \<times> 'e avl_parent list"

record 'e avl_tree =
  root :: "'e avl_node"
  insertions :: u32
  deletions :: u32
  singleRotations :: u32
  doubleRotations :: u32

definition AVLTree_new :: "'e avl_tree" where
  "AVLTree_new = \<lparr>root = Null, insertions = 0, deletions = 0, singleRotations = 0, doubleRotations = 0\<rparr>"

primrec set_child :: "'e avl_parent \<Rightarrow> 'e avl_node \<Rightarrow> 'e avl_node" where
  "set_child (LeftOf e b r) n = Node n e b r"
| "set_child (RightOf e b l) n = Node l e b n"

primrec root_of :: "'e avl_node \<Rightarrow> 'e avl_parent list \<Rightarrow> 'e avl_node" where
  "root_of n [] = n"
| "root_of n (p # ps) = root_of (set_child p n) ps"

section \<open>Searching\<close>

fun findFirstLessThan_node ::
    "('e \<Rightarrow> 'k::linorder) \<Rightarrow> 'k \<Rightarrow> 'e avl_node \<Rightarrow> 'e avl_parent list \<Rightarrow> 'e position option" where
  "findFirstLessThan_node key k Null ps = None"
| "findFirstLessThan_node key k (Node l e b r) ps =
     (if key e < k then
        (case findFirstLessThan_node key k r (RightOf e b l # ps) of
           None \<Rightarrow> Some (Node l e b r, ps)
         | Some retVal \<Rightarrow> Some retVal)
      else findFirstLessThan_node key k l (LeftOf e b r # ps))"

fun findFirstLessThanOrEqualTo_node ::
    "('e \<Rightarrow> 'k::linorder) \<Rightarrow> 'k \<Rightarrow> 'e avl_node \<Rightarrow> 'e avl_parent list \<Rightarrow> 'e position option" where
  "findFirstLessThanOrEqualTo_node key k Null ps = None"
| "findFirstLessThanOrEqualTo_node key k (Node l e b r) ps =
     (if key e = k then Some (Node l e b r, ps)
      else if key e < k then
        (case findFirstLessThanOrEqualTo_node key k r (RightOf e b l # ps) of
           None \<Rightarrow> Some (Node l e b r, ps)
         | Some retVal \<Rightarrow> Some retVal)
      else findFirstLessThanOrEqualTo_node key k l (LeftOf e b r # ps))"

fun findFirstGreaterThan_node ::
    "('e \<Rightarrow> 'k::linorder) \<Rightarrow> 'k \<Rightarrow> 'e avl_node \<Rightarrow> 'e avl_parent list \<Rightarrow> 'e position option" where
  "findFirstGreaterThan_node key k Null ps = None"
| "findFirstGreaterThan_node key k (Node l e b r) ps =
     (if key e > k then
        (case findFirstGreaterThan_node key k l (LeftOf e b r # ps) of
           None \<Rightarrow> Some (Node l e b r, ps)
         | Some retVal \<Rightarrow> Some retVal)
      else findFirstGreaterThan_node key k r (RightOf e b l # ps))"

fun findFirstGreaterThanOrEqualTo_node ::
    "('e \<Rightarrow> 'k::linorder) \<Rightarrow> 'k \<Rightarrow> 'e avl_node \<Rightarrow> 'e avl_parent list \<Rightarrow> 'e position option" where
  "findFirstGreaterThanOrEqualTo_node key k Null ps = None"
| "findFirstGreaterThanOrEqualTo_node key k (Node l e b r) ps =
     (if key e = k then Some (Node l e b r, ps)
      else if key e > k then
        (case findFirstGreaterThanOrEqualTo_node key k l (LeftOf e b r # ps) of
           None \<Rightarrow> Some (Node l e b r, ps)
         | Some retVal \<Rightarrow> Some retVal)
      else findFirstGreaterThanOrEqualTo_node key k r (RightOf e b l # ps))"

definition element_at :: "'e position option \<Rightarrow> 'e option" where
  "element_at p = map_option (\<lambda>(n, ps). getElement n) p"

definition findFirstLessThan :: "('e \<Rightarrow> 'k::linorder) \<Rightarrow> 'e avl_tree \<Rightarrow> 'k \<Rightarrow> 'e option" where
  "findFirstLessThan key t k = element_at (findFirstLessThan_node key k (root t) [])"

definition findFirstLessThanOrEqualTo :: "('e \<Rightarrow> 'k::linorder) \<Rightarrow> 'e avl_tree \<Rightarrow> 'k \<Rightarrow> 'e option" where
  "findFirstLessThanOrEqualTo key t k = element_at (findFirstLessThanOrEqualTo_node key k (root t) [])"

definition findFirstGreaterThan :: "('e \<Rightarrow> 'k::linorder) \<Rightarrow> 'e avl_tree \<Rightarrow> 'k \<Rightarrow> 'e option" where
  "findFirstGreaterThan key t k = element_at (findFirstGreaterThan_node key k (root t) [])"

definition findFirstGreaterThanOrEqualTo :: "('e \<Rightarrow> 'k::linorder) \<Rightarrow> 'e avl_tree \<Rightarrow> 'k \<Rightarrow> 'e option" where
  "findFirstGreaterThanOrEqualTo key t k =
     element_at (findFirstGreaterThanOrEqualTo_node key k (root t) [])"

definition avl_lookup :: "('e \<Rightarrow> 'k::linorder) \<Rightarrow> 'e avl_tree \<Rightarrow> 'k \<Rightarrow> 'e option" where
  "avl_lookup key t k =
     (case findFirstLessThanOrEqualTo key t k of
        Some e \<Rightarrow> if key e = k then Some e else None
      | None \<Rightarrow> None)"

text \<open>\<^verbatim>\<open>findMin\<close> and \<^verbatim>\<open>findMax\<close> assert the order of the keys they pass.\<close>

fun findMin_node :: "('e \<Rightarrow> 'k::linorder) \<Rightarrow> 'e avl_node \<Rightarrow> 'e option" where
  "findMin_node key Null = None"
| "findMin_node key (Node Null e b r) = Some e"
| "findMin_node key (Node (Node ll le lb lr) e b r) =
     do { lite_assert (key le \<le> key e); findMin_node key (Node ll le lb lr) }"

definition findMin :: "('e \<Rightarrow> 'k::linorder) \<Rightarrow> 'e avl_tree \<Rightarrow> 'e option option" where
  "findMin key t = (if root t = Null then Some None else map_option Some (findMin_node key (root t)))"

fun findMax_node :: "('e \<Rightarrow> 'k::linorder) \<Rightarrow> 'e avl_node \<Rightarrow> 'e option" where
  "findMax_node key Null = None"
| "findMax_node key (Node l e b Null) = Some e"
| "findMax_node key (Node l e b (Node rl re rb rr)) =
     do { lite_assert (key re \<ge> key e); findMax_node key (Node rl re rb rr) }"

definition findMax :: "('e \<Rightarrow> 'k::linorder) \<Rightarrow> 'e avl_tree \<Rightarrow> 'e option option" where
  "findMax key t = (if root t = Null then Some None else map_option Some (findMax_node key (root t)))"

definition avl_empty :: "'e avl_tree \<Rightarrow> bool option" where
  "avl_empty t = do {
     lite_assert ((root t = Null) = (insertions t = deletions t));
     Some (root t = Null) }"

definition avl_size :: "'e avl_tree \<Rightarrow> u32 option" where
  "avl_size t = do {
     lite_assert (insertions t \<ge> deletions t);
     lite_assert ((root t = Null) = (insertions t = deletions t));
     Some (insertions t - deletions t) }"

section \<open>Rotations\<close>

text \<open>The result is the subtree that takes the place of \<^verbatim>\<open>self\<close>.\<close>

fun singleRotate_node :: "AVLBalance \<Rightarrow> 'e avl_node \<Rightarrow> 'e avl_node option" where
  "singleRotate_node AVLRight (Node alpha self b (Node beta child cb gamma)) =
     Some (Node (Node alpha self AVLBalanced beta) child AVLBalanced gamma)"
| "singleRotate_node AVLLeft (Node (Node gamma child cb beta) self b alpha) =
     Some (Node gamma child AVLBalanced (Node beta self AVLBalanced alpha))"
| "singleRotate_node whichSide n = None"

definition singleRotate ::
    "'e avl_node \<Rightarrow> 'e avl_tree \<Rightarrow> AVLBalance \<Rightarrow> ('e avl_node \<times> 'e avl_tree) option" where
  "singleRotate self t whichSide = do {
     n \<leftarrow> singleRotate_node whichSide self;
     Some (n, t\<lparr>singleRotations := singleRotations t + 1\<rparr>) }"

definition double_balances :: "AVLBalance \<Rightarrow> AVLBalance \<Rightarrow> (AVLBalance \<times> AVLBalance) option" where
  "double_balances whichSide grandchild =
     (case grandchild of
        AVLLeft \<Rightarrow> Some (if whichSide = AVLRight then (AVLBalanced, AVLRight) else (AVLRight, AVLBalanced))
      | AVLBalanced \<Rightarrow> Some (AVLBalanced, AVLBalanced)
      | AVLRight \<Rightarrow> Some (if whichSide = AVLRight then (AVLLeft, AVLBalanced) else (AVLBalanced, AVLLeft))
      | AVLNew \<Rightarrow> None)"

fun doubleRotate_node :: "AVLBalance \<Rightarrow> 'e avl_node \<Rightarrow> 'e avl_node option" where
  "doubleRotate_node AVLRight
       (Node alpha self b (Node (Node beta grandchild gb gamma) child cb delta)) = do {
     lite_assert (cb = AVLLeft);
     (sb', cb') \<leftarrow> double_balances AVLRight gb;
     Some (Node (Node alpha self sb' beta) grandchild AVLBalanced (Node gamma child cb' delta)) }"
| "doubleRotate_node AVLLeft
       (Node (Node delta child cb (Node gamma grandchild gb beta)) self b alpha) = do {
     lite_assert (cb = AVLRight);
     (sb', cb') \<leftarrow> double_balances AVLLeft gb;
     Some (Node (Node delta child cb' gamma) grandchild AVLBalanced (Node beta self sb' alpha)) }"
| "doubleRotate_node whichSide n = None"

definition doubleRotate ::
    "'e avl_node \<Rightarrow> 'e avl_tree \<Rightarrow> AVLBalance \<Rightarrow> ('e avl_node \<times> 'e avl_tree) option" where
  "doubleRotate self t whichSide = do {
     n \<leftarrow> doubleRotate_node whichSide self;
     Some (n, t\<lparr>doubleRotations := doubleRotations t + 1\<rparr>) }"

definition promote :: "'e avl_parent list \<Rightarrow> 'e avl_node \<times> 'e avl_tree \<Rightarrow> 'e avl_tree" where
  "promote ps = (\<lambda>(n, t). t\<lparr>root := root_of n ps\<rparr>)"

section \<open>Insertion\<close>

fun rightAdded :: "'e avl_node \<Rightarrow> 'e avl_parent list \<Rightarrow> 'e avl_tree \<Rightarrow> 'e avl_tree option"
  and leftAdded :: "'e avl_node \<Rightarrow> 'e avl_parent list \<Rightarrow> 'e avl_tree \<Rightarrow> 'e avl_tree option" where
  "rightAdded Null ps t = None"
| "rightAdded (Node l e b r) ps t = do {
     lite_assert (b \<noteq> AVLNew);
     if b = AVLLeft then Some (t\<lparr>root := root_of (Node l e AVLBalanced r) ps\<rparr>)
     else if b = AVLBalanced then
       (case ps of
          [] \<Rightarrow> Some (t\<lparr>root := Node l e AVLRight r\<rparr>)
        | RightOf pe pb pl # qs \<Rightarrow> rightAdded (Node pl pe pb (Node l e AVLRight r)) qs t
        | LeftOf pe pb pr # qs \<Rightarrow> leftAdded (Node (Node l e AVLRight r) pe pb pr) qs t)
     else do {
       lite_assert (r \<noteq> Null);
       if getBalance r = AVLRight then map_option (promote ps) (singleRotate (Node l e b r) t AVLRight)
       else do {
         lite_assert (getBalance r = AVLLeft);
         map_option (promote ps) (doubleRotate (Node l e b r) t AVLRight) } } }"
| "leftAdded Null ps t = None"
| "leftAdded (Node l e b r) ps t = do {
     lite_assert (b \<noteq> AVLNew);
     if b = AVLRight then Some (t\<lparr>root := root_of (Node l e AVLBalanced r) ps\<rparr>)
     else if b = AVLBalanced then
       (case ps of
          [] \<Rightarrow> Some (t\<lparr>root := Node l e AVLLeft r\<rparr>)
        | RightOf pe pb pl # qs \<Rightarrow> rightAdded (Node pl pe pb (Node l e AVLLeft r)) qs t
        | LeftOf pe pb pr # qs \<Rightarrow> leftAdded (Node (Node l e AVLLeft r) pe pb pr) qs t)
     else do {
       lite_assert (l \<noteq> Null);
       if getBalance l = AVLLeft then map_option (promote ps) (singleRotate (Node l e b r) t AVLLeft)
       else do {
         lite_assert (getBalance l = AVLRight);
         map_option (promote ps) (doubleRotate (Node l e b r) t AVLLeft) } } }"

declare rightAdded.simps [simp del] leftAdded.simps [simp del]

fun insert_position ::
    "('e \<Rightarrow> 'k::linorder) \<Rightarrow> 'k \<Rightarrow> 'e avl_node \<Rightarrow> 'e avl_parent list \<Rightarrow> 'e avl_parent list option" where
  "insert_position key k Null ps = Some ps"
| "insert_position key k (Node l e b r) ps =
     (if key e < k then insert_position key k r (RightOf e b l # ps)
      else do {
        lite_assert (key e > k);
        insert_position key k l (LeftOf e b r # ps) })"

definition avl_node_insert :: "('e \<Rightarrow> 'k::linorder) \<Rightarrow> 'e avl_tree \<Rightarrow> 'e \<Rightarrow> 'e avl_tree option" where
  "avl_node_insert key intoTree element = do {
     let self = Node Null element AVLBalanced Null;
     let intoTree = intoTree\<lparr>insertions := insertions intoTree + 1\<rparr>;
     if root intoTree = Null then Some (intoTree\<lparr>root := self\<rparr>)
     else do {
       ps \<leftarrow> insert_position key (key element) (root intoTree) [];
       (case ps of
          [] \<Rightarrow> None
        | RightOf pe pb pl # qs \<Rightarrow> rightAdded (Node pl pe pb self) qs intoTree
        | LeftOf pe pb pr # qs \<Rightarrow> leftAdded (Node self pe pb pr) qs intoTree) } }"

definition avl_insert :: "('e \<Rightarrow> 'k::linorder) \<Rightarrow> 'e avl_tree \<Rightarrow> 'e \<Rightarrow> 'e avl_tree option" where
  "avl_insert key t element = avl_node_insert key t element"

section \<open>Removal\<close>

text \<open>
  The balances that \<^verbatim>\<open>gotOneShorter\<close> corrects after a single rotation at a balanced heavy child.
\<close>

fun reset_balances :: "AVLBalance \<Rightarrow> AVLBalance \<Rightarrow> 'e avl_node \<Rightarrow> 'e avl_node" where
  "reset_balances AVLRight whichSide (Node (Node alpha self sb beta) child cb gamma) =
     Node (Node alpha self AVLRight beta) child whichSide gamma"
| "reset_balances AVLLeft whichSide (Node gamma child cb (Node beta self sb alpha)) =
     Node gamma child whichSide (Node beta self AVLLeft alpha)"
| "reset_balances heavySide whichSide n = n"

text \<open>
  One round of \<^verbatim>\<open>gotOneShorter\<close>: the subtree that is now in the place of \<^verbatim>\<open>self\<close>, and whether its depth
  has changed, so that the routine goes on at the parent.
\<close>

fun shrink_node :: "'e avl_node \<Rightarrow> 'e avl_tree \<Rightarrow> AVLBalance \<Rightarrow> ('e avl_node \<times> 'e avl_tree \<times> bool) option" where
  "shrink_node Null t whichSide = None"
| "shrink_node (Node l e b r) t whichSide = do {
     lite_assert (whichSide = AVLLeft \<or> whichSide = AVLRight);
     if b = AVLBalanced then
       Some (Node l e (if whichSide = AVLRight then AVLLeft else AVLRight) r, t, False)
     else if b = whichSide then Some (Node l e AVLBalanced r, t, True)
     else do {
       let heavySide = (if whichSide = AVLRight then AVLLeft else AVLRight);
       let heavyChild = (if whichSide = AVLRight then l else r);
       lite_assert (heavyChild \<noteq> Null);
       if getBalance heavyChild = heavySide then do {
         (replacement, t) \<leftarrow> singleRotate (Node l e b r) t heavySide;
         Some (replacement, t, True) }
       else if getBalance heavyChild = whichSide then do {
         (replacement, t) \<leftarrow> doubleRotate (Node l e b r) t heavySide;
         Some (replacement, t, True) }
       else do {
         lite_assert (getBalance heavyChild = AVLBalanced);
         (n, t) \<leftarrow> singleRotate (Node l e b r) t heavySide;
         Some (reset_balances heavySide whichSide n, t, False) } } }"

fun gotOneShorter ::
    "'e avl_node \<Rightarrow> 'e avl_parent list \<Rightarrow> 'e avl_tree \<Rightarrow> AVLBalance \<Rightarrow> 'e avl_tree option" where
  "gotOneShorter self ps t whichSide =
     (case shrink_node self t whichSide of
        None \<Rightarrow> None
      | Some (n, t, shorter) \<Rightarrow>
          if shorter then
            (case ps of
               [] \<Rightarrow> Some (t\<lparr>root := n\<rparr>)
             | RightOf pe pb pl # qs \<Rightarrow> gotOneShorter (Node pl pe pb n) qs t AVLRight
             | LeftOf pe pb pr # qs \<Rightarrow> gotOneShorter (Node n pe pb pr) qs t AVLLeft)
          else Some (t\<lparr>root := root_of n ps\<rparr>))"

declare gotOneShorter.simps [simp del]

definition shorter_at :: "'e avl_node \<Rightarrow> 'e avl_parent list \<Rightarrow> 'e avl_tree \<Rightarrow> 'e avl_tree option" where
  "shorter_at n ps t =
     (case ps of
        [] \<Rightarrow> Some (t\<lparr>root := n\<rparr>)
      | RightOf pe pb pl # qs \<Rightarrow> gotOneShorter (Node pl pe pb n) qs t AVLRight
      | LeftOf pe pb pr # qs \<Rightarrow> gotOneShorter (Node n pe pb pr) qs t AVLLeft)"

fun successor :: "'e avl_node \<Rightarrow> 'e avl_parent list \<Rightarrow> 'e position" where
  "successor (Node l e b r) ps =
     (if l = Null then (Node l e b r, ps) else successor l (LeftOf e b r # ps))"
| "successor Null ps = (Null, ps)"

definition childless :: "'e avl_node \<Rightarrow> bool" where
  "childless n \<longleftrightarrow> n \<noteq> Null \<and> getBalance n = AVLBalanced \<and> getRight n = Null \<and> getLeft n = Null"

fun avl_node_remove :: "'e avl_node \<Rightarrow> 'e avl_parent list \<Rightarrow> 'e avl_tree \<Rightarrow> 'e avl_tree option" where
  "avl_node_remove Null ps t = None"
| "avl_node_remove (Node l e b r) ps t = do {
     lite_assert (b = AVLRight \<or> b = AVLLeft \<or> b = AVLBalanced);
     let t = t\<lparr>deletions := deletions t + 1\<rparr>;
     if l = Null then do {
       lite_assert (r = Null \<and> b = AVLBalanced \<or> b = AVLRight \<and> childless r);
       shorter_at r ps t }
     else if r = Null then do {
       lite_assert (b = AVLLeft \<and> childless l);
       shorter_at l ps t }
     else
       (case successor r [] of
          (Node sl se sb sr, LeftOf pe pb pr # qs) \<Rightarrow>
            gotOneShorter (Node sr pe pb pr) (qs @ RightOf se b l # ps) t AVLLeft
        | (Node sl se sb sr, []) \<Rightarrow> gotOneShorter (Node l se b sr) ps t AVLRight
        | _ \<Rightarrow> None) }"

declare avl_node_remove.simps [simp del]

definition avl_remove :: "('e \<Rightarrow> 'k::linorder) \<Rightarrow> 'e avl_tree \<Rightarrow> 'e \<Rightarrow> 'e avl_tree option" where
  "avl_remove key t element = do {
     lite_assert (root t \<noteq> Null);
     (candidate, ps) \<leftarrow> findFirstLessThanOrEqualTo_node key (key element) (root t) [];
     lite_assert (key (getElement candidate) = key element);
     avl_node_remove candidate ps t }"

definition avl_remove_key ::
    "('e \<Rightarrow> 'k::linorder) \<Rightarrow> 'e avl_tree \<Rightarrow> 'k \<Rightarrow> ('e option \<times> 'e avl_tree) option" where
  "avl_remove_key key t k =
     (case findFirstLessThanOrEqualTo_node key k (root t) [] of
        None \<Rightarrow> Some (None, t)
      | Some (candidate, ps) \<Rightarrow>
          if key (getElement candidate) = k then do {
            t' \<leftarrow> avl_node_remove candidate ps t;
            Some (Some (getElement candidate), t') }
          else Some (None, t))"

section \<open>Checking\<close>

fun checkAndReturnDepth :: "('e \<Rightarrow> 'k::linorder) \<Rightarrow> 'e avl_node \<Rightarrow> u32 \<Rightarrow> (u32 \<times> u32) option" where
  "checkAndReturnDepth key Null countedElements = Some (0, countedElements)"
| "checkAndReturnDepth key (Node l e b r) countedElements = do {
     lite_assert (b \<noteq> AVLNew);
     let countedElements = countedElements + 1;
     lite_assert (r = Null \<or> key e < key (getElement r));
     lite_assert (l = Null \<or> key e > key (getElement l));
     (leftDepth, countedElements) \<leftarrow> checkAndReturnDepth key l countedElements;
     (rightDepth, countedElements) \<leftarrow> checkAndReturnDepth key r countedElements;
     if leftDepth = rightDepth then do {
       lite_assert (b = AVLBalanced); Some (leftDepth + 1, countedElements) }
     else if leftDepth = rightDepth + 1 then do {
       lite_assert (b = AVLLeft); Some (leftDepth + 1, countedElements) }
     else if leftDepth + 1 = rightDepth then do {
       lite_assert (b = AVLRight); Some (rightDepth + 1, countedElements) }
     else None }"

text \<open>
  The depth and count checks of \<^verbatim>\<open>check\<close>. Parent links are implicit in a position, so the checks of these links, here and
  below, hold by construction; the walk that follows only compares neighbouring keys.
\<close>

definition avl_check :: "('e \<Rightarrow> 'k::linorder) \<Rightarrow> 'e avl_tree \<Rightarrow> unit option" where
  "avl_check key t = do {
     (overallDepth, countedElements) \<leftarrow> checkAndReturnDepth key (root t) 0;
     lite_assert (insertions t - deletions t = countedElements) }"

section \<open>The tree as a list\<close>

primrec inorder :: "'e avl_node \<Rightarrow> 'e list" where
  "inorder Null = []"
| "inorder (Node l e b r) = inorder l @ e # inorder r"

primrec before :: "'e avl_parent list \<Rightarrow> 'e list" where
  "before [] = []"
| "before (p # ps) = (case p of LeftOf e b r \<Rightarrow> before ps | RightOf e b l \<Rightarrow> before ps @ inorder l @ [e])"

primrec after :: "'e avl_parent list \<Rightarrow> 'e list" where
  "after [] = []"
| "after (p # ps) = (case p of LeftOf e b r \<Rightarrow> e # inorder r @ after ps | RightOf e b l \<Rightarrow> after ps)"

definition elements :: "'e avl_tree \<Rightarrow> 'e list" where
  "elements t = inorder (root t)"

lemma inorder_root_of: "inorder (root_of n ps) = before ps @ inorder n @ after ps"
  by (induction ps arbitrary: n) (auto split: avl_parent.split)

lemma inorder_Nil [simp]: "inorder n = [] \<longleftrightarrow> n = Null"
  by (cases n) auto

section \<open>Balance\<close>

primrec avl_height :: "'e avl_node \<Rightarrow> nat" where
  "avl_height Null = 0"
| "avl_height (Node l e b r) = Suc (max (avl_height l) (avl_height r))"

definition leans :: "AVLBalance \<Rightarrow> nat \<Rightarrow> nat \<Rightarrow> bool" where
  "leans b hl hr \<longleftrightarrow>
     (case b of AVLNew \<Rightarrow> False | AVLLeft \<Rightarrow> hl = Suc hr | AVLBalanced \<Rightarrow> hl = hr | AVLRight \<Rightarrow> hr = Suc hl)"

lemma leans_simps [simp]:
  "\<not> leans AVLNew hl hr"
  "leans AVLLeft hl hr \<longleftrightarrow> hl = Suc hr"
  "leans AVLBalanced hl hr \<longleftrightarrow> hl = hr"
  "leans AVLRight hl hr \<longleftrightarrow> hr = Suc hl"
  by (auto simp: leans_def)

primrec balanced :: "'e avl_node \<Rightarrow> bool" where
  "balanced Null \<longleftrightarrow> True"
| "balanced (Node l e b r) \<longleftrightarrow> balanced l \<and> balanced r \<and> leans b (avl_height l) (avl_height r)"

primrec fits :: "'e avl_parent list \<Rightarrow> nat \<Rightarrow> bool" where
  "fits [] h \<longleftrightarrow> True"
| "fits (p # ps) h \<longleftrightarrow>
     (case p of
        LeftOf e b r \<Rightarrow> balanced r \<and> leans b h (avl_height r) \<and> fits ps (Suc (max h (avl_height r)))
      | RightOf e b l \<Rightarrow> balanced l \<and> leans b (avl_height l) h \<and> fits ps (Suc (max (avl_height l) h)))"

lemma avl_height_0 [simp]: "avl_height n = 0 \<longleftrightarrow> n = Null"
  by (cases n) auto

lemma balanced_root_of: "balanced (root_of n ps) \<longleftrightarrow> balanced n \<and> fits ps (avl_height n)"
  by (induction ps arbitrary: n) (auto split: avl_parent.split)

text \<open>
  A rebuilt tree: its balance fields are exact, its elements are given, and only the root and the
  rotation counters differ from the tree before.
\<close>

definition rebuilt :: "'e avl_tree \<Rightarrow> 'e list \<Rightarrow> 'e avl_tree \<Rightarrow> bool" where
  "rebuilt t es t' \<longleftrightarrow> balanced (root t') \<and> elements t' = es
     \<and> insertions t' = insertions t \<and> deletions t' = deletions t"

definition grown :: "'e avl_node \<Rightarrow> bool" where
  "grown n \<longleftrightarrow> avl_height n = 1 \<or> n \<noteq> Null \<and> getBalance n \<noteq> AVLBalanced"

text \<open>
  The outcome of a rotation at a node whose children differ in height by two.
\<close>

definition levelled :: "'e avl_node \<Rightarrow> nat \<Rightarrow> 'e avl_tree \<Rightarrow> 'e avl_node \<Rightarrow> 'e avl_tree \<Rightarrow> bool" where
  "levelled self h t n t' \<longleftrightarrow> balanced n \<and> avl_height n = h \<and> inorder n = inorder self
     \<and> insertions t' = insertions t \<and> deletions t' = deletions t"

lemma rotate_right:
  assumes "balanced l" "balanced r" "avl_height r = Suc (Suc (avl_height l))"
  shows "getBalance r = AVLRight \<Longrightarrow> \<exists>n t'. singleRotate (Node l e b r) t AVLRight = Some (n, t')
           \<and> levelled (Node l e b r) (avl_height r) t n t'"
    and "getBalance r = AVLLeft \<Longrightarrow> \<exists>n t'. doubleRotate (Node l e b r) t AVLRight = Some (n, t')
           \<and> levelled (Node l e b r) (avl_height r) t n t'"
    and "getBalance r = AVLBalanced \<Longrightarrow> \<exists>n t'. singleRotate (Node l e b r) t AVLRight = Some (n, t')
           \<and> levelled (Node l e b r) (Suc (avl_height r)) t (reset_balances AVLRight AVLLeft n) t'"
proof -
  obtain rl re rb rr where r: "r = Node rl re rb rr" using assms(3) by (cases r) auto
  { assume "getBalance r = AVLRight"
    then show "\<exists>n t'. singleRotate (Node l e b r) t AVLRight = Some (n, t')
           \<and> levelled (Node l e b r) (avl_height r) t n t'"
      using assms by (auto simp: r singleRotate_def levelled_def) }
  { assume "getBalance r = AVLBalanced"
    then show "\<exists>n t'. singleRotate (Node l e b r) t AVLRight = Some (n, t')
           \<and> levelled (Node l e b r) (Suc (avl_height r)) t (reset_balances AVLRight AVLLeft n) t'"
      using assms by (auto simp: r singleRotate_def levelled_def) }
  { assume left: "getBalance r = AVLLeft"
    then obtain gl ge gb gr where "rl = Node gl ge gb gr" using assms by (cases rl) (auto simp: r)
    with left show "\<exists>n t'. doubleRotate (Node l e b r) t AVLRight = Some (n, t')
           \<and> levelled (Node l e b r) (avl_height r) t n t'"
      using assms by (cases gb) (auto simp: r doubleRotate_def levelled_def double_balances_def) }
qed

lemma rotate_left:
  assumes "balanced l" "balanced r" "avl_height l = Suc (Suc (avl_height r))"
  shows "getBalance l = AVLLeft \<Longrightarrow> \<exists>n t'. singleRotate (Node l e b r) t AVLLeft = Some (n, t')
           \<and> levelled (Node l e b r) (avl_height l) t n t'"
    and "getBalance l = AVLRight \<Longrightarrow> \<exists>n t'. doubleRotate (Node l e b r) t AVLLeft = Some (n, t')
           \<and> levelled (Node l e b r) (avl_height l) t n t'"
    and "getBalance l = AVLBalanced \<Longrightarrow> \<exists>n t'. singleRotate (Node l e b r) t AVLLeft = Some (n, t')
           \<and> levelled (Node l e b r) (Suc (avl_height l)) t (reset_balances AVLLeft AVLRight n) t'"
proof -
  obtain ll le lb lr where l: "l = Node ll le lb lr" using assms(3) by (cases l) auto
  { assume "getBalance l = AVLLeft"
    then show "\<exists>n t'. singleRotate (Node l e b r) t AVLLeft = Some (n, t')
           \<and> levelled (Node l e b r) (avl_height l) t n t'"
      using assms by (auto simp: l singleRotate_def levelled_def) }
  { assume "getBalance l = AVLBalanced"
    then show "\<exists>n t'. singleRotate (Node l e b r) t AVLLeft = Some (n, t')
           \<and> levelled (Node l e b r) (Suc (avl_height l)) t (reset_balances AVLLeft AVLRight n) t'"
      using assms by (auto simp: l singleRotate_def levelled_def) }
  { assume right: "getBalance l = AVLRight"
    then obtain gl ge gb gr where "lr = Node gl ge gb gr" using assms by (cases lr) (auto simp: l)
    with right show "\<exists>n t'. doubleRotate (Node l e b r) t AVLLeft = Some (n, t')
           \<and> levelled (Node l e b r) (avl_height l) t n t'"
      using assms by (cases gb) (auto simp: l doubleRotate_def levelled_def double_balances_def) }
qed

lemma rebuilt_promote:
  "levelled self h t n t' \<Longrightarrow> fits ps h
    \<Longrightarrow> rebuilt t (before ps @ inorder self @ after ps) (promote ps (n, t'))"
  by (auto simp: levelled_def rebuilt_def promote_def balanced_root_of elements_def inorder_root_of)

section \<open>Insertion keeps the balance\<close>

lemma balance_nonempty:
  "balanced n \<Longrightarrow> n \<noteq> Null
    \<Longrightarrow> getBalance n = AVLLeft \<or> getBalance n = AVLBalanced \<or> getBalance n = AVLRight"
  by (cases n; cases "getBalance n") auto

lemma rightAdded_stops:
  assumes "balanced l" "balanced r" "grown r" "avl_height r = Suc hr" "leans b (avl_height l) hr"
    "fits ps (Suc (max (avl_height l) hr))" "b \<noteq> AVLBalanced"
  shows "\<exists>t'. rightAdded (Node l e b r) ps t = Some t'
           \<and> rebuilt t (before ps @ inorder (Node l e b r) @ after ps) t'"
proof (cases b)
  case AVLRight
  then have two: "avl_height r = Suc (Suc (avl_height l))" and lop: "getBalance r \<noteq> AVLBalanced" "r \<noteq> Null"
    and fit: "fits ps (avl_height r)"
    using assms by (auto simp: grown_def)
  show ?thesis
  proof (cases "getBalance r = AVLRight")
    case True
    then show ?thesis
      using rotate_right(1) [OF assms(1,2) two, of e b t] rebuilt_promote [OF _ fit] lop AVLRight
      by (fastforce simp: rightAdded.simps)
  next
    case False
    then have "getBalance r = AVLLeft" using balance_nonempty [of r] lop assms(2) by blast
    then show ?thesis
      using rotate_right(2) [OF assms(1,2) two, of e b t] rebuilt_promote [OF _ fit] lop AVLRight
      by (fastforce simp: rightAdded.simps)
  qed
qed (use assms in \<open>auto simp: rightAdded.simps rebuilt_def elements_def inorder_root_of balanced_root_of\<close>)

lemma leftAdded_stops:
  assumes "balanced l" "balanced r" "grown l" "avl_height l = Suc hl" "leans b hl (avl_height r)"
    "fits ps (Suc (max hl (avl_height r)))" "b \<noteq> AVLBalanced"
  shows "\<exists>t'. leftAdded (Node l e b r) ps t = Some t'
           \<and> rebuilt t (before ps @ inorder (Node l e b r) @ after ps) t'"
proof (cases b)
  case AVLLeft
  then have two: "avl_height l = Suc (Suc (avl_height r))" and lop: "getBalance l \<noteq> AVLBalanced" "l \<noteq> Null"
    and fit: "fits ps (avl_height l)"
    using assms by (auto simp: grown_def)
  show ?thesis
  proof (cases "getBalance l = AVLLeft")
    case True
    then show ?thesis
      using rotate_left(1) [OF assms(1,2) two, of e b t] rebuilt_promote [OF _ fit] lop AVLLeft
      by (fastforce simp: leftAdded.simps)
  next
    case False
    then have "getBalance l = AVLRight" using balance_nonempty [of l] lop assms(1) by blast
    then show ?thesis
      using rotate_left(2) [OF assms(1,2) two, of e b t] rebuilt_promote [OF _ fit] lop AVLLeft
      by (fastforce simp: leftAdded.simps)
  qed
qed (use assms in \<open>auto simp: leftAdded.simps rebuilt_def elements_def inorder_root_of balanced_root_of\<close>)

lemma added_ok:
  "balanced l \<Longrightarrow> balanced r \<Longrightarrow> grown r \<Longrightarrow> avl_height r = Suc hr \<Longrightarrow> leans b (avl_height l) hr
    \<Longrightarrow> fits ps (Suc (max (avl_height l) hr))
    \<Longrightarrow> \<exists>t'. rightAdded (Node l e b r) ps t = Some t'
          \<and> rebuilt t (before ps @ inorder (Node l e b r) @ after ps) t'"
  "balanced l \<Longrightarrow> balanced r \<Longrightarrow> grown l \<Longrightarrow> avl_height l = Suc hl \<Longrightarrow> leans b hl (avl_height r)
    \<Longrightarrow> fits ps (Suc (max hl (avl_height r)))
    \<Longrightarrow> \<exists>t'. leftAdded (Node l e b r) ps t = Some t'
          \<and> rebuilt t (before ps @ inorder (Node l e b r) @ after ps) t'"
proof (induction ps arbitrary: l e b r hr hl)
  case Nil
  { case 1
    then show ?case using rightAdded_stops [OF 1]
      by (cases "b = AVLBalanced") (auto simp: rightAdded.simps rebuilt_def elements_def) }
  { case 2
    then show ?case using leftAdded_stops [OF 2]
      by (cases "b = AVLBalanced") (auto simp: leftAdded.simps rebuilt_def elements_def) }
next
  case (Cons p ps)
  { case 1
    show ?case
    proof (cases "b = AVLBalanced")
      case True
      define n where "n = Node l e AVLRight r"
      have n: "balanced n" "grown n" "avl_height n = Suc (Suc hr)" "inorder n = inorder (Node l e b r)"
        using 1 True by (auto simp: n_def grown_def)
      show ?thesis
      proof (cases p)
        case (LeftOf pe pb pr)
        then show ?thesis using Cons.IH(2) [of n pr "Suc hr" pb pe] n 1 True
          by (auto simp: rightAdded.simps n_def)
      next
        case (RightOf pe pb pl)
        then show ?thesis using Cons.IH(1) [of pl n "Suc hr" pb pe] n 1 True
          by (auto simp: rightAdded.simps n_def)
      qed
    next
      case False
      then show ?thesis by (rule rightAdded_stops [OF 1])
    qed }
  { case 2
    show ?case
    proof (cases "b = AVLBalanced")
      case True
      define n where "n = Node l e AVLLeft r"
      have n: "balanced n" "grown n" "avl_height n = Suc (Suc hl)" "inorder n = inorder (Node l e b r)"
        using 2 True by (auto simp: n_def grown_def)
      show ?thesis
      proof (cases p)
        case (LeftOf pe pb pr)
        then show ?thesis using Cons.IH(2) [of n pr "Suc hl" pb pe] n 2 True
          by (auto simp: leftAdded.simps n_def)
      next
        case (RightOf pe pb pl)
        then show ?thesis using Cons.IH(1) [of pl n "Suc hl" pb pe] n 2 True
          by (auto simp: leftAdded.simps n_def)
      qed
    next
      case False
      then show ?thesis by (rule leftAdded_stops [OF 2])
    qed }
qed

section \<open>Removal keeps the balance\<close>

lemma shrink_left:
  assumes "balanced l" "balanced r" "leans b (Suc (avl_height l)) (avl_height r)"
  shows "\<exists>n t' s. shrink_node (Node l e b r) t AVLLeft = Some (n, t', s)
    \<and> levelled (Node l e b r)
         (if s then max (Suc (avl_height l)) (avl_height r) else Suc (max (Suc (avl_height l)) (avl_height r))) t n t'"
proof (cases b)
  case AVLRight
  then have two: "avl_height r = Suc (Suc (avl_height l))" and "r \<noteq> Null" using assms by auto
  then consider "getBalance r = AVLLeft" | "getBalance r = AVLBalanced" | "getBalance r = AVLRight"
    using balance_nonempty [of r] assms(2) by blast
  then show ?thesis
    using rotate_right [OF assms(1,2) two, of e b t] AVLRight two \<open>r \<noteq> Null\<close>
    by cases (auto simp: max_def ex_bool_eq)
qed (use assms in \<open>auto simp: levelled_def max_def\<close>)

lemma shrink_right:
  assumes "balanced l" "balanced r" "leans b (avl_height l) (Suc (avl_height r))"
  shows "\<exists>n t' s. shrink_node (Node l e b r) t AVLRight = Some (n, t', s)
    \<and> levelled (Node l e b r)
         (if s then max (avl_height l) (Suc (avl_height r)) else Suc (max (avl_height l) (Suc (avl_height r)))) t n t'"
proof (cases b)
  case AVLLeft
  then have two: "avl_height l = Suc (Suc (avl_height r))" and "l \<noteq> Null" using assms by auto
  then consider "getBalance l = AVLLeft" | "getBalance l = AVLBalanced" | "getBalance l = AVLRight"
    using balance_nonempty [of l] assms(1) by blast
  then show ?thesis
    using rotate_left [OF assms(1,2) two, of e b t] AVLLeft two \<open>l \<noteq> Null\<close>
    by cases (auto simp: max_def ex_bool_eq)
qed (use assms in \<open>auto simp: levelled_def max_def\<close>)

lemma gotOneShorter_unfold:
  "gotOneShorter self ps t whichSide =
     (case shrink_node self t whichSide of
        None \<Rightarrow> None
      | Some (n, t, shorter) \<Rightarrow> if shorter then shorter_at n ps t else Some (t\<lparr>root := root_of n ps\<rparr>))"
  by (subst gotOneShorter.simps) (auto simp: shorter_at_def split: option.split)

lemma rebuilt_trans:
  "insertions t' = insertions t \<Longrightarrow> deletions t' = deletions t \<Longrightarrow> rebuilt t' es u \<Longrightarrow> rebuilt t es u"
  by (simp add: rebuilt_def)

lemma gotOneShorter_step:
  assumes "shrink_node self t side = Some (n, t', s)"
    and lev: "levelled self (if s then h else Suc h) t n t'" and fit: "fits ps (Suc h)"
    and step: "\<And>n t. balanced n \<Longrightarrow> fits ps (Suc (avl_height n))
      \<Longrightarrow> \<exists>u. shorter_at n ps t = Some u \<and> rebuilt t (before ps @ inorder n @ after ps) u"
  shows "\<exists>u. gotOneShorter self ps t side = Some u \<and> rebuilt t (before ps @ inorder self @ after ps) u"
proof (cases s)
  case True
  then have "balanced n" "avl_height n = h" and same: "inorder n = inorder self"
    "insertions t' = insertions t" "deletions t' = deletions t"
    using lev by (auto simp: levelled_def)
  then obtain u where "shorter_at n ps t' = Some u" "rebuilt t' (before ps @ inorder n @ after ps) u"
    using step [of n t'] fit by auto
  then show ?thesis using True assms(1) same rebuilt_trans [of t' t]
    by (auto simp: gotOneShorter_unfold)
next
  case False
  then show ?thesis using rebuilt_promote [OF lev, of ps] fit assms(1)
    by (auto simp: gotOneShorter_unfold promote_def)
qed

lemma shorter_at_ok:
  "balanced n \<Longrightarrow> fits ps (Suc (avl_height n))
    \<Longrightarrow> \<exists>u. shorter_at n ps t = Some u \<and> rebuilt t (before ps @ inorder n @ after ps) u"
proof (induction ps arbitrary: n t)
  case Nil
  then show ?case by (auto simp: shorter_at_def rebuilt_def elements_def)
next
  case (Cons p ps)
  show ?case
  proof (cases p)
    case (LeftOf pe pb pr)
    then obtain m t' s where "shrink_node (Node n pe pb pr) t AVLLeft = Some (m, t', s)"
        "levelled (Node n pe pb pr) (if s then max (Suc (avl_height n)) (avl_height pr)
           else Suc (max (Suc (avl_height n)) (avl_height pr))) t m t'"
      using shrink_left [of n pr pb pe t] Cons.prems by auto
    then show ?thesis using gotOneShorter_step [OF _ _ _ Cons.IH] LeftOf Cons.prems
      by (fastforce simp: shorter_at_def)
  next
    case (RightOf pe pb pl)
    then obtain m t' s where "shrink_node (Node pl pe pb n) t AVLRight = Some (m, t', s)"
        "levelled (Node pl pe pb n) (if s then max (avl_height pl) (Suc (avl_height n))
           else Suc (max (avl_height pl) (Suc (avl_height n)))) t m t'"
      using shrink_right [of pl n pb pe t] Cons.prems by auto
    then show ?thesis using gotOneShorter_step [OF _ _ _ Cons.IH] RightOf Cons.prems
      by (fastforce simp: shorter_at_def)
  qed
qed

lemma root_of_append: "root_of n (ps @ qs) = root_of (root_of n ps) qs"
  by (induction ps arbitrary: n) auto

lemma before_append: "before (ps @ qs) = before qs @ before ps"
  and after_append: "after (ps @ qs) = after ps @ after qs"
  by (induction ps) (auto split: avl_parent.split)

text \<open>The successor is the first node in order below the right child, reached through left links only.\<close>

lemma successor_position:
  "n \<noteq> Null \<Longrightarrow> \<exists>se sb sr qs. successor n ps = (Node Null se sb sr, qs @ ps)
     \<and> root_of (Node Null se sb sr) qs = n \<and> before qs = []
     \<and> (\<forall>p \<in> set qs. \<exists>e b r. p = LeftOf e b r)"
proof (induction n ps rule: successor.induct)
  case (1 l e b r ps)
  show ?case
  proof (cases "l = Null")
    case False
    then obtain se sb sr qs where "successor l (LeftOf e b r # ps) = (Node Null se sb sr, qs @ LeftOf e b r # ps)"
        "root_of (Node Null se sb sr) qs = l" "before qs = []" "\<forall>p \<in> set qs. \<exists>e b r. p = LeftOf e b r"
      using 1 by auto
    with False show ?thesis
      by (intro exI [of _ se] exI [of _ sb] exI [of _ sr] exI [of _ "qs @ [LeftOf e b r]"])
        (auto simp: root_of_append before_append)
  qed auto
qed simp

lemma childless_height: "balanced n \<Longrightarrow> avl_height n = Suc 0 \<Longrightarrow> childless n"
  by (cases n; cases "getBalance n") (auto simp: childless_def)

lemma avl_node_remove_inner:
  assumes bal: "balanced (Node l e b r)" and fit: "fits ps (avl_height (Node l e b r))"
    and full: "l \<noteq> Null" "r \<noteq> Null"
  shows "\<exists>u. avl_node_remove (Node l e b r) ps t = Some u
    \<and> rebuilt (t\<lparr>deletions := deletions t + 1\<rparr>) (before ps @ inorder l @ inorder r @ after ps) u"
proof -
  obtain se sb sr qs where suc: "successor r [] = (Node Null se sb sr, qs)" "before qs = []"
      "root_of (Node Null se sb sr) qs = r" and left: "\<forall>p \<in> set qs. \<exists>e b r. p = LeftOf e b r"
    using successor_position [of r "[]"] full by auto
  let ?ctx = "qs @ RightOf se b l # ps"
  have "balanced (root_of (Node Null se sb sr) ?ctx)"
    using suc(3) bal fit by (simp add: root_of_append balanced_root_of)
  then have inner: "balanced sr" "fits ?ctx (Suc (avl_height sr))"
    by (auto simp: balanced_root_of)
  have "inorder r = se # inorder sr @ after qs"
    using suc inorder_root_of [of "Node Null se sb sr" qs] by simp
  then have "before ?ctx @ inorder sr @ after ?ctx = before ps @ inorder l @ inorder r @ after ps"
    using suc by (simp add: before_append after_append)
  moreover have "avl_node_remove (Node l e b r) ps t = shorter_at sr ?ctx (t\<lparr>deletions := deletions t + 1\<rparr>)"
    using suc full left balance_nonempty [OF bal]
    by (cases qs) (auto simp: avl_node_remove.simps shorter_at_def)
  ultimately show ?thesis using shorter_at_ok [OF inner] by metis
qed

lemma avl_node_remove_ok:
  assumes bal: "balanced (Node l e b r)" and fit: "fits ps (avl_height (Node l e b r))"
  shows "\<exists>u. avl_node_remove (Node l e b r) ps t = Some u
    \<and> rebuilt (t\<lparr>deletions := deletions t + 1\<rparr>) (before ps @ inorder l @ inorder r @ after ps) u"
proof -
  have b: "b = AVLRight \<or> b = AVLLeft \<or> b = AVLBalanced" using balance_nonempty [OF bal] by auto
  consider "l = Null" | "l \<noteq> Null" "r = Null" | "l \<noteq> Null" "r \<noteq> Null" by blast
  then show ?thesis
  proof cases
    case 1
    then have "r = Null \<and> b = AVLBalanced \<or> b = AVLRight \<and> childless r"
      using b bal childless_height [of r] by (auto simp: childless_def)
    with 1 b show ?thesis using shorter_at_ok [of r ps "t\<lparr>deletions := deletions t + 1\<rparr>"] bal fit
      by (auto simp: avl_node_remove.simps)
  next
    case 2
    then have "b = AVLLeft" "childless l" using b bal childless_height [of l] by auto
    with 2 show ?thesis using shorter_at_ok [of l ps "t\<lparr>deletions := deletions t + 1\<rparr>"] bal fit
      by (auto simp: avl_node_remove.simps)
  next
    case 3
    then show ?thesis by (rule avl_node_remove_inner [OF bal fit])
  qed
qed

section \<open>Order\<close>

definition ordered :: "('e \<Rightarrow> 'k::linorder) \<Rightarrow> 'e list \<Rightarrow> bool" where
  "ordered key es \<longleftrightarrow> sorted_wrt (\<lambda>x y. key x < key y) es"

definition last_that :: "('e \<Rightarrow> bool) \<Rightarrow> 'e list \<Rightarrow> 'e option" where
  "last_that P es = List.find P (rev es)"

definition avl_inv :: "('e \<Rightarrow> 'k::linorder) \<Rightarrow> 'e avl_tree \<Rightarrow> bool" where
  "avl_inv key t \<longleftrightarrow> balanced (root t) \<and> ordered key (elements t)
     \<and> insertions t - deletions t = of_nat (length (elements t))"

lemma ordered_append:
  "ordered key (xs @ ys) \<longleftrightarrow> ordered key xs \<and> ordered key ys \<and> (\<forall>x \<in> set xs. \<forall>y \<in> set ys. key x < key y)"
  by (auto simp: ordered_def sorted_wrt_append)

lemma ordered_Cons: "ordered key (x # xs) \<longleftrightarrow> ordered key xs \<and> (\<forall>y \<in> set xs. key x < key y)"
  by (auto simp: ordered_def)

lemma ordered_Nil [simp]: "ordered key []"
  by (simp add: ordered_def)

lemmas ordered_simps = ordered_append ordered_Cons

lemma find_append: "List.find P (xs @ ys) = (case List.find P xs of None \<Rightarrow> List.find P ys | Some x \<Rightarrow> Some x)"
  by (induction xs) auto

lemma find_none_mem: "List.find P xs = None \<longleftrightarrow> (\<forall>x \<in> set xs. \<not> P x)"
  by (induction xs) auto

lemma find_some_mem: "List.find P xs = Some x \<Longrightarrow> x \<in> set xs \<and> P x"
  by (induction xs) (auto split: if_splits)

lemma last_that_append:
  "last_that P (xs @ ys) = (case last_that P ys of None \<Rightarrow> last_that P xs | Some x \<Rightarrow> Some x)"
  by (auto simp: last_that_def find_append split: option.split)

lemma last_that_Cons:
  "last_that P (x # xs) = (case last_that P xs of None \<Rightarrow> if P x then Some x else None | Some y \<Rightarrow> Some y)"
  by (auto simp: last_that_def find_append split: option.split)

lemma last_that_none: "last_that P xs = None \<longleftrightarrow> (\<forall>x \<in> set xs. \<not> P x)"
  by (simp add: last_that_def find_none_mem)

lemma insort_between:
  "\<forall>x \<in> set xs. key x < key e \<Longrightarrow> \<forall>y \<in> set ys. key e < key y
    \<Longrightarrow> insort_key key e (xs @ ys) = xs @ e # ys"
proof (induction xs)
  case Nil
  then show ?case by (cases ys) auto
qed auto

lemma filter_key_between:
  "ordered key (xs @ e # ys) \<Longrightarrow> filter (\<lambda>x. key x \<noteq> key e) (xs @ e # ys) = xs @ ys"
  by (auto simp: ordered_simps intro!: arg_cong2 [of _ _ _ _ append] filter_True)

section \<open>Searching finds what the sorted list holds\<close>

lemma element_at_case:
  "element_at (case p of None \<Rightarrow> q | Some x \<Rightarrow> Some x) =
     (case element_at p of None \<Rightarrow> element_at q | Some x \<Rightarrow> Some x)"
  by (cases p) (auto simp: element_at_def)

lemma element_at_Some [simp]: "element_at (Some (n, ps)) = Some (getElement n)"
  "element_at None = None"
  by (simp_all add: element_at_def)

lemma find_skip: "\<forall>x \<in> set xs. \<not> P x \<Longrightarrow> List.find P (xs @ ys) = List.find P ys"
  by (simp add: find_append find_none_mem [THEN iffD2])

lemma last_that_skip: "\<forall>x \<in> set ys. \<not> P x \<Longrightarrow> last_that P (xs @ ys) = last_that P xs"
  by (simp add: last_that_append last_that_none [THEN iffD2])

lemma findFirstLessThan_node_eq:
  "ordered key (inorder n)
    \<Longrightarrow> element_at (findFirstLessThan_node key k n ps) = last_that (\<lambda>e. key e < k) (inorder n)"
proof (induction key k n ps rule: findFirstLessThan_node.induct)
  case (2 key k l e b r ps)
  show ?case
  proof (cases "key e < k")
    case True
    then show ?thesis using 2
      by (auto simp: element_at_case last_that_append last_that_Cons ordered_simps split: option.split)
  next
    case False
    then have "\<forall>x \<in> set (e # inorder r). \<not> key x < k" using 2 by (auto simp: ordered_simps)
    with False 2 show ?thesis by (simp add: last_that_skip ordered_simps del: set_simps)
  qed
qed (simp add: last_that_def)

lemma findFirstLessThanOrEqualTo_node_eq:
  "ordered key (inorder n)
    \<Longrightarrow> element_at (findFirstLessThanOrEqualTo_node key k n ps) = last_that (\<lambda>e. key e \<le> k) (inorder n)"
proof (induction key k n ps rule: findFirstLessThanOrEqualTo_node.induct)
  case (2 key k l e b r ps)
  consider "key e = k" | "key e < k" | "k < key e" by fastforce
  then show ?case
  proof cases
    case 1
    then have "\<forall>x \<in> set (inorder r). \<not> key x \<le> k" using 2 by (auto simp: ordered_simps)
    with 1 show ?thesis
      by (auto simp: last_that_append last_that_Cons last_that_none [THEN iffD2])
  next
    case 2
    then show ?thesis using "2.IH" "2.prems"
      by (auto simp: element_at_case last_that_append last_that_Cons ordered_simps split: option.split)
  next
    case 3
    then have "\<forall>x \<in> set (e # inorder r). \<not> key x \<le> k" using 2 by (auto simp: ordered_simps)
    with 3 "2.IH"(2) "2.prems" show ?thesis
      by (auto simp: last_that_skip [of "e # inorder r"] ordered_simps)
  qed
qed (simp add: last_that_def)

lemma findFirstGreaterThan_node_eq:
  "ordered key (inorder n)
    \<Longrightarrow> element_at (findFirstGreaterThan_node key k n ps) = List.find (\<lambda>e. k < key e) (inorder n)"
proof (induction key k n ps rule: findFirstGreaterThan_node.induct)
  case (2 key k l e b r ps)
  show ?case
  proof (cases "k < key e")
    case True
    then show ?thesis using 2
      by (auto simp: element_at_case find_append ordered_simps split: option.split)
  next
    case False
    then have "\<forall>x \<in> set (inorder l). \<not> k < key x" using 2 by (auto simp: ordered_simps)
    with False 2 show ?thesis by (simp add: find_skip ordered_simps)
  qed
qed simp

lemma findFirstGreaterThanOrEqualTo_node_eq:
  "ordered key (inorder n)
    \<Longrightarrow> element_at (findFirstGreaterThanOrEqualTo_node key k n ps) = List.find (\<lambda>e. k \<le> key e) (inorder n)"
proof (induction key k n ps rule: findFirstGreaterThanOrEqualTo_node.induct)
  case (2 key k l e b r ps)
  consider "key e = k" | "k < key e" | "key e < k" by fastforce
  then show ?case
  proof cases
    case 1
    then have "\<forall>x \<in> set (inorder l). \<not> k \<le> key x" using 2 by (auto simp: ordered_simps)
    with 1 show ?thesis by (simp add: find_skip)
  next
    case 2
    then show ?thesis using "2.IH" "2.prems"
      by (auto simp: element_at_case find_append ordered_simps split: option.split)
  next
    case 3
    then have "\<forall>x \<in> set (inorder l). \<not> k \<le> key x" using 2 by (auto simp: ordered_simps)
    with 3 "2.IH"(2) "2.prems" show ?thesis by (auto simp: find_skip ordered_simps)
  qed
qed simp

lemma avl_find_eq:
  assumes "avl_inv key t"
  shows "findFirstLessThan key t k = last_that (\<lambda>e. key e < k) (elements t)"
    and "findFirstLessThanOrEqualTo key t k = last_that (\<lambda>e. key e \<le> k) (elements t)"
    and "findFirstGreaterThan key t k = List.find (\<lambda>e. k < key e) (elements t)"
    and "findFirstGreaterThanOrEqualTo key t k = List.find (\<lambda>e. k \<le> key e) (elements t)"
  using assms findFirstLessThan_node_eq [of key "root t" k "[]"]
    findFirstLessThanOrEqualTo_node_eq [of key "root t" k "[]"]
    findFirstGreaterThan_node_eq [of key "root t" k "[]"]
    findFirstGreaterThanOrEqualTo_node_eq [of key "root t" k "[]"]
  by (simp_all add: avl_inv_def elements_def findFirstLessThan_def findFirstLessThanOrEqualTo_def
      findFirstGreaterThan_def findFirstGreaterThanOrEqualTo_def)

lemma last_that_equal:
  "ordered key es \<Longrightarrow>
    (case last_that (\<lambda>e. key e \<le> k) es of Some e \<Rightarrow> if key e = k then Some e else None | None \<Rightarrow> None)
      = List.find (\<lambda>e. key e = k) es"
proof (induction es)
  case (Cons x xs)
  show ?case
  proof (cases "key x \<ge> k")
    case True
    then have "\<forall>y \<in> set xs. \<not> key y \<le> k" using Cons.prems by (auto simp: ordered_simps)
    then have "last_that (\<lambda>e. key e \<le> k) xs = None" "List.find (\<lambda>e. key e = k) xs = None"
      by (auto simp: last_that_none find_none_mem)
    with True show ?thesis by (auto simp: last_that_Cons)
  next
    case False
    with Cons show ?thesis by (auto simp: last_that_Cons ordered_simps split: option.splits)
  qed
qed (simp add: last_that_def)

lemma avl_lookup_eq: "avl_inv key t \<Longrightarrow> avl_lookup key t k = List.find (\<lambda>e. key e = k) (elements t)"
  using last_that_equal [of key "elements t" k] by (simp add: avl_lookup_def avl_find_eq avl_inv_def)

lemma findMin_node_eq: "ordered key (inorder n) \<Longrightarrow> n \<noteq> Null \<Longrightarrow> findMin_node key n = Some (hd (inorder n))"
  by (induction key n rule: findMin_node.induct) (auto simp: ordered_simps less_imp_le hd_append)

lemma findMax_node_eq: "ordered key (inorder n) \<Longrightarrow> n \<noteq> Null \<Longrightarrow> findMax_node key n = Some (last (inorder n))"
  by (induction key n rule: findMax_node.induct) (auto simp: ordered_simps less_imp_le)

lemma avl_min_max_eq:
  assumes "avl_inv key t"
  shows "findMin key t = Some (if elements t = [] then None else Some (hd (elements t)))"
    and "findMax key t = Some (if elements t = [] then None else Some (last (elements t)))"
  using assms findMin_node_eq [of key "root t"] findMax_node_eq [of key "root t"]
  by (auto simp: avl_inv_def elements_def findMin_def findMax_def)

section \<open>Insertion and removal on the sorted list\<close>

lemma insert_position_ok:
  assumes "ordered key (inorder n)" "k \<notin> key ` set (inorder n)"
  shows "\<exists>qs. insert_position key k n ps = Some (qs @ ps) \<and> root_of Null qs = n
    \<and> (\<forall>x \<in> set (before qs). key x < k) \<and> (\<forall>x \<in> set (after qs). k < key x)"
  using assms
proof (induction key k n ps rule: insert_position.induct)
  case (2 key k l e b r ps)
  consider "key e < k" | "k < key e" using 2 by (auto simp: neq_iff)
  then show ?case
  proof cases
    case 1
    then obtain qs where "insert_position key k r (RightOf e b l # ps) = Some (qs @ RightOf e b l # ps)"
        "root_of Null qs = r" "\<forall>x \<in> set (before qs). key x < k" "\<forall>x \<in> set (after qs). k < key x"
      using 2 by (auto simp: ordered_simps)
    with 1 2 show ?thesis
      by (intro exI [of _ "qs @ [RightOf e b l]"])
        (auto simp: root_of_append before_append after_append ordered_simps)
  next
    case 2
    then have "\<not> key e < k" by simp
    then obtain qs where "insert_position key k l (LeftOf e b r # ps) = Some (qs @ LeftOf e b r # ps)"
        "root_of Null qs = l" "\<forall>x \<in> set (before qs). key x < k" "\<forall>x \<in> set (after qs). k < key x"
      using 2 "2.IH"(2) "2.prems" by (auto simp: ordered_simps image_Un)
    with 2 "2.prems" show ?thesis
      by (intro exI [of _ "qs @ [LeftOf e b r]"])
        (auto simp: root_of_append before_append after_append ordered_simps)
  qed
qed simp

lemma insert_position_duplicate:
  "ordered key (inorder n) \<Longrightarrow> k \<in> key ` set (inorder n) \<Longrightarrow> insert_position key k n ps = None"
  by (induction key k n ps rule: insert_position.induct) (auto simp: ordered_simps)

lemma ordered_insort:
  "ordered key es \<Longrightarrow> key e \<notin> key ` set es \<Longrightarrow> ordered key (insort_key key e es)"
  by (induction es) (auto simp: ordered_simps set_insort_key neq_iff)

lemma avl_insert_rebuilt:
  assumes inv: "avl_inv key t" and new: "key e \<notin> key ` set (elements t)"
  shows "\<exists>u. avl_insert key t e = Some u
    \<and> rebuilt (t\<lparr>insertions := insertions t + 1\<rparr>) (insort_key key e (elements t)) u"
proof (cases "root t = Null")
  case True
  then show ?thesis
    by (simp add: avl_insert_def avl_node_insert_def rebuilt_def elements_def)
next
  case False
  let ?t = "t\<lparr>insertions := insertions t + 1\<rparr>" and ?n = "Node Null e AVLBalanced Null"
  obtain qs where qs: "insert_position key (key e) (root t) [] = Some qs" "root_of Null qs = root t"
      "\<forall>x \<in> set (before qs). key x < key e" "\<forall>x \<in> set (after qs). key e < key x"
    using insert_position_ok [of key "root t" "key e" "[]"] inv new by (auto simp: avl_inv_def elements_def)
  have es: "insort_key key e (elements t) = before qs @ e # after qs"
    using inorder_root_of [of Null qs] qs by (simp add: elements_def insort_between)
  have fit: "fits qs 0" using inv qs(2) balanced_root_of [of Null qs] by (simp add: avl_inv_def)
  obtain p ps where ps: "qs = p # ps" using qs(2) False by (cases qs) auto
  show ?thesis
  proof (cases p)
    case (LeftOf pe pb pr)
    then show ?thesis using added_ok(2) [of ?n pr 0 pb ps pe ?t] fit False
      by (auto simp: avl_insert_def avl_node_insert_def qs(1) es ps grown_def)
  next
    case (RightOf pe pb pl)
    then show ?thesis using added_ok(1) [of pl ?n 0 pb ps pe ?t] fit False
      by (auto simp: avl_insert_def avl_node_insert_def qs(1) es ps grown_def)
  qed
qed

lemma avl_insert_ok:
  assumes "avl_inv key t" "key e \<notin> key ` set (elements t)"
  shows "\<exists>u. avl_insert key t e = Some u \<and> avl_inv key u \<and> elements u = insort_key key e (elements t)"
proof -
  obtain u where u: "avl_insert key t e = Some u"
      "rebuilt (t\<lparr>insertions := insertions t + 1\<rparr>) (insort_key key e (elements t)) u"
    using avl_insert_rebuilt [OF assms] by blast
  moreover have "avl_inv key u"
    using u assms ordered_insort [of key "elements t" e]
    by (auto simp: avl_inv_def rebuilt_def algebra_simps)
  ultimately show ?thesis by (auto simp: rebuilt_def)
qed

lemma avl_insert_counts:
  assumes "avl_inv key t" "avl_insert key t e = Some u" "key e \<notin> key ` set (elements t)"
  shows "avl_inv key u" "elements u = insort_key key e (elements t)"
    "insertions u = insertions t + 1" "deletions u = deletions t"
  using avl_insert_ok [OF assms(1,3)] avl_insert_rebuilt [OF assms(1,3)] assms(2)
  by (auto simp: rebuilt_def)

lemma avl_insert_duplicate:
  assumes "avl_inv key t" "key e \<in> key ` set (elements t)"
  shows "avl_insert key t e = None"
proof -
  have "insert_position key (key e) (root t) [] = None" "root t \<noteq> Null"
    using assms insert_position_duplicate [of key "root t" "key e" "[]"]
    by (auto simp: avl_inv_def elements_def)
  then show ?thesis by (simp add: avl_insert_def avl_node_insert_def)
qed

lemma findFirstLessThanOrEqualTo_position:
  "findFirstLessThanOrEqualTo_node key k n ps = Some (m, qs) \<Longrightarrow> m \<noteq> Null \<and> root_of m qs = root_of n ps"
  by (induction key k n ps rule: findFirstLessThanOrEqualTo_node.induct)
    (auto split: if_splits option.splits)

lemma avl_node_remove_inv:
  assumes inv: "avl_inv key t" and at: "root_of m ps = root t" "m \<noteq> Null"
  shows "\<exists>u. avl_node_remove m ps t = Some u \<and> avl_inv key u
    \<and> elements u = filter (\<lambda>x. key x \<noteq> key (getElement m)) (elements t)
    \<and> insertions u = insertions t \<and> deletions u = deletions t + 1"
proof -
  obtain l e b r where m: "m = Node l e b r" using at(2) by (cases m) auto
  have bal: "balanced m" "fits ps (avl_height m)"
    using inv balanced_root_of [of m ps] at by (auto simp: avl_inv_def)
  have es: "elements t = (before ps @ inorder l) @ e # (inorder r @ after ps)"
    using inorder_root_of [of m ps] at by (simp add: m elements_def)
  then have rest: "filter (\<lambda>x. key x \<noteq> key e) (elements t) = before ps @ inorder l @ inorder r @ after ps"
    using filter_key_between [of key "before ps @ inorder l" e "inorder r @ after ps"] inv
    by (simp add: avl_inv_def del: filter_append)
  obtain u where u: "avl_node_remove m ps t = Some u"
      "rebuilt (t\<lparr>deletions := deletions t + 1\<rparr>) (before ps @ inorder l @ inorder r @ after ps) u"
    using avl_node_remove_ok [of l e b r ps t] bal by (auto simp: m)
  have "ordered key (before ps @ inorder l @ inorder r @ after ps)"
    using inv es by (auto simp: avl_inv_def ordered_simps)
  moreover have "insertions t - (deletions t + 1) = of_nat (length (elements t)) - 1"
    using inv by (simp add: avl_inv_def algebra_simps)
  then have "insertions t - (deletions t + 1) = of_nat (length (before ps @ inorder l @ inorder r @ after ps))"
    by (simp add: es)
  ultimately show ?thesis using u rest by (auto simp: m avl_inv_def rebuilt_def)
qed

lemma avl_candidate:
  assumes "avl_inv key t"
  shows "(\<exists>m ps. findFirstLessThanOrEqualTo_node key k (root t) [] = Some (m, ps) \<and> m \<noteq> Null
            \<and> root_of m ps = root t \<and> key (getElement m) = k
            \<and> List.find (\<lambda>e. key e = k) (elements t) = Some (getElement m))
      \<or> List.find (\<lambda>e. key e = k) (elements t) = None
        \<and> (case findFirstLessThanOrEqualTo_node key k (root t) [] of
             None \<Rightarrow> True | Some (m, ps) \<Rightarrow> key (getElement m) \<noteq> k)"
  using avl_lookup_eq [OF assms, of k] findFirstLessThanOrEqualTo_position [of key k "root t" "[]"]
  by (cases "findFirstLessThanOrEqualTo_node key k (root t) []")
    (auto simp: avl_lookup_def findFirstLessThanOrEqualTo_def split: if_splits)

lemma avl_remove_key_ok:
  assumes inv: "avl_inv key t"
  shows "\<exists>u. avl_remove_key key t k = Some (List.find (\<lambda>e. key e = k) (elements t), u) \<and> avl_inv key u
    \<and> elements u = filter (\<lambda>x. key x \<noteq> k) (elements t)"
  using avl_candidate [OF inv, of k]
proof (elim disjE exE conjE)
  fix m ps assume "findFirstLessThanOrEqualTo_node key k (root t) [] = Some (m, ps)" "m \<noteq> Null"
    "root_of m ps = root t" "key (getElement m) = k"
    "List.find (\<lambda>e. key e = k) (elements t) = Some (getElement m)"
  then show ?thesis using avl_node_remove_inv [OF inv, of m ps] by (auto simp: avl_remove_key_def)
next
  assume none: "List.find (\<lambda>e. key e = k) (elements t) = None"
    and "case findFirstLessThanOrEqualTo_node key k (root t) [] of
           None \<Rightarrow> True | Some (m, ps) \<Rightarrow> key (getElement m) \<noteq> k"
  then have "avl_remove_key key t k = Some (None, t)"
    by (auto simp: avl_remove_key_def split: option.splits)
  moreover have "filter (\<lambda>x. key x \<noteq> k) (elements t) = elements t"
    using none by (simp add: find_none_mem)
  ultimately show ?thesis using none inv by simp
qed

lemma avl_remove_ok:
  assumes inv: "avl_inv key t"
  shows "key e \<in> key ` set (elements t) \<Longrightarrow>
           \<exists>u. avl_remove key t e = Some u \<and> avl_inv key u
             \<and> elements u = filter (\<lambda>x. key x \<noteq> key e) (elements t)
             \<and> insertions u = insertions t \<and> deletions u = deletions t + 1"
    and "key e \<notin> key ` set (elements t) \<Longrightarrow> avl_remove key t e = None"
proof -
  { assume "key e \<in> key ` set (elements t)"
    then have "List.find (\<lambda>x. key x = key e) (elements t) \<noteq> None" by (auto simp: find_none_mem)
    then obtain m ps where m: "findFirstLessThanOrEqualTo_node key (key e) (root t) [] = Some (m, ps)"
        "m \<noteq> Null" "root_of m ps = root t" "key (getElement m) = key e"
      using avl_candidate [OF inv, of "key e"] by (elim disjE) auto
    then have "root t \<noteq> Null" by auto
    with m show "\<exists>u. avl_remove key t e = Some u \<and> avl_inv key u
             \<and> elements u = filter (\<lambda>x. key x \<noteq> key e) (elements t)
             \<and> insertions u = insertions t \<and> deletions u = deletions t + 1"
      using avl_node_remove_inv [OF inv, of m ps] by (auto simp: avl_remove_def) }
  { assume "key e \<notin> key ` set (elements t)"
    then have "List.find (\<lambda>x. key x = key e) (elements t) = None" by (auto simp: find_none_mem image_iff)
    then show "avl_remove key t e = None"
      using avl_candidate [OF inv, of "key e"]
      by (auto simp: avl_remove_def lite_assert_def split: option.splits) }
qed

section \<open>Iteration\<close>

text \<open>
  \<^verbatim>\<open>foreach\<close> and \<^verbatim>\<open>firstthat\<close> walk the tree by searching the next larger key; the state the callback
  works on through its \<^verbatim>\<open>data\<close> pointer is passed along.
\<close>

lemma findFirstGreaterThan_node_greater:
  "findFirstGreaterThan_node key k n ps = Some (m, qs)
    \<Longrightarrow> k < key (getElement m) \<and> getElement m \<in> set (inorder n)"
  by (induction key k n ps rule: findFirstGreaterThan_node.induct) (auto split: if_splits option.splits)

lemma findFirstGreaterThan_greater:
  "findFirstGreaterThan key t k = Some e \<Longrightarrow> k < key e \<and> e \<in> set (elements t)"
  using findFirstGreaterThan_node_greater [of key k "root t" "[]"]
  by (auto simp: findFirstGreaterThan_def element_at_def elements_def)

definition larger :: "('e \<Rightarrow> 'k::linorder) \<Rightarrow> 'e avl_tree \<Rightarrow> 'e option \<Rightarrow> nat" where
  "larger key t e = (case e of None \<Rightarrow> 0 | Some e \<Rightarrow> Suc (length (filter (\<lambda>x. key e < key x) (elements t))))"

lemma larger_decreases: "larger key t (findFirstGreaterThan key t (key e)) < larger key t (Some e)"
proof (cases "findFirstGreaterThan key t (key e)")
  case (Some x)
  then have x: "key e < key x" "x \<in> set (elements t)"
    using findFirstGreaterThan_greater [of key t "key e" x] by auto
  have "length (filter (\<lambda>y. key x < key y) (filter (\<lambda>y. key e < key y) (elements t)))
      < length (filter (\<lambda>y. key e < key y) (elements t))"
    using x by (intro length_filter_less [of x]) auto
  moreover have "filter (\<lambda>y. key x < key y) (filter (\<lambda>y. key e < key y) (elements t))
      = filter (\<lambda>y. key x < key y) (elements t)"
    using x by (auto intro!: filter_cong)
  ultimately show ?thesis using Some by (simp add: larger_def)
qed (simp add: larger_def)

function foreach_from ::
    "('e \<Rightarrow> 'k::linorder) \<Rightarrow> ('e \<Rightarrow> 's \<Rightarrow> 's) \<Rightarrow> 'e avl_tree \<Rightarrow> 'e option \<Rightarrow> 's \<Rightarrow> 's" where
  "foreach_from key func t None data = data"
| "foreach_from key func t (Some e) data =
     foreach_from key func t (findFirstGreaterThan key t (key e)) (func e data)"
  by pat_completeness auto

termination
  by (relation "measure (\<lambda>(key, func, t, e, data). larger key t e)") (auto simp: larger_decreases)

definition avl_foreach :: "('e \<Rightarrow> 'k::linorder) \<Rightarrow> ('e \<Rightarrow> 's \<Rightarrow> 's) \<Rightarrow> 'e avl_tree \<Rightarrow> 's \<Rightarrow> 's option" where
  "avl_foreach key func t data = do {
     element \<leftarrow> findMin key t;
     Some (foreach_from key func t element data) }"

function firstthat_from ::
    "('e \<Rightarrow> 'k::linorder) \<Rightarrow> ('e \<Rightarrow> 's \<Rightarrow> bool \<times> 's) \<Rightarrow> 'e avl_tree \<Rightarrow> 'e option \<Rightarrow> 's \<Rightarrow> 'e option \<times> 's" where
  "firstthat_from key func t None data = (None, data)"
| "firstthat_from key func t (Some e) data =
     (if fst (func e data) then (Some e, snd (func e data))
      else firstthat_from key func t (findFirstGreaterThan key t (key e)) (snd (func e data)))"
  by pat_completeness auto

termination
  by (relation "measure (\<lambda>(key, func, t, e, data). larger key t e)") (auto simp: larger_decreases)

definition avl_firstthat ::
    "('e \<Rightarrow> 'k::linorder) \<Rightarrow> ('e \<Rightarrow> 's \<Rightarrow> bool \<times> 's) \<Rightarrow> 'e avl_tree \<Rightarrow> 's \<Rightarrow> ('e option \<times> 's) option" where
  "avl_firstthat key func t data = do {
     element \<leftarrow> findMin key t;
     Some (firstthat_from key func t element data) }"

lemma next_in_order:
  assumes "avl_inv key t" "elements t = xs @ e # ys"
  shows "findFirstGreaterThan key t (key e) = (case ys of [] \<Rightarrow> None | y # _ \<Rightarrow> Some y)"
proof -
  have ord: "ordered key (xs @ e # ys)" using assms by (simp add: avl_inv_def)
  then have "\<forall>x \<in> set (xs @ [e]). \<not> key e < key x" by (auto simp: ordered_simps)
  then have "findFirstGreaterThan key t (key e) = List.find (\<lambda>x. key e < key x) ys"
    using find_skip [of "xs @ [e]" "\<lambda>x. key e < key x" ys] assms by (simp add: avl_find_eq)
  also have "\<dots> = (case ys of [] \<Rightarrow> None | y # _ \<Rightarrow> Some y)"
    using ord by (cases ys) (auto simp: ordered_simps)
  finally show ?thesis .
qed

lemma foreach_from_eq:
  "avl_inv key t \<Longrightarrow> elements t = xs @ ys
    \<Longrightarrow> foreach_from key func t (case ys of [] \<Rightarrow> None | y # _ \<Rightarrow> Some y) data = fold func ys data"
proof (induction ys arbitrary: xs data)
  case (Cons y ys)
  then show ?case using Cons.IH [of "xs @ [y]"] by (simp add: next_in_order)
qed simp

fun scan :: "('e \<Rightarrow> 's \<Rightarrow> bool \<times> 's) \<Rightarrow> 'e list \<Rightarrow> 's \<Rightarrow> 'e option \<times> 's" where
  "scan func [] data = (None, data)"
| "scan func (e # es) data =
     (case func e data of (hit, data') \<Rightarrow> if hit then (Some e, data') else scan func es data')"

lemma firstthat_from_eq:
  "avl_inv key t \<Longrightarrow> elements t = xs @ ys
    \<Longrightarrow> firstthat_from key func t (case ys of [] \<Rightarrow> None | y # _ \<Rightarrow> Some y) data = scan func ys data"
proof (induction ys arbitrary: xs data)
  case (Cons y ys)
  then show ?case using Cons.IH [of "xs @ [y]"] by (simp add: next_in_order split: prod.split)
qed simp

lemma findMin_first: "avl_inv key t \<Longrightarrow> findMin key t = Some (case elements t of [] \<Rightarrow> None | y # _ \<Rightarrow> Some y)"
  by (cases "elements t") (simp_all add: avl_min_max_eq)

lemma avl_iterate_eq:
  assumes "avl_inv key t"
  shows "avl_foreach key func t data = Some (fold func (elements t) data)"
    and "avl_firstthat key func' t data' = Some (scan func' (elements t) data')"
  using foreach_from_eq [of key t "[]" "elements t"] firstthat_from_eq [of key t "[]" "elements t"] assms
  by (simp_all add: avl_foreach_def avl_firstthat_def findMin_first)

section \<open>Counting and checking\<close>

lemma avl_height_le_length: "avl_height n \<le> length (inorder n)"
  by (induction n) auto

lemma avl_height_log: "balanced n \<Longrightarrow> 2 ^ (avl_height n div 2) \<le> Suc (length (inorder n))"
proof (induction n)
  case (Node l e b r)
  let ?h = "min (avl_height l) (avl_height r)"
  have "avl_height (Node l e b r) \<le> ?h + 2" using Node.prems by (cases b) simp_all
  then have "(2::nat) ^ (avl_height (Node l e b r) div 2) \<le> 2 ^ ((?h + 2) div 2)"
    by (intro power_increasing div_le_mono) simp_all
  also have "\<dots> = 2 ^ (?h div 2) + 2 ^ (?h div 2)" by simp
  also have "\<dots> \<le> 2 ^ (avl_height l div 2) + 2 ^ (avl_height r div 2)"
    by (intro add_mono power_increasing div_le_mono) simp_all
  also have "\<dots> \<le> Suc (length (inorder l)) + Suc (length (inorder r))"
    using Node by (intro add_mono) simp_all
  finally show ?case by simp
qed simp

lemma of_nat_eq_u32: "a < 4294967296 \<Longrightarrow> b < 4294967296 \<Longrightarrow> (of_nat a = (of_nat b :: u32)) \<longleftrightarrow> a = b"
proof -
  assume "a < 4294967296" "b < 4294967296"
  then have "unat (of_nat a :: u32) = a" "unat (of_nat b :: u32) = b"
    by (simp_all add: unat_of_nat_u32)
  then show ?thesis by (metis)
qed

lemma getElement_mem: "n \<noteq> Null \<Longrightarrow> getElement n \<in> set (inorder n)"
  by (cases n) auto

lemma depth_compare:
  assumes "hl < 4294967295" "hr < 4294967295"
  shows "((of_nat hl :: u32) = of_nat hr) \<longleftrightarrow> hl = hr"
    and "((of_nat hl :: u32) = of_nat hr + 1) \<longleftrightarrow> hl = Suc hr"
    and "((of_nat hl + 1 :: u32) = of_nat hr) \<longleftrightarrow> Suc hl = hr"
  using of_nat_eq_u32 [of hl hr] of_nat_eq_u32 [of hl "Suc hr"] of_nat_eq_u32 [of "Suc hl" hr] assms
  by (auto simp: add.commute)

lemma checkAndReturnDepth_ok:
  "balanced n \<Longrightarrow> ordered key (inorder n) \<Longrightarrow> length (inorder n) < 4294967295
    \<Longrightarrow> checkAndReturnDepth key n c = Some (of_nat (avl_height n), c + of_nat (length (inorder n)))"
proof (induction n arbitrary: c)
  case (Node l e b r)
  have small: "avl_height l < 4294967295" "avl_height r < 4294967295"
    using Node.prems avl_height_le_length [of l] avl_height_le_length [of r] by auto
  have top: "r = Null \<or> key e < key (getElement r)" "l = Null \<or> key (getElement l) < key e"
    using Node.prems getElement_mem [of r] getElement_mem [of l] by (auto simp: ordered_simps)
  define dl dr nl nr :: u32 where d: "dl = of_nat (avl_height l)" "dr = of_nat (avl_height r)"
    "nl = of_nat (length (inorder l))" "nr = of_nat (length (inorder r))"
  have parts: "\<And>c. checkAndReturnDepth key l c = Some (dl, c + nl)"
    "\<And>c. checkAndReturnDepth key r c = Some (dr, c + nr)"
    using Node by (simp_all add: ordered_simps d)
  note cmp = depth_compare [OF small, folded d]
  have total: "c + of_nat (length (inorder (Node l e b r))) = c + 1 + nl + nr" by (simp add: d)
  have deep: "of_nat (avl_height (Node l e b r)) = (if avl_height l < avl_height r then dr else dl) + 1"
    by (simp add: d max_def)
  consider "b = AVLLeft" "avl_height l = Suc (avl_height r)"
    | "b = AVLBalanced" "avl_height l = avl_height r" | "b = AVLRight" "avl_height r = Suc (avl_height l)"
    using Node.prems by (cases b) simp_all
  then show ?case
    unfolding total deep by cases (use top in \<open>simp_all add: parts cmp\<close>)
qed simp

lemma avl_check_ok:
  "avl_inv key t \<Longrightarrow> length (elements t) < 4294967295 \<Longrightarrow> avl_check key t = Some ()"
  using checkAndReturnDepth_ok [of "root t" key 0]
  by (auto simp: avl_check_def avl_inv_def elements_def)

lemma avl_count_ok:
  assumes "avl_inv key t" "length (elements t) < 4294967296"
  shows "avl_empty t = Some (elements t = [])"
    and "deletions t \<le> insertions t \<Longrightarrow> avl_size t = Some (of_nat (length (elements t)))"
proof -
  have "insertions t = deletions t \<longleftrightarrow> (of_nat (length (elements t)) :: u32) = of_nat 0"
    using assms(1) by (auto simp: avl_inv_def)
  also have "\<dots> \<longleftrightarrow> elements t = []" using of_nat_eq_u32 [of "length (elements t)" 0] assms(2) by simp
  finally have eq: "root t = Null \<longleftrightarrow> insertions t = deletions t" by (simp add: elements_def)
  then show "avl_empty t = Some (elements t = [])" by (simp add: avl_empty_def elements_def)
  show "avl_size t = Some (of_nat (length (elements t)))" if "deletions t \<le> insertions t"
    using that eq assms(1) by (simp add: avl_size_def avl_inv_def)
qed

section \<open>The interface of an ordered collection\<close>

text \<open>
  What the users of the tree rely on: a collection of elements with distinct keys, kept in the order
  of the keys.
\<close>

datatype ('e, 'k) collection_op = Insert 'e | Remove 'k

primrec run_collection ::
    "('t \<Rightarrow> 'e \<Rightarrow> 't option) \<Rightarrow> ('t \<Rightarrow> 'k \<Rightarrow> ('e option \<times> 't) option)
      \<Rightarrow> ('e, 'k) collection_op list \<Rightarrow> 't \<Rightarrow> 't option" where
  "run_collection ins rem [] t = Some t"
| "run_collection ins rem (op # ops) t =
     (case op of Insert e \<Rightarrow> ins t e | Remove k \<Rightarrow> map_option snd (rem t k)) \<bind> run_collection ins rem ops"

definition list_insert :: "('e \<Rightarrow> 'k::linorder) \<Rightarrow> 'e list \<Rightarrow> 'e \<Rightarrow> 'e list option" where
  "list_insert key es e = (if key e \<in> key ` set es then None else Some (insort_key key e es))"

definition list_remove :: "('e \<Rightarrow> 'k::linorder) \<Rightarrow> 'e list \<Rightarrow> 'k \<Rightarrow> ('e option \<times> 'e list) option" where
  "list_remove key es k = Some (List.find (\<lambda>e. key e = k) es, filter (\<lambda>e. key e \<noteq> k) es)"

locale ordered_collection =
  fixes key :: "'e \<Rightarrow> 'k::linorder"
    and inv :: "'t \<Rightarrow> bool"
    and elems :: "'t \<Rightarrow> 'e list"
    and ins :: "'t \<Rightarrow> 'e \<Rightarrow> 't option"
    and rem :: "'t \<Rightarrow> 'k \<Rightarrow> ('e option \<times> 't) option"
    and look :: "'t \<Rightarrow> 'k \<Rightarrow> 'e option"
  assumes elems_ordered: "inv t \<Longrightarrow> ordered key (elems t)"
    and ins_new: "inv t \<Longrightarrow> key e \<notin> key ` set (elems t)
          \<Longrightarrow> \<exists>u. ins t e = Some u \<and> inv u \<and> elems u = insort_key key e (elems t)"
    and ins_duplicate: "inv t \<Longrightarrow> key e \<in> key ` set (elems t) \<Longrightarrow> ins t e = None"
    and rem_law: "inv t \<Longrightarrow> \<exists>u. rem t k = Some (List.find (\<lambda>e. key e = k) (elems t), u)
          \<and> inv u \<and> elems u = filter (\<lambda>e. key e \<noteq> k) (elems t)"
    and look_law: "inv t \<Longrightarrow> look t k = List.find (\<lambda>e. key e = k) (elems t)"
begin

lemma step_refines:
  "inv t \<Longrightarrow> rel_option (\<lambda>u es. inv u \<and> elems u = es)
     (case op of Insert e \<Rightarrow> ins t e | Remove k \<Rightarrow> map_option snd (rem t k))
     (case op of Insert e \<Rightarrow> list_insert key (elems t) e
               | Remove k \<Rightarrow> map_option snd (list_remove key (elems t) k))"
proof (cases op)
  case (Insert e)
  assume "inv t"
  with Insert show ?thesis using ins_new [of t e] ins_duplicate [of t e]
    by (cases "key e \<in> key ` set (elems t)") (auto simp: list_insert_def)
next
  case (Remove k)
  assume "inv t"
  with Remove show ?thesis using rem_law [of t k] by (auto simp: list_remove_def)
qed

lemma run_refines:
  "inv t \<Longrightarrow> rel_option (\<lambda>u es. inv u \<and> elems u = es)
     (run_collection ins rem ops t) (run_collection (list_insert key) (list_remove key) ops (elems t))"
proof (induction ops arbitrary: t)
  case (Cons op ops)
  from step_refines [OF Cons.prems, of op] show ?case
  proof (cases rule: option.rel_cases)
    case (Some u es)
    then show ?thesis using Cons.IH [of u] by simp
  qed simp
qed simp

lemma run_elems:
  "inv t \<Longrightarrow> map_option elems (run_collection ins rem ops t)
     = run_collection (list_insert key) (list_remove key) ops (elems t)"
  using run_refines [of t ops] by (cases rule: option.rel_cases) auto

lemma run_inv: "inv t \<Longrightarrow> run_collection ins rem ops t = Some u \<Longrightarrow> inv u"
  using run_refines [of t ops] by (cases rule: option.rel_cases) auto

lemma look_after_insert:
  "inv t \<Longrightarrow> ins t e = Some u \<Longrightarrow> look u k = (if k = key e then Some e else look t k)"
proof -
  assume inv: "inv t" and u: "ins t e = Some u"
  then have new: "key e \<notin> key ` set (elems t)" using ins_duplicate [of t e] by auto
  then have "inv u" "elems u = insort_key key e (elems t)" using ins_new [OF inv new] u by auto
  moreover have "List.find (\<lambda>x. key x = k) (insort_key key e es) =
      (if k = key e then Some e else List.find (\<lambda>x. key x = k) es)" if "key e \<notin> key ` set es" for es
    using that by (induction es) auto
  ultimately show ?thesis using inv new by (simp add: look_law)
qed

end

lemma avl_elems_ordered: "avl_inv key t \<Longrightarrow> ordered key (elements t)"
  by (simp add: avl_inv_def)

interpretation avl: ordered_collection key "avl_inv key" elements "avl_insert key" "avl_remove_key key"
    "avl_lookup key" for key :: "'e \<Rightarrow> 'k::linorder"
  by unfold_locales
    (fact avl_elems_ordered avl_insert_ok avl_insert_duplicate avl_remove_key_ok avl_lookup_eq)+

lemma avl_inv_new [simp]: "avl_inv key AVLTree_new" "elements AVLTree_new = []"
  by (simp_all add: avl_inv_def AVLTree_new_def elements_def)

lemma run_length:
  "run_collection (list_insert key) (list_remove key) ops es = Some es' \<Longrightarrow> length es' \<le> length es + length ops"
proof (induction ops arbitrary: es)
  case (Cons op ops)
  then obtain mid where
      step: "(case op of Insert e \<Rightarrow> list_insert key es e | Remove k \<Rightarrow> map_option snd (list_remove key es k)) = Some mid"
      and "run_collection (list_insert key) (list_remove key) ops mid = Some es'"
    by (auto simp: Option.bind_eq_Some_conv)
  moreover have "length mid \<le> Suc (length es)"
    using step by (cases op) (auto simp: list_insert_def list_remove_def le_SucI split: if_splits)
  ultimately show ?case using Cons.IH [of mid] by simp
qed simp

section \<open>Properties\<close>

abbreviation avl_run :: "('e \<Rightarrow> 'k::linorder) \<Rightarrow> ('e, 'k) collection_op list \<Rightarrow> 'e avl_tree option" where
  "avl_run key ops \<equiv> run_collection (avl_insert key) (avl_remove_key key) ops AVLTree_new"

lemma avl_run_facts:
  assumes "avl_run key ops = Some t"
  shows "avl_inv key t" "length (elements t) \<le> length ops"
  using avl.run_inv [OF avl_inv_new(1) assms] avl.run_elems [OF avl_inv_new(1), of key ops] assms
    run_length [of key ops "[]" "elements t"]
  by simp_all

text \<open>
  C6: Whatever sequence of insertions and removals a new tree goes through, the rotating tree behaves
  as a list sorted by key: it stops on an assertion exactly where a key is inserted a second time,
  and otherwise holds, in order, exactly the elements of the list.
\<close>

theorem avl_refines_sorted_list:
  "map_option elements (avl_run key ops) = run_collection (list_insert key) (list_remove key) ops []"
  using avl.run_elems [OF avl_inv_new(1), of key ops] by simp

text \<open>
  C14: Every tree reached by fewer than \<open>2 ^ 32 - 1\<close> operations passes the library's own consistency
  check (no balance field is wrong, no key out of order, the counters agree with the nodes), and its
  depth is at most twice the binary logarithm of its size.
\<close>

theorem avl_reachable_balanced:
  assumes "avl_run key ops = Some t" "length ops < 4294967295"
  shows "avl_check key t = Some () \<and> 2 ^ (avl_height (root t) div 2) \<le> Suc (length (elements t))"
  using avl_run_facts [OF assms(1)] assms(2) avl_check_ok [of key t] avl_height_log [of "root t"]
  by (simp add: avl_inv_def elements_def)

theorem avl_reachable_balanced_witness:
  "\<exists>t. avl_run (\<lambda>n::nat. n) [Insert 1, Insert 2, Insert 3, Remove 1] = Some t
     \<and> avl_check (\<lambda>n::nat. n) t = Some ()"
proof -
  let ?ops = "[Insert 1, Insert 2, Insert 3, Remove 1] :: (nat, nat) collection_op list"
  have "\<exists>t. avl_run (\<lambda>n. n) ?ops = Some t"
    by (simp add: AVLTree_new_def avl_insert_def avl_node_insert_def avl_remove_key_def Let_def
        rightAdded.simps leftAdded.simps singleRotate_def promote_def avl_node_remove.simps shorter_at_def
        gotOneShorter.simps)
  then obtain t where "avl_run (\<lambda>n. n) ?ops = Some t" by blast
  then show ?thesis using avl_reachable_balanced [of "\<lambda>n::nat. n" ?ops t] by auto
qed

text \<open>
  C21: In every reachable tree the searches return what their names say of the stored elements: the
  element with the key, the last one with a smaller (or equal) key, the first one with a greater (or
  equal) key, the first and the last element; none of the order assertions on the way fails.
\<close>

theorem avl_searches_correct:
  assumes "avl_run key ops = Some t"
  shows "avl_lookup key t k = List.find (\<lambda>e. key e = k) (elements t)
    \<and> findFirstLessThan key t k = last_that (\<lambda>e. key e < k) (elements t)
    \<and> findFirstLessThanOrEqualTo key t k = last_that (\<lambda>e. key e \<le> k) (elements t)
    \<and> findFirstGreaterThan key t k = List.find (\<lambda>e. k < key e) (elements t)
    \<and> findFirstGreaterThanOrEqualTo key t k = List.find (\<lambda>e. k \<le> key e) (elements t)
    \<and> findMin key t = Some (if elements t = [] then None else Some (hd (elements t)))
    \<and> findMax key t = Some (if elements t = [] then None else Some (last (elements t)))"
  using avl_run_facts(1) [OF assms] by (simp add: avl_lookup_eq avl_find_eq avl_min_max_eq)

theorem avl_searches_correct_witness:
  "\<exists>t. avl_run (\<lambda>n::nat. n) [Insert 4, Insert 2] = Some t
     \<and> findFirstLessThan (\<lambda>n. n) t 3 = last_that (\<lambda>e. e < 3) (elements t)"
proof -
  let ?ops = "[Insert 4, Insert 2] :: (nat, nat) collection_op list"
  have "\<exists>t. avl_run (\<lambda>n. n) ?ops = Some t"
    by (simp add: AVLTree_new_def avl_insert_def avl_node_insert_def Let_def
        rightAdded.simps leftAdded.simps)
  then obtain t where "avl_run (\<lambda>n. n) ?ops = Some t" by blast
  then show ?thesis using avl_searches_correct [of "\<lambda>n::nat. n" ?ops t 3] by auto
qed

text \<open>
  C22: Walking a reachable tree by repeated search for the next larger key ends, and calls the function
  once for each element, in the order of the keys; the walk that looks for an element stops at the
  first one the function accepts.
\<close>

theorem avl_walks_in_order:
  assumes "avl_run key ops = Some t"
  shows "avl_foreach key func t data = Some (fold func (elements t) data)
    \<and> avl_firstthat key accept t data' = Some (scan accept (elements t) data')"
  using avl_run_facts(1) [OF assms] by (simp add: avl_iterate_eq)

theorem avl_walks_in_order_witness:
  "\<exists>t. avl_run (\<lambda>n::nat. n) [Insert 4, Insert 2] = Some t
     \<and> avl_foreach (\<lambda>n. n) (\<lambda>e es. es @ [e]) t [] = Some (fold (\<lambda>e es. es @ [e]) (elements t) [])"
proof -
  let ?ops = "[Insert 4, Insert 2] :: (nat, nat) collection_op list"
  have "\<exists>t. avl_run (\<lambda>n. n) ?ops = Some t"
    by (simp add: AVLTree_new_def avl_insert_def avl_node_insert_def Let_def
        rightAdded.simps leftAdded.simps)
  then obtain t where "avl_run (\<lambda>n. n) ?ops = Some t" by blast
  then show ?thesis
    using avl_walks_in_order [of "\<lambda>n::nat. n" ?ops t "\<lambda>e es. es @ [e]" "[]" "\<lambda>e s. (True, s)" "()"] by auto
qed

end
