(* ===== verification/Origin_File.thy ===== *)
theory Origin_File
  imports Merkle_Validation
begin

text \<open>
  Files that are hashed at their origin, \<^verbatim>\<open>common/zftp_module/ZOriginFile.cpp\<close>: the blocks are loaded in any order,
  the hashes climb the same tree that \<open>Merkle_File\<close> validates downwards, and the root gives the name of the file.
  The main result is that the name is the one of a reference definition by recursion on the list of
  the blocks' hashes, in which a subtree without blocks has one fixed hash.
\<close>

section \<open>Definitions\<close>

text \<open>\<open>sizeof(ZFTP_BLOCK_SIZE)\<close> is the size of an int, so four zero bytes are hashed.\<close>

definition hash_of_block_of_zeros :: "'d zenv \<Rightarrow> hash_t" where
  "hash_of_block_of_zeros env = zhash env (replicate 4 0)"

primrec mark_margins :: "nat \<Rightarrow> u32 \<Rightarrow> ZCachedFile \<Rightarrow> ZCachedFile option" where
  "mark_margins 0 margin f = Some f"
| "mark_margins (Suc n) margin f = do {
     vmr \<leftarrow> tree_at f margin;
     mark_margins n (margin + 1) (tree_set f margin (vmr\<lparr>vmr_state := v_margin\<rparr>)) }"

definition fill_in_level :: "'d zenv \<Rightarrow> ZCachedFile \<Rightarrow> nat \<Rightarrow> ZCachedFile option" where
  "fill_in_level env f level = do {
     let lastcol = drop_bit (tree_depth f - level) (num_blocks f - 1);
     lastloc \<leftarrow> tree_index level (sint lastcol) (tree_size f);
     sibling \<leftarrow> sibling_location lastloc;
     (f, margin_start) \<leftarrow>
       (if sibling > lastloc then do {
          _ \<leftarrow> tree_at f sibling;
          Some (tree_set f sibling \<lparr>vmr_hash = hash_of_block_of_zeros env, vmr_state = v_validated\<rparr>, sibling + 1) }
        else Some (f, lastloc + 1));
     end_row \<leftarrow> tree_index level (2 ^ level - 1) (tree_size f);
     mark_margins (unat (end_row + 1) - unat margin_start) margin_start f }"

fun fill_in_levels :: "'d zenv \<Rightarrow> nat list \<Rightarrow> ZCachedFile \<Rightarrow> ZCachedFile option" where
  "fill_in_levels env [] f = Some f"
| "fill_in_levels env (level # levels) f = do { f \<leftarrow> fill_in_level env f level; fill_in_levels env levels f }"

definition fill_in_sibling_hashes :: "'d zenv \<Rightarrow> ZCachedFile \<Rightarrow> ZCachedFile option" where
  "fill_in_sibling_hashes env f =
     (if num_blocks f = 0 then do {
        _ \<leftarrow> tree_at f 0;
        Some (tree_set f 0 \<lparr>vmr_hash = hash_of_block_of_zeros env, vmr_state = v_validated\<rparr>) }
      else fill_in_levels env [1..<tree_depth f + 1] f)"

definition ZOriginFile_new :: "'d zenv \<Rightarrow> u32 \<Rightarrow> u32 \<Rightarrow> ZCachedFile option" where
  "ZOriginFile_new env len flgs =
     (let f = (zcf_ctor_init (of_le_bytes (replicate HASH_SIZE 6)) True)
                \<lparr>metadata := \<lparr>file_len_network_order = z_htonl len, flags = z_htonl flgs\<rparr>\<rparr>
      in fill_in_sibling_hashes env (configure_from_metadata f))"

definition mark_node_on_block_load :: "'d zenv \<Rightarrow> ZCachedFile \<Rightarrow> u32 \<Rightarrow> ZCachedFile option" where
  "mark_node_on_block_load env f location =
     (if is_origin f \<and> location = 0 then do {
        vmr \<leftarrow> tree_at f 0;
        Some (tree_set f 0 (vmr\<lparr>vmr_state := v_validated\<rparr>)) }
      else mark_node_tentative env f location)"

definition load_block ::
    "'d zenv \<Rightarrow> ZCachedFile \<Rightarrow> 'd ZBlockCache \<Rightarrow> u32 \<Rightarrow> bytes \<Rightarrow> u32 \<Rightarrow> (ZCachedFile \<times> 'd ZBlockCache) option" where
  "load_block env f bc block_num in_data valid_data_len = do {
     block \<leftarrow> zbcr_from_data env in_data valid_data_len;
     let hash = zbcr_hash block;
     (_, bc) \<leftarrow> block_insert env bc block;
     leaf_location \<leftarrow> tree_index (tree_depth f) (sint block_num) (tree_size f);
     vmr \<leftarrow> tree_at f leaf_location;
     (if vmr_state vmr = v_validated then Some (f, bc)
      else do {
        f \<leftarrow> mark_node_on_block_load env (tree_set f leaf_location (vmr\<lparr>vmr_hash := hash\<rparr>)) leaf_location;
        Some (f, bc) }) }"

definition origin_load_block ::
    "'d zenv \<Rightarrow> ZCachedFile \<Rightarrow> 'd ZBlockCache \<Rightarrow> u32 \<Rightarrow> bytes \<Rightarrow> u32 \<Rightarrow> (ZCachedFile \<times> 'd ZBlockCache) option" where
  "origin_load_block = load_block"

primrec validate_upto :: "nat \<Rightarrow> u32 \<Rightarrow> ZCachedFile \<Rightarrow> ZCachedFile option" where
  "validate_upto 0 location f = Some f"
| "validate_upto (Suc n) location f = do {
     vmr \<leftarrow> tree_at f location;
     lite_assert (vmr_state vmr \<noteq> v_unknown);
     validate_upto n (location + 1) (tree_set f location (vmr\<lparr>vmr_state := v_validated\<rparr>)) }"

text \<open>\<^verbatim>\<open>origin_finish_load\<close> up to the point where the result is handed to the cache.\<close>

definition origin_finish_hash :: "'d zenv \<Rightarrow> ZCachedFile \<Rightarrow> ZCachedFile option" where
  "origin_finish_hash env f = do {
     root \<leftarrow> tree_at f 0;
     lite_assert (vmr_state root \<noteq> v_unknown);
     let f = f\<lparr>file_hash := compute_file_hash env (metadata f) (vmr_hash root)\<rparr>;
     (if num_blocks f > 0 then do {
        last_location \<leftarrow> tree_index (tree_depth f) (sint (num_blocks f - 1)) (tree_size f);
        validate_upto (unat last_location + 1) 0 f }
      else do {
        lite_assert (tree_size f = 1);
        root \<leftarrow> tree_at f 0;
        lite_assert (vmr_state root = v_validated);
        Some f }) }"

fun origin_load_blocks ::
    "'d zenv \<Rightarrow> (nat \<times> bytes) list \<Rightarrow> ZCachedFile \<Rightarrow> 'd ZBlockCache \<Rightarrow> (ZCachedFile \<times> 'd ZBlockCache) option" where
  "origin_load_blocks env [] f bc = Some (f, bc)"
| "origin_load_blocks env ((k, d) # blks) f bc = do {
     (f, bc) \<leftarrow> origin_load_block env f bc (of_nat k) d (of_nat (length d));
     origin_load_blocks env blks f bc }"

section \<open>The reference\<close>

text \<open>The hash of the tree of a given depth over a list of block hashes.\<close>

fun merkle_root :: "'d zenv \<Rightarrow> nat \<Rightarrow> hash_t list \<Rightarrow> hash_t" where
  "merkle_root env d [] = hash_of_block_of_zeros env"
| "merkle_root env 0 (h # ks) = h"
| "merkle_root env (Suc d) (h # ks) =
     pair_hash env (merkle_root env d (take (2 ^ d) (h # ks))) (merkle_root env d (drop (2 ^ d) (h # ks)))"

definition block_hash :: "'d zenv \<Rightarrow> bytes \<Rightarrow> hash_t" where
  "block_hash env d = zhash env (d @ replicate (BLOCK - length d) 0)"

section \<open>Levels and columns\<close>

definition pos :: "nat \<Rightarrow> nat \<Rightarrow> nat" where
  "pos l c = 2 ^ l - 1 + c"

text \<open>A node is in the body when there is a block below it, and stranded when only its left sibling is.\<close>

definition body :: "nat \<Rightarrow> nat \<Rightarrow> nat \<Rightarrow> nat \<Rightarrow> bool" where
  "body nb d l c \<longleftrightarrow> c * 2 ^ (d - l) < nb"

definition stranded :: "nat \<Rightarrow> nat \<Rightarrow> nat \<Rightarrow> nat \<Rightarrow> bool" where
  "stranded nb d l c \<longleftrightarrow> odd c \<and> \<not> body nb d l c \<and> body nb d l (c - 1)"

definition node_ref :: "'d zenv \<Rightarrow> nat \<Rightarrow> hash_t list \<Rightarrow> nat \<Rightarrow> nat \<Rightarrow> hash_t" where
  "node_ref env d ks l c = merkle_root env (d - l) (take (2 ^ (d - l)) (drop (c * 2 ^ (d - l)) ks))"

lemma pos_children: "2 * pos l c + 1 = pos (Suc l) (2 * c)" "2 * pos l c + 2 = pos (Suc l) (2 * c + 1)"
proof -
  define k :: nat where "k = 2 ^ l"
  have "1 \<le> k" by (simp add: k_def)
  then show "2 * pos l c + 1 = pos (Suc l) (2 * c)" "2 * pos l c + 2 = pos (Suc l) (2 * c + 1)"
    unfolding pos_def power_Suc k_def [symmetric] by simp_all
qed

lemma pos_parity: "0 < l \<Longrightarrow> odd (pos l c) \<longleftrightarrow> even c"
  by (cases l) (auto simp: pos_def)

lemma pos_eq_0: "c < 2 ^ l \<Longrightarrow> pos l c = 0 \<longleftrightarrow> l = 0"
proof (cases l)
  case (Suc k)
  moreover have "1 < (2 :: nat) ^ Suc k" by (rule one_less_power) simp_all
  ultimately have "0 < pos l c" by (simp add: pos_def)
  then show ?thesis using Suc by simp
qed (simp add: pos_def)

lemma pos_in_nodes:
  assumes "l \<le> d" and "c < 2 ^ l"
  shows "pos l c < 2 ^ (d + 1) - 1"
proof -
  have "(2 :: nat) ^ (l + 1) \<le> 2 ^ (d + 1)" by (rule power_increasing) (use assms(1) in simp_all)
  then have "2 * 2 ^ l \<le> (2 :: nat) ^ (d + 1)" by simp
  moreover have "1 \<le> (2 :: nat) ^ l" by simp
  ultimately show ?thesis using assms(2) unfolding pos_def by linarith
qed

lemma pos_cover:
  assumes "n < 2 ^ (d + 1) - 1"
  obtains l c where "l \<le> d" and "c < 2 ^ l" and "n = pos l c"
  using assms
proof (induction d arbitrary: thesis)
  case 0
  show ?case by (rule 0(1) [of 0 0]) (use 0(2) in \<open>simp_all add: pos_def\<close>)
next
  case (Suc d)
  show ?case
  proof (cases "n < 2 ^ (d + 1) - 1")
    case True
    obtain l c where "l \<le> d" "c < 2 ^ l" "n = pos l c" by (rule Suc.IH [OF _ True])
    then show ?thesis using Suc.prems(1) [of l c] by simp
  next
    case False
    show ?thesis by (rule Suc.prems(1) [of "Suc d" "n - (2 ^ (d + 1) - 1)"]) (use False Suc.prems(2) in \<open>auto simp: pos_def\<close>)
  qed
qed

lemma pos_inject:
  assumes "pos l c = pos l' c'" and "c < 2 ^ l" and "c' < 2 ^ l'"
  shows "l = l' \<and> c = c'"
proof (cases l l' rule: linorder_cases)
  case less
  then have "(2 :: nat) ^ (l + 1) \<le> 2 ^ l'" by (intro power_increasing) simp_all
  moreover have "1 \<le> (2 :: nat) ^ l" by simp
  ultimately show ?thesis using assms(1,2) unfolding pos_def power_add power_one_right by linarith
next
  case greater
  then have "(2 :: nat) ^ (l' + 1) \<le> 2 ^ l" by (intro power_increasing) simp_all
  moreover have "1 \<le> (2 :: nat) ^ l'" by simp
  ultimately show ?thesis using assms(1,3) unfolding pos_def power_add power_one_right by linarith
next
  case equal
  then have "(2 ^ l - 1) + c = (2 ^ l - 1) + c'" using assms(1) by (simp only: pos_def)
  then show ?thesis using equal add_left_cancel by blast
qed

lemma body_children:
  assumes "l < d"
  shows "body nb d (Suc l) (2 * c) \<longleftrightarrow> body nb d l c" and "body nb d (Suc l) (2 * c + 1) \<Longrightarrow> body nb d l c"
proof -
  have "d - l = Suc (d - Suc l)" using assms by simp
  then have e: "2 ^ (d - l) = (2 :: nat) * 2 ^ (d - Suc l)" by simp
  show "body nb d (Suc l) (2 * c) \<longleftrightarrow> body nb d l c" by (simp add: body_def e mult.assoc mult.left_commute)
  show "body nb d (Suc l) (2 * c + 1) \<Longrightarrow> body nb d l c" by (simp add: body_def e mult.assoc mult.left_commute)
qed

lemma body_mono: "body nb d l c \<Longrightarrow> c' \<le> c \<Longrightarrow> body nb d l c'"
  unfolding body_def by (meson le_less_trans mult_le_mono1)

subsection \<open>The reference by nodes\<close>

lemma node_ref_leaf: "c < length ks \<Longrightarrow> node_ref env d ks d c = ks ! c"
proof -
  assume "c < length ks"
  then obtain k ks' where "drop c ks = k # ks'" "k = ks ! c" by (metis Cons_nth_drop_Suc)
  then show ?thesis by (simp add: node_ref_def)
qed

lemma merkle_root_Nil [simp]: "merkle_root env d [] = hash_of_block_of_zeros env"
  by (cases d) simp_all

lemma node_ref_outside: "\<not> body (length ks) d l c \<Longrightarrow> node_ref env d ks l c = hash_of_block_of_zeros env"
  by (simp add: node_ref_def body_def)

lemma merkle_root_split:
  "ks \<noteq> [] \<Longrightarrow> merkle_root env (Suc d) ks =
     pair_hash env (merkle_root env d (take (2 ^ d) ks)) (merkle_root env d (drop (2 ^ d) ks))"
  by (cases ks) simp_all

lemma node_ref_inner:
  assumes "l < d" and "body (length ks) d l c"
  shows "node_ref env d ks l c = pair_hash env (node_ref env d ks (Suc l) (2 * c)) (node_ref env d ks (Suc l) (2 * c + 1))"
proof -
  define e where "e = d - Suc l"
  have dl: "d - l = Suc e" using assms(1) by (simp add: e_def)
  let ?xs = "drop (c * 2 ^ Suc e) ks"
  have ne: "take (2 ^ Suc e) ?xs \<noteq> []" using assms(2) by (simp add: body_def dl)
  have "take (2 ^ e) (take (2 ^ Suc e) ?xs) = take (2 ^ e) (drop (2 * c * 2 ^ e) ks)"
    by (simp add: min_def mult.assoc mult.left_commute)
  moreover have "drop (2 ^ e) (take (2 ^ Suc e) ?xs) = take (2 ^ e) (drop ((2 * c + 1) * 2 ^ e) ks)"
    by (simp add: drop_take add.commute mult.assoc mult.left_commute)
  ultimately show ?thesis
    unfolding node_ref_def dl e_def [symmetric] merkle_root_split [OF ne] by simp
qed

section \<open>The climb\<close>

definition origin_node :: "'d zenv \<Rightarrow> hash_t list \<Rightarrow> ZCachedFile \<Rightarrow> nat \<Rightarrow> nat \<Rightarrow> bool" where
  "origin_node env ks f l c \<longleftrightarrow>
     (if body (length ks) (tree_depth f) l c then st f (pos l c) \<noteq> v_margin \<and> (0 < l \<longrightarrow> st f (pos l c) \<noteq> v_validated)
      else if stranded (length ks) (tree_depth f) l c then st f (pos l c) = v_validated
      else st f (pos l c) = v_margin)
     \<and> (st f (pos l c) = v_tentative \<or> st f (pos l c) = v_validated
          \<longrightarrow> hs f (pos l c) = node_ref env (tree_depth f) ks l c)"

definition origin_inv :: "'d zenv \<Rightarrow> hash_t list \<Rightarrow> nat option \<Rightarrow> ZCachedFile \<Rightarrow> bool" where
  "origin_inv env ks waiting f \<longleftrightarrow> tree_sized f \<and> is_origin f
     \<and> (\<forall>l c. l \<le> tree_depth f \<and> c < 2 ^ l \<longrightarrow> origin_node env ks f l c) \<and> closed_upwards waiting f"

lemma origin_nodes: "tree_sized f \<Longrightarrow> l \<le> tree_depth f \<Longrightarrow> c < 2 ^ l \<Longrightarrow> pos l c < nodes f"
  using pos_in_nodes [of l "tree_depth f" c] by (simp add: tree_sized_nodes(1))

definition with_node :: "ZCachedFile \<Rightarrow> nat \<Rightarrow> ValidatedMerkleRecord \<Rightarrow> ZCachedFile" where
  "with_node f n v = f\<lparr>tree := (tree f)[n := v]\<rparr>"

lemma with_node_simps [simp]:
  "nodes (with_node f n v) = nodes f" "tree_sized (with_node f n v) = tree_sized f" "is_origin (with_node f n v) = is_origin f"
  "tree_depth (with_node f n v) = tree_depth f" "tree_size (with_node f n v) = tree_size f"
  "num_blocks (with_node f n v) = num_blocks f" "metadata (with_node f n v) = metadata f"
  "tree (with_node f n v) = (tree f)[n := v]"
  by (simp_all add: with_node_def tree_sized_def)

lemma vmr_updates:
  fixes v :: ValidatedMerkleRecord
  shows "v\<lparr>vmr_state := s\<rparr> = \<lparr>vmr_hash = vmr_hash v, vmr_state = s\<rparr>" and "v\<lparr>vmr_hash := h\<rparr> = \<lparr>vmr_hash = h, vmr_state = vmr_state v\<rparr>"
  by (cases v; simp)+

lemma tree_set_with_node: "tree_set f loc v = with_node f (unat loc) v"
  by (simp add: tree_set_def with_node_def)

text \<open>Filling in a node of the body with its true hash keeps the description of the nodes.\<close>

lemma origin_node_fill:
  assumes "origin_node env ks f l' c'" and "l \<le> tree_depth f" and "c < 2 ^ l" and "l' \<le> tree_depth f" and "c' < 2 ^ l'"
    and "tree_sized f" and "body (length ks) (tree_depth f) l c"
    and "s = v_tentative \<or> s = v_unknown \<or> s = v_validated \<and> l = 0" and "s \<noteq> v_unknown \<longrightarrow> h = node_ref env (tree_depth f) ks l c"
  shows "origin_node env ks (with_node f (pos l c) \<lparr>vmr_hash = h, vmr_state = s\<rparr>) l' c'"
proof (cases "pos l' c' = pos l c")
  case True
  then have "l' = l" "c' = c" using pos_inject assms(3,5) by blast+
  then show ?thesis
    using assms(7-9) origin_nodes [OF assms(6,2,3)] by (auto simp: origin_node_def)
next
  case False
  then show ?thesis using assms(1) by (simp add: origin_node_def)
qed

lemma origin_sibling_known:
  assumes "origin_inv env ks w f" and "Suc l \<le> tree_depth f" and "c < 2 ^ l"
    and "body (length ks) (tree_depth f) l c"
    and "known f (2 * pos l c + 1)" and "known f (2 * pos l c + 2)"
  shows "pair_hash env (hs f (2 * pos l c + 1)) (hs f (2 * pos l c + 2)) = node_ref env (tree_depth f) ks l c"
proof -
  let ?d = "tree_depth f" and ?nb = "length ks"
  have l: "l < ?d" using assms(2) by simp
  have left: "body ?nb ?d (Suc l) (2 * c)" using body_children(1) [OF l] assms(4) by blast
  have node: "origin_node env ks f (Suc l) c'" if "c' < 2 ^ Suc l" for c'
    using assms(1,2) that unfolding origin_inv_def by blast
  have "origin_node env ks f (Suc l) (2 * c)" "origin_node env ks f (Suc l) (2 * c + 1)"
    using assms(3) by (intro node; simp)+
  moreover have "body ?nb ?d (Suc l) (2 * c + 1) \<or> stranded ?nb ?d (Suc l) (2 * c + 1)"
    using left by (simp add: stranded_def)
  ultimately have "hs f (pos (Suc l) (2 * c)) = node_ref env ?d ks (Suc l) (2 * c)"
    "hs f (pos (Suc l) (2 * c + 1)) = node_ref env ?d ks (Suc l) (2 * c + 1)"
    using left assms(5,6) unfolding origin_node_def known_def pos_children by (metis ValidityState.exhaust)+
  then show ?thesis using node_ref_inner [OF l assms(4), of env] unfolding pos_children by simp
qed

lemma track_origin: "is_origin f \<Longrightarrow> track_parent_of_tentative_nodes f p = Some f"
  by (simp add: track_parent_of_tentative_nodes_def)

definition more_known :: "ZCachedFile \<Rightarrow> ZCachedFile \<Rightarrow> bool" where
  "more_known f f' \<longleftrightarrow> (\<exists>t. f' = f\<lparr>tree := t\<rparr>) \<and> nodes f' = nodes f \<and> (\<forall>n < nodes f. known f n \<longrightarrow> known f' n)"

lemma more_known_trans [trans]: "more_known f g \<Longrightarrow> more_known g h \<Longrightarrow> more_known f h"
  by (auto simp: more_known_def)

lemma more_known_with_node: "n < nodes f \<Longrightarrow> vmr_state v \<noteq> v_unknown \<or> \<not> known f n \<Longrightarrow> more_known f (with_node f n v)"
  by (auto simp: more_known_def with_node_def known_def nth_list_update)

lemma known_with_node: "known (with_node f n v) m \<longleftrightarrow> (if n = m \<and> n < nodes f then vmr_state v \<noteq> v_unknown else known f m)"
  by (cases "n = m"; cases "n < nodes f") (simp_all add: known_def list_update_beyond)

lemma closed_upwards_with_node:
  assumes "closed_upwards w f" and "n < nodes f" and "vmr_state v \<noteq> v_unknown" and "w = Some n \<or> w = None"
  shows "closed_upwards (if n = 0 then None else Some ((n - 1) div 2)) (with_node f n v)"
  unfolding closed_upwards_def
proof (intro allI impI)
  fix p assume p: "2 * p + 2 < nodes (with_node f n v) \<and> (if n = 0 then None else Some ((n - 1) div 2)) \<noteq> Some p
    \<and> known (with_node f n v) (2 * p + 1) \<and> known (with_node f n v) (2 * p + 2)"
  have "n \<noteq> 2 * p + 1" "n \<noteq> 2 * p + 2" using p by (auto split: if_splits)
  then have "known f (2 * p + 1)" "known f (2 * p + 2)" using p by (simp_all add: known_with_node split: if_splits)
  then have "w = Some p \<or> known f p" using assms(1) p unfolding closed_upwards_def with_node_simps(1) by blast
  then have "p = n \<or> known f p" using assms(4) by auto
  then show "known (with_node f n v) p" using assms(2,3) by (auto simp: known_with_node)
qed

lemma closed_upwards_weaken: "closed_upwards None f \<Longrightarrow> closed_upwards w f"
  unfolding closed_upwards_def by blast

lemma closed_upwards_settle:
  assumes "closed_upwards (Some p) f" and "pair_known f p \<longrightarrow> known f p"
  shows "closed_upwards None f"
  using assms unfolding closed_upwards_def pair_known_def by (metis option.inject)

lemma origin_mark_ok:
  assumes "origin_inv env ks (Some (pos l c)) f" and "l \<le> tree_depth f" and "c < 2 ^ l" and "unat loc = pos l c"
    and "\<not> known f (pos l c)" and "body (length ks) (tree_depth f) l c"
    and "hs f (pos l c) = node_ref env (tree_depth f) ks l c"
  shows "\<exists>f'. mark_node_tentative env f loc = Some f' \<and> origin_inv env ks None f' \<and> more_known f f' \<and> known f' (pos l c)
    \<and> (\<forall>n \<ge> 2 ^ l - 1. n \<noteq> pos l c \<longrightarrow> known f' n = known f n)"
  using assms
proof (induction l arbitrary: c loc f)
  case 0
  have c0: "c = 0" and loc0: "loc = 0" using "0.prems"(3,4) by (simp_all add: pos_def unat_eq_zero)
  have sized: "tree_sized f" and org: "is_origin f" and cl: "closed_upwards (Some (pos 0 c)) f"
    and all: "\<And>l c. l \<le> tree_depth f \<Longrightarrow> c < 2 ^ l \<Longrightarrow> origin_node env ks f l c"
    using "0.prems"(1) by (auto simp: origin_inv_def)
  have in0: "pos 0 c < nodes f" by (rule origin_nodes [OF sized]) (use "0.prems"(2,3) in simp_all)
  let ?v = "\<lparr>vmr_hash = hs f (pos 0 c), vmr_state = v_tentative\<rparr>"
  let ?f = "with_node f (pos 0 c) ?v"
  have unk: "st f 0 = v_unknown" using "0.prems"(5) c0 by (simp add: known_def pos_def)
  have "mark_node_tentative env f loc = Some ?f"
    using unk org tree_at_in [OF sized, of 0] in0 c0
    by (subst mark_node_tentative.simps)
      (simp add: loc0 assert_root_validated_def Let_def tree_set_with_node pos_def vmr_updates(1))
  moreover have "origin_inv env ks None ?f"
    unfolding origin_inv_def
  proof (intro conjI allI impI)
    show "closed_upwards None ?f"
      using closed_upwards_with_node [OF cl in0, of ?v] c0 by (simp add: pos_def)
    show "origin_node env ks ?f l' c'" if "l' \<le> tree_depth ?f \<and> c' < 2 ^ l'" for l' c'
      by (rule origin_node_fill [OF all]) (use that "0.prems" sized in auto)
  qed (use sized org in simp_all)
  moreover have "more_known f ?f" "known ?f (pos 0 c)"
    using in0 by (auto intro: more_known_with_node simp: known_with_node)
  moreover have "\<forall>n \<ge> 2 ^ 0 - 1. n \<noteq> pos 0 c \<longrightarrow> known ?f n = known f n" by (simp add: known_with_node)
  ultimately show ?case by blast
next
  case (Suc l)
  have sized: "tree_sized f" and org: "is_origin f" and cl: "closed_upwards (Some (pos (Suc l) c)) f"
    and all: "\<And>l c. l \<le> tree_depth f \<Longrightarrow> c < 2 ^ l \<Longrightarrow> origin_node env ks f l c"
    using Suc.prems(1) by (auto simp: origin_inv_def)
  have inn: "unat loc < nodes f" using origin_nodes [OF sized Suc.prems(2,3)] Suc.prems(4) by simp
  have pos: "0 < loc" using pos_eq_0 [OF Suc.prems(3)] Suc.prems(4) by (simp add: word_greater_zero_iff unat_eq_zero [symmetric])
  define c' where "c' = c div 2"
  have c': "c' < 2 ^ l" using Suc.prems(3) by (simp add: c'_def)
  obtain p s where fam: "parent_location loc = p" "sibling_location loc = Some s"
    "left_child p = (if odd (unat loc) then loc else s)" "right_child p = (if odd (unat loc) then s else loc)"
    and up: "unat (left_child p) = 2 * unat p + 1" "unat (right_child p) = 2 * unat p + 2"
    and edge: "2 * unat p + 2 < nodes f" "unat p < unat loc"
    by (rule node_family [OF sized inn pos])
  have kids: "{unat loc, unat s} = {2 * unat p + 1, 2 * unat p + 2}"
    using fam(3,4) up by (auto split: if_splits)
  have up': "unat p = pos l c'"
  proof -
    have "c = 2 * c' \<or> c = 2 * c' + 1" unfolding c'_def by presburger
    then have "unat loc = 2 * pos l c' + 1 \<or> unat loc = 2 * pos l c' + 2" using Suc.prems(4) pos_children [of l c'] by metis
    then show ?thesis using kids by (auto simp: doubleton_eq_iff)
  qed
  let ?n = "pos (Suc l) c" and ?q = "pos l c'"
  let ?v = "\<lparr>vmr_hash = hs f ?n, vmr_state = v_tentative\<rparr>"
  define g where "g = with_node f ?n ?v"
  have g: "nodes g = nodes f" "tree_sized g" "is_origin g" "tree_depth g = tree_depth f"
    by (simp_all add: g_def sized org)
  have n_in: "?n < nodes f" using inn Suc.prems(4) by simp
  have bq: "body (length ks) (tree_depth f) l c'"
    using Suc.prems(2,6) body_children [of l "tree_depth f" "length ks" c']
    by (cases "even c") (auto simp: c'_def elim!: evenE oddE)
  have cl1: "closed_upwards (Some ?q) g"
  proof -
    have "(?n - 1) div 2 = ?q" "?n \<noteq> 0" using kids up' Suc.prems(4) by (auto simp: doubleton_eq_iff)
    then show ?thesis using closed_upwards_with_node [OF cl n_in, of ?v] by (simp add: g_def)
  qed
  have inv1: "origin_inv env ks (Some ?q) g"
    unfolding origin_inv_def
  proof (intro conjI allI impI)
    show "origin_node env ks g l' c''" if "l' \<le> tree_depth g \<and> c'' < 2 ^ l'" for l' c''
      unfolding g_def by (rule origin_node_fill [OF all]) (use that Suc.prems(2-7) sized g(4) in simp_all)
  qed (use g cl1 in simp_all)
  have more1: "more_known f g" and k1: "known g ?n"
    unfolding g_def using n_in by (auto intro: more_known_with_node simp: known_with_node)
  have other: "known g n = known f n" if "n \<noteq> ?n" for n using that by (simp add: g_def known_with_node)
  have set: "tree_set f loc ((tree f ! unat loc)\<lparr>vmr_state := v_tentative\<rparr>) = g"
    unfolding tree_set_with_node Suc.prems(4) vmr_updates g_def ..
  have pin: "unat p < nodes f" "unat s < nodes f" using edge kids by (auto simp: doubleton_eq_iff)
  let ?h = "pair_hash env (hs g (2 * ?q + 1)) (hs g (2 * ?q + 2))"
  have "hash_children env g loc s = Some ?h"
    using hash_children_family [OF g(2) _ up, of env] edge(1) g(1) fam(3,4) unfolding up'
    by (cases "odd (unat loc)") simp_all
  then have mark: "mark_node_tentative env f loc =
    (if \<not> known g ?q \<and> known g (unat s) then mark_node_tentative env (rehash g p ?h) p else Some g)"
    using mark_node_tentative_unfold [OF sized inn pos _ set [symmetric] fam(1,2) track_origin [OF g(3)] g(2), of env]
      Suc.prems(4,5) g(1) pin up'
    by (simp add: rehash_def)
  have ks: "known g (2 * ?q + 1) \<and> known g (2 * ?q + 2) \<longleftrightarrow> known g (unat s)"
    using kids k1 Suc.prems(4) unfolding up' by (auto simp: doubleton_eq_iff)
  show ?case
  proof (cases "\<not> known g ?q \<and> known g (unat s)")
    case False
    then have "closed_upwards None g" using closed_upwards_settle [OF cl1] ks by (simp add: pair_known_def) blast
    then have "origin_inv env ks None g" using inv1 by (simp add: origin_inv_def)
    then show ?thesis using mark False more1 k1 other by auto
  next
    case True
    have href: "?h = node_ref env (tree_depth g) ks l c'"
      by (rule origin_sibling_known [OF inv1]) (use Suc.prems(2) c' bq True ks g(4) in simp_all)
    have re: "rehash g p ?h = with_node g ?q \<lparr>vmr_hash = ?h, vmr_state = v_unknown\<rparr>"
      unfolding rehash_def tree_set_with_node up' vmr_updates using True by (simp only: known_def not_not)
    have q_in: "?q < nodes g" using pin(1) up' g(1) by simp
    have inv2: "origin_inv env ks (Some ?q) (rehash g p ?h)"
      unfolding origin_inv_def re
    proof (intro conjI allI impI)
      show "origin_node env ks (with_node g ?q \<lparr>vmr_hash = ?h, vmr_state = v_unknown\<rparr>) l' c''"
        if "l' \<le> tree_depth (with_node g ?q \<lparr>vmr_hash = ?h, vmr_state = v_unknown\<rparr>) \<and> c'' < 2 ^ l'" for l' c''
        by (rule origin_node_fill) (use that inv1 Suc.prems(2) c' g bq in \<open>simp_all add: origin_inv_def\<close>)
      show "closed_upwards (Some ?q) (with_node g ?q \<lparr>vmr_hash = ?h, vmr_state = v_unknown\<rparr>)"
        using cl1 True by (subst closed_upwards_cong [of _ g]) (auto simp: known_with_node)
    qed (use g in simp_all)
    have "\<exists>f'. mark_node_tentative env (rehash g p ?h) p = Some f' \<and> origin_inv env ks None f'
        \<and> more_known (rehash g p ?h) f' \<and> known f' ?q \<and> (\<forall>n \<ge> 2 ^ l - 1. n \<noteq> ?q \<longrightarrow> known f' n = known (rehash g p ?h) n)"
    proof (rule Suc.IH [OF inv2 _ c' up'])
      have h: "hs (with_node g ?q \<lparr>vmr_hash = ?h, vmr_state = v_unknown\<rparr>) ?q = ?h" using q_in by simp
      have td: "tree_depth (rehash g p ?h) = tree_depth g" unfolding re by simp
      show "hs (rehash g p ?h) ?q = node_ref env (tree_depth (rehash g p ?h)) ks l c'"
        unfolding td href [symmetric] by (subst re) (rule h)
      show "\<not> known (rehash g p ?h) ?q" unfolding re using q_in by (simp add: known_with_node)
      show "body (length ks) (tree_depth (rehash g p ?h)) l c'" "l \<le> tree_depth (rehash g p ?h)"
        unfolding re using bq Suc.prems(2) g(4) by simp_all
    qed
    then obtain f' where f': "mark_node_tentative env (rehash g p ?h) p = Some f'" "origin_inv env ks None f'"
        "more_known (rehash g p ?h) f'" "\<forall>n \<ge> 2 ^ l - 1. n \<noteq> ?q \<longrightarrow> known f' n = known (rehash g p ?h) n" by blast
    have more2: "more_known g (rehash g p ?h)"
      unfolding re by (rule more_known_with_node [OF q_in]) (use True in simp)
    have "more_known g f'" by (rule more_known_trans [OF more2 f'(3)])
    moreover from this have "known f' ?n" using k1 n_in g(1) unfolding more_known_def by metis
    ultimately have "more_known f f'" "known f' ?n" using more_known_trans [OF more1] by blast+
    moreover have "known f' n = known f n" if "2 ^ Suc l - 1 \<le> n" "n \<noteq> ?n" for n
    proof -
      have "?q < 2 ^ Suc l - 1" "2 ^ l - 1 \<le> ?q" using c' by (simp_all add: pos_def)
      then have "n \<noteq> ?q" "2 ^ l - 1 \<le> n" using that(1) by auto
      then have "known f' n = known (rehash g p ?h) n" using f'(4) by blast
      also have "\<dots> = known g n" unfolding re using \<open>n \<noteq> ?q\<close> by (simp add: known_with_node)
      finally show ?thesis using other [OF that(2)] by simp
    qed
    ultimately show ?thesis using mark True f'(1,2) by simp
  qed
qed

section \<open>The margin\<close>

lemma mark_margins_ok:
  assumes "tree_sized f" and "unat m + n \<le> nodes f"
  shows "\<exists>f'. mark_margins n m f = Some f' \<and> (\<exists>t. f' = f\<lparr>tree := t\<rparr>) \<and> nodes f' = nodes f
    \<and> (\<forall>k. tree f' ! k = (if unat m \<le> k \<and> k < unat m + n then (tree f ! k)\<lparr>vmr_state := v_margin\<rparr> else tree f ! k))"
  using assms
proof (induction n arbitrary: m f)
  case 0
  have "f = f\<lparr>tree := tree f\<rparr>" by simp
  then have "\<exists>t. f = f\<lparr>tree := t\<rparr>" by blast
  then show ?case by auto
next
  case (Suc n)
  have in_m: "unat m < nodes f" using Suc.prems(2) by simp
  have um: "unat (m + 1) = unat m + 1"
    by (rule unat_add_one_no_wrap) (use in_m tree_sized_nodes(2) [OF Suc.prems(1)] in simp)
  let ?f = "with_node f (unat m) ((tree f ! unat m)\<lparr>vmr_state := v_margin\<rparr>)"
  have "tree_sized ?f" "unat (m + 1) + n \<le> nodes ?f" using Suc.prems um by simp_all
  from Suc.IH [OF this] obtain f' t where f': "mark_margins n (m + 1) ?f = Some f'" "f' = ?f\<lparr>tree := t\<rparr>"
      "nodes f' = nodes ?f"
    and nth: "\<And>k. tree f' ! k = (if unat (m + 1) \<le> k \<and> k < unat (m + 1) + n
        then (tree ?f ! k)\<lparr>vmr_state := v_margin\<rparr> else tree ?f ! k)"
    by blast
  have "mark_margins (Suc n) m f = Some f'"
    using f'(1) by (simp add: tree_at_in [OF Suc.prems(1) in_m] tree_set_with_node)
  moreover have "f' = f\<lparr>tree := t\<rparr>" using f'(2) by (simp add: with_node_def)
  moreover have "tree f' ! k = (if unat m \<le> k \<and> k < unat m + Suc n then (tree f ! k)\<lparr>vmr_state := v_margin\<rparr> else tree f ! k)" for k
    using in_m by (cases "k = unat m") (auto simp: nth um)
  ultimately show ?case using f'(3) by auto
qed

text \<open>What a level looks like once it is filled in: nothing changes up to the last column with a block.\<close>

definition filled :: "'d zenv \<Rightarrow> ZCachedFile \<Rightarrow> nat \<Rightarrow> nat \<Rightarrow> ValidatedMerkleRecord" where
  "filled env f l c =
     (if body (unat (num_blocks f)) (tree_depth f) l c then tree f ! pos l c
      else if stranded (unat (num_blocks f)) (tree_depth f) l c
      then \<lparr>vmr_hash = hash_of_block_of_zeros env, vmr_state = v_validated\<rparr>
      else (tree f ! pos l c)\<lparr>vmr_state := v_margin\<rparr>)"

lemma body_lastcol:
  assumes "0 < nb"
  shows "body nb d l c \<longleftrightarrow> c \<le> (nb - 1) div 2 ^ (d - l)"
proof -
  have "body nb d l c \<longleftrightarrow> c * 2 ^ (d - l) \<le> nb - 1" using assms by (simp add: body_def less_eq_Suc_le [symmetric] Suc_le_eq)
    (use assms in linarith)
  then show ?thesis by (simp add: less_eq_div_iff_mult_less_eq)
qed

lemma tree_index_pos:
  assumes "tree_sized f" and "l \<le> tree_depth f" and "c < 2 ^ l"
  obtains loc where "tree_index l (int c) (tree_size f) = Some loc" and "unat loc = pos l c"
proof -
  have "tree_depth f \<le> 30" "tree_size f = compute_tree_size (tree_depth f)" using assms(1) by (auto simp: tree_sized_def)
  moreover have "int c < 2 ^ l" using int_less_pow2 [of c "2 ^ l" l] assms(3) by simp
  ultimately show thesis
    using tree_index_Some [of "int c" l "tree_depth f"] assms(2) that by (auto simp: pos_def)
qed

lemma sint_small: "unat (w :: u32) < 2 ^ 31 \<Longrightarrow> sint w = int (unat w)"
proof -
  assume "unat w < 2 ^ 31"
  then have "int (unat w) < int (2 ^ 31)" by (simp only: of_nat_less_iff)
  then have "uint w < 2 ^ 31" by simp
  moreover have "- (2 ^ 31) \<le> uint w" by (rule order_trans [of _ 0]) simp_all
  ultimately have "sint w = uint w" unfolding sint_uint by (intro signed_take_bit_int_eq_self) simp_all
  then show ?thesis by simp
qed

lemma pos_range:
  assumes "pos l a \<le> pos l' c" and "pos l' c < pos l (2 ^ l)" and "c < 2 ^ l'"
  shows "l' = l \<and> a \<le> c"
proof -
  obtain c'' where k: "pos l' c = pos l c''" "c'' < 2 ^ l" "a \<le> c''"
    using assms(1,2) that [of "pos l' c - (2 ^ l - 1)"] by (auto simp: pos_def)
  then show ?thesis using pos_inject [OF k(1) assms(3)] by simp
qed

lemma fill_in_level_ok:
  assumes "tree_sized f" and "0 < l" and "l \<le> tree_depth f" and "0 < unat (num_blocks f)"
    and "unat (num_blocks f) \<le> 2 ^ tree_depth f"
  shows "\<exists>f'. fill_in_level env f l = Some f' \<and> (\<exists>t. f' = f\<lparr>tree := t\<rparr>) \<and> nodes f' = nodes f
    \<and> (\<forall>l' c. l' \<le> tree_depth f \<and> c < 2 ^ l' \<longrightarrow>
          tree f' ! pos l' c = (if l' = l then filled env f l c else tree f ! pos l' c))"
proof -
  let ?nb = "unat (num_blocks f)" and ?d = "tree_depth f"
  define q where "q = (?nb - 1) div 2 ^ (?d - l)"
  have d16: "?d \<le> 16" using assms(1) by (simp add: tree_sized_def)
  have q: "q < 2 ^ l"
  proof -
    have "?nb - 1 < 2 ^ l * 2 ^ (?d - l)" using assms(3-5) by (simp flip: power_add)
    then show ?thesis unfolding q_def by (rule less_mult_imp_div_less)
  qed
  have bd: "body ?nb ?d l c \<longleftrightarrow> c \<le> q" for c unfolding q_def by (rule body_lastcol [OF assms(4)])
  have strand: "stranded ?nb ?d l c \<longleftrightarrow> c = q + 1 \<and> even q" for c
  proof
    assume "stranded ?nb ?d l c"
    then have "odd c" "\<not> c \<le> q" "c - 1 \<le> q" by (auto simp: stranded_def bd)
    then have "c = q + 1" by linarith
    then show "c = q + 1 \<and> even q" using \<open>odd c\<close> by simp
  qed (auto simp: stranded_def bd)
  have ucol: "unat (drop_bit (?d - l) (num_blocks f - 1)) = q"
  proof -
    have "unat (num_blocks f - 1) = ?nb - 1" using assms(4) by (subst unat_sub_no_wrap) simp_all
    then show ?thesis by (simp add: unat_drop_bit q_def)
  qed
  have l16: "(2 :: nat) ^ l \<le> 2 ^ 16" by (rule power_increasing) (use assms(3) d16 in simp_all)
  then have scol: "sint (drop_bit (?d - l) (num_blocks f - 1)) = int q"
    using sint_small [of "drop_bit (?d - l) (num_blocks f - 1)"] ucol q by simp
  obtain lastloc where ll: "tree_index l (int q) (tree_size f) = Some lastloc" "unat lastloc = pos l q"
    by (rule tree_index_pos [OF assms(1,3) q])
  obtain last where la: "tree_index l (int (2 ^ l - 1)) (tree_size f) = Some last" "unat last = pos l (2 ^ l - 1)"
    by (rule tree_index_pos [OF assms(1,3), of "2 ^ l - 1"]) simp_all
  have last: "tree_index l (2 ^ l - 1) (tree_size f) = Some last" using la(1) by (simp add: of_nat_diff)
  have pos0: "0 < unat lastloc" using pos_eq_0 [OF q] ll(2) assms(2) by auto
  have lim: "pos l c < 2 ^ 17" if "c < 2 ^ l" for c
    using origin_nodes [OF assms(1,3) that] tree_sized_nodes(2) [OF assms(1)] by simp
  obtain s where s: "sibling_location lastloc = Some s" "unat s = (if odd (unat lastloc) then unat lastloc + 1 else unat lastloc - 1)"
    by (rule sibling_location_unat [OF pos0]) (use lim [OF q] ll(2) in simp_all)
  have uend: "unat (last + 1) = pos l (2 ^ l)"
  proof -
    have "unat (last + 1) = unat last + 1" by (rule unat_add_one_no_wrap) (use lim [of "2 ^ l - 1"] la(2) in simp)
    moreover have "1 \<le> (2 :: nat) ^ l" by simp
    ultimately show ?thesis unfolding la(2) pos_def by linarith
  qed
  have size: "pos l (2 ^ l) \<le> nodes f"
    using origin_nodes [OF assms(1,3), of "2 ^ l - 1"] by (simp add: pos_def)
  show ?thesis
  proof (cases "even q")
    case True
    then have odd: "odd (unat lastloc)" using pos_parity [OF assms(2), of q] ll(2) by simp
    then have us: "unat s = pos l (q + 1)" using s(2) ll(2) by (simp add: pos_def)
    have "q + 1 \<noteq> 2 ^ l" using True assms(2) by (metis even_plus_one_iff even_power even_numeral)
    then have q1: "q + 1 < 2 ^ l" using q by simp
    let ?v = "\<lparr>vmr_hash = hash_of_block_of_zeros env, vmr_state = v_validated\<rparr>"
    let ?f = "with_node f (unat s) ?v"
    have s_in: "unat s < nodes f" using origin_nodes [OF assms(1,3) q1] us by simp
    have us1: "unat (s + 1) = pos l (q + 2)"
    proof -
      have "unat (s + 1) = unat s + 1" by (rule unat_add_one_no_wrap) (use lim [OF q1] us in simp)
      then show ?thesis by (simp add: us pos_def)
    qed
    have le: "pos l (q + 2) \<le> pos l (2 ^ l)" using q1 by (simp add: pos_def)
    have "tree_sized ?f" "unat (s + 1) + (pos l (2 ^ l) - pos l (q + 2)) \<le> nodes ?f" using assms(1) us1 size le by simp_all
    from mark_margins_ok [OF this] obtain f' t where f': "mark_margins (pos l (2 ^ l) - pos l (q + 2)) (s + 1) ?f = Some f'"
        "f' = ?f\<lparr>tree := t\<rparr>" "nodes f' = nodes ?f"
      and nth: "\<And>k. tree f' ! k = (if pos l (q + 2) \<le> k \<and> k < pos l (2 ^ l)
          then (tree ?f ! k)\<lparr>vmr_state := v_margin\<rparr> else tree ?f ! k)"
      using le unfolding us1 by auto
    have "lastloc < s" using us ll(2) by (simp add: word_less_nat_alt pos_def)
    then have "fill_in_level env f l = Some f'"
      using f'(1) us1 uend tree_at_in [OF assms(1) s_in] ll(1) s(1) last
      by (simp add: fill_in_level_def Let_def scol tree_set_with_node)
    moreover have "f' = f\<lparr>tree := t\<rparr>" using f'(2) by (simp add: with_node_def)
    moreover have "tree f' ! pos l' c = (if l' = l then filled env f l c else tree f ! pos l' c)"
      if c: "l' \<le> ?d" "c < 2 ^ l'" for l' c
    proof (cases "l' = l")
      case eq: True
      have "pos l c = pos l (q + 1) \<longleftrightarrow> c = q + 1" "pos l (q + 2) \<le> pos l c \<longleftrightarrow> q + 2 \<le> c" "pos l c < pos l (2 ^ l)"
        using c(2) eq by (auto simp: pos_def)
      then show ?thesis
        using s_in True by (auto simp: nth us filled_def bd strand eq nth_list_update)
    next
      case False
      then have "\<not> (pos l (q + 2) \<le> pos l' c \<and> pos l' c < pos l (2 ^ l))" "pos l' c \<noteq> unat s"
        using pos_range [of l "q + 2" l' c] c(2) pos_inject [of l' c l "q + 1"] us q1 by auto
      then show ?thesis using False unfolding nth by auto
    qed
    ultimately show ?thesis using f'(3) by auto
  next
    case False
    then have ev: "even (unat lastloc)" using pos_parity [OF assms(2), of q] ll(2) by simp
    then have us: "\<not> lastloc < s" using s(2) pos0 by (simp add: word_less_nat_alt)
    have us1: "unat (lastloc + 1) = pos l (q + 1)"
    proof -
      have "unat (lastloc + 1) = unat lastloc + 1" by (rule unat_add_one_no_wrap) (use lim [OF q] ll(2) in simp)
      then show ?thesis by (simp add: ll(2) pos_def)
    qed
    have le: "pos l (q + 1) \<le> pos l (2 ^ l)" using q by (simp add: pos_def)
    have "unat (lastloc + 1) + (pos l (2 ^ l) - pos l (q + 1)) \<le> nodes f" using us1 size le by simp
    from mark_margins_ok [OF assms(1) this] obtain f' t where f': "mark_margins (pos l (2 ^ l) - pos l (q + 1)) (lastloc + 1) f = Some f'"
        "f' = f\<lparr>tree := t\<rparr>" "nodes f' = nodes f"
      and nth: "\<And>k. tree f' ! k = (if pos l (q + 1) \<le> k \<and> k < pos l (2 ^ l)
          then (tree f ! k)\<lparr>vmr_state := v_margin\<rparr> else tree f ! k)"
      using le unfolding us1 by auto
    have "fill_in_level env f l = Some f'"
      using f'(1) us1 uend ll(1) s(1) last us by (simp add: fill_in_level_def Let_def scol)
    moreover have "tree f' ! pos l' c = (if l' = l then filled env f l c else tree f ! pos l' c)"
      if c: "l' \<le> ?d" "c < 2 ^ l'" for l' c
    proof (cases "l' = l")
      case eq: True
      have "pos l (q + 1) \<le> pos l c \<longleftrightarrow> q + 1 \<le> c" "pos l c < pos l (2 ^ l)" using c(2) eq by (auto simp: pos_def)
      then show ?thesis using False by (auto simp: nth filled_def bd strand eq)
    next
      case neq: False
      then show ?thesis using pos_range [of l "q + 1" l' c] c(2) by (auto simp: nth)
    qed
    ultimately show ?thesis using f'(2,3) by auto
  qed
qed

lemma filled_update: "filled env (f\<lparr>tree := t\<rparr>) l c = filled env f l c" if "t ! pos l c = tree f ! pos l c"
  using that by (simp add: filled_def)

lemma fill_in_levels_ok:
  assumes "tree_sized f" and "0 < unat (num_blocks f)" and "unat (num_blocks f) \<le> 2 ^ tree_depth f"
    and "\<forall>l \<in> set ls. 0 < l \<and> l \<le> tree_depth f" and "distinct ls"
  shows "\<exists>f'. fill_in_levels env ls f = Some f' \<and> (\<exists>t. f' = f\<lparr>tree := t\<rparr>) \<and> nodes f' = nodes f
    \<and> (\<forall>l c. l \<le> tree_depth f \<and> c < 2 ^ l \<longrightarrow>
          tree f' ! pos l c = (if l \<in> set ls then filled env f l c else tree f ! pos l c))"
  using assms
proof (induction ls arbitrary: f)
  case Nil
  have "f = f\<lparr>tree := tree f\<rparr>" by simp
  then have "\<exists>t. f = f\<lparr>tree := t\<rparr>" by blast
  then show ?case by auto
next
  case (Cons l ls)
  obtain f1 t where f1: "fill_in_level env f l = Some f1" "f1 = f\<lparr>tree := t\<rparr>" "nodes f1 = nodes f"
    and n1: "\<And>l' c. l' \<le> tree_depth f \<Longrightarrow> c < 2 ^ l' \<Longrightarrow>
          tree f1 ! pos l' c = (if l' = l then filled env f l c else tree f ! pos l' c)"
    using fill_in_level_ok [OF Cons.prems(1) _ _ Cons.prems(2,3), of l env] Cons.prems(4) by auto
  have same: "tree_depth f1 = tree_depth f" "num_blocks f1 = num_blocks f" "tree_sized f1"
    using f1(2,3) Cons.prems(1) by (auto simp: tree_sized_def)
  obtain f' u where f': "fill_in_levels env ls f1 = Some f'" "f' = f1\<lparr>tree := u\<rparr>" "nodes f' = nodes f1"
    and n': "\<And>l' c. l' \<le> tree_depth f \<Longrightarrow> c < 2 ^ l' \<Longrightarrow>
          tree f' ! pos l' c = (if l' \<in> set ls then filled env f1 l' c else tree f1 ! pos l' c)"
    using Cons.IH [of f1] Cons.prems same by auto
  have "tree f' ! pos l' c = (if l' \<in> set (l # ls) then filled env f l' c else tree f ! pos l' c)"
    if "l' \<le> tree_depth f" "c < 2 ^ l'" for l' c
  proof (cases "l' = l")
    case True
    then show ?thesis using n' [OF that] n1 [OF that] Cons.prems(5) by simp
  next
    case False
    then have "filled env f1 l' c = filled env f l' c"
      using n1 [OF that] filled_update [of t l' c f env] f1(2) by simp
    then show ?thesis using n' [OF that] n1 [OF that] False by simp
  qed
  moreover have "f' = f\<lparr>tree := u\<rparr>" using f'(2) f1(2) by simp
  ultimately show ?case using f1(1,3) f'(1,3) by auto
qed

section \<open>From the blocks to the name\<close>

lemma ZOriginFile_new_ok:
  assumes "unat (compute_num_blocks len) = length ks" and "ks \<noteq> []"
  obtains f where "ZOriginFile_new env len flgs = Some f" and "origin_inv env ks None f"
    and "num_blocks f = compute_num_blocks len" and "tree_depth f = compute_tree_depth (compute_num_blocks len)"
    and "metadata f = \<lparr>file_len_network_order = z_htonl len, flags = z_htonl flgs\<rparr>"
    and "\<And>c. c < length ks \<Longrightarrow> st f (pos (tree_depth f) c) = v_unknown"
proof -
  let ?m = "\<lparr>file_len_network_order = z_htonl len, flags = z_htonl flgs\<rparr>"
  let ?nb = "compute_num_blocks len"
  let ?d = "compute_tree_depth ?nb"
  let ?u = "\<lparr>vmr_hash = 0, vmr_state = v_unknown\<rparr>"
  define f where "f = configure_from_metadata ((zcf_ctor_init (of_le_bytes (replicate HASH_SIZE 6)) True)\<lparr>metadata := ?m\<rparr>)"
  have f: "tree_sized f" "is_origin f" "num_blocks f = ?nb" "tree_depth f = ?d" "metadata f = ?m"
    "tree f = replicate (nodes f) ?u"
    using compute_tree_depth_bound [of len]
    by (simp_all add: f_def configure_from_metadata_def Let_def zcf_ctor_init_def tree_sized_def z_ntohl_def)
  have nb: "0 < unat (num_blocks f)" "unat (num_blocks f) \<le> 2 ^ tree_depth f"
    using assms compute_tree_depth_least(1) [of ?nb] f(3,4) by auto
  have blank: "tree f ! pos l c = ?u" if "l \<le> ?d" "c < 2 ^ l" for l c
    using origin_nodes [OF f(1), of l c] that f(4) f(6) by (metis nth_replicate)
  obtain g t where g: "fill_in_levels env [1..<tree_depth f + 1] f = Some g" "g = f\<lparr>tree := t\<rparr>" "nodes g = nodes f"
    and n: "\<And>l c. l \<le> tree_depth f \<Longrightarrow> c < 2 ^ l \<Longrightarrow>
          tree g ! pos l c = (if l \<in> set [1..<tree_depth f + 1] then filled env f l c else tree f ! pos l c)"
  proof -
    have "\<forall>l \<in> set [1..<tree_depth f + 1]. 0 < l \<and> l \<le> tree_depth f" by auto
    from fill_in_levels_ok [OF f(1) nb this distinct_upt, of env] show ?thesis using that by blast
  qed
  have same: "tree_depth g = ?d" "num_blocks g = ?nb" "metadata g = ?m" "is_origin g" "tree_sized g"
    using f(1-5) g(2,3) by (auto simp: tree_sized_def)
  have nth: "tree g ! pos l c = (if body (length ks) ?d l c then ?u
      else if stranded (length ks) ?d l c then \<lparr>vmr_hash = hash_of_block_of_zeros env, vmr_state = v_validated\<rparr>
      else ?u\<lparr>vmr_state := v_margin\<rparr>)" if "l \<le> ?d" "c < 2 ^ l" for l c
  proof (cases "l = 0")
    case True
    then have "body (length ks) ?d l c" using that assms(2) by (simp add: body_def)
    then show ?thesis using n [of l c] that True f(4) blank [of l c] by auto
  next
    case False
    then show ?thesis using n [of l c] that f(3,4) blank [OF that] assms(1) by (auto simp: filled_def)
  qed
  show thesis
  proof (rule that)
    show "ZOriginFile_new env len flgs = Some g"
      unfolding ZOriginFile_new_def Let_def f_def [symmetric] fill_in_sibling_hashes_def
      using g(1) nb(1) by (simp add: unat_gt_0 del: upt_Suc)
    show "num_blocks g = ?nb" "tree_depth g = ?d" "metadata g = ?m" by (fact same)+
    show "st g (pos (tree_depth g) c) = v_unknown" if "c < length ks" for c
      using nth [of ?d c] that nb(2) assms(1) f(3,4) same(1) by (simp add: body_def)
    show "origin_inv env ks None g"
      unfolding origin_inv_def
    proof (intro conjI allI impI)
      show "origin_node env ks g l c" if "l \<le> tree_depth g \<and> c < 2 ^ l" for l c
        using nth [of l c] that same(1) node_ref_outside [of ks ?d l c env] by (auto simp: origin_node_def)
      show "closed_upwards None g"
        unfolding closed_upwards_def
      proof (intro allI impI)
        fix p assume p: "2 * p + 2 < nodes g \<and> None \<noteq> Some p \<and> known g (2 * p + 1) \<and> known g (2 * p + 2)"
        then have "p < 2 ^ (?d + 1) - 1" using tree_sized_nodes(1) [OF same(5)] same(1) by simp
        then obtain l c where lc: "l \<le> ?d" "c < 2 ^ l" "p = pos l c" by (rule pos_cover)
        have l: "l < ?d"
        proof (rule ccontr)
          assume "\<not> l < ?d"
          then have "2 ^ (?d + 1) - 1 \<le> 2 * p + 2" using lc by (simp add: pos_def)
          then show False using p tree_sized_nodes(1) [OF same(5)] same(1) by simp
        qed
        have "\<not> body (length ks) ?d (Suc l) (2 * c)"
          using p nth [of "Suc l" "2 * c"] l lc(2) unfolding lc(3) pos_children by (auto simp: known_def)
        then have "\<not> body (length ks) ?d l c" using body_children(1) [OF l] by simp
        then show "known g p" using nth [OF lc(1,2)] by (simp add: lc(3) known_def)
      qed
    qed (use same in simp_all)
  qed
qed

lemma zbcr_from_data_hash:
  assumes "env_ok env" and "length d \<le> BLOCK"
  obtains z where "zbcr_from_data env d (of_nat (length d)) = Some z" and "zbcr_hash z = block_hash env d"
    and "zbcr_valid z" and "zbcr_ok env z"
proof -
  have "unat (of_nat (length d) :: u32) = length d" using assms(2) by (intro unat_of_nat_u32) simp
  then have "\<exists>y. load_data_internal (zbcr_common_init env 0) d (of_nat (length d)) ZFTP_BLOCK_SIZE = Some y
      \<and> zbcr_data y = d @ replicate (BLOCK - length d) 0"
    using assms by (subst load_data_internal_fits) (auto simp: env_ok_def zbcr_common_init_def)
  then obtain z where z: "zbcr_from_data env d (of_nat (length d)) = Some z" "zbcr_hash z = block_hash env d"
    by (auto simp: zbcr_from_data_def block_hash_def)
  then show thesis using that zbcr_from_data_ok [OF assms(1) z(1)] by blast
qed

lemma block_insert_valid:
  assumes "env_ok env" and "bc_ok env bc" and "zbcr_ok env z" and "zbcr_valid z"
  obtains fresh bc' where "block_insert env bc z = Some (fresh, bc')" and "bc_ok env bc'"
proof -
  obtain bc1 where bc1: "block_lookup_nolock env bc (zbcr_hash z) =
        Some (if blocks bc1 (zbcr_hash z) = None then None else Some (zbcr_hash z), bc1)" "bc_ok env bc1"
    by (rule block_lookup_nolock_ok [OF assms(1,2), of "zbcr_hash z"])
  have "\<exists>fresh bc'. block_insert env bc z = Some (fresh, bc')"
  proof (cases "blocks bc1 (zbcr_hash z) = None")
    case True
    then have ready: "ht_ready zbcr_hash_func zbcr_cmp_func (block_ht bc1)" "zbcr_hash z \<notin># ht_data (block_ht bc1)"
      using bc1(2) by (auto simp: bc_ok_def)
    obtain ht where "hash_table_insert (block_ht bc1) (zbcr_hash z) = Some ht" by (rule ht_insert_hash [OF ready])
    moreover have "\<exists>db. store_block env (zblockDB bc1) z = Some db"
      using assms(4) by (cases "zblockDB bc1") (simp_all add: store_block_def peek_data_def)
    ultimately show ?thesis using bc1(1) True by (auto simp: block_insert_def)
  qed (use bc1(1) in \<open>auto simp: block_insert_def\<close>)
  then show thesis using that block_insert_ok [OF assms(1-3)] by blast
qed

text \<open>Loading a block that has not been loaded.\<close>

lemma load_block_ok:
  assumes "env_ok env" and "bc_ok env bc" and "origin_inv env ks None f" and "k < length ks" and "length ks \<le> 2 ^ tree_depth f"
    and "length d \<le> BLOCK" and "ks ! k = block_hash env d" and "\<not> known f (pos (tree_depth f) k)"
  obtains f' bc' where "origin_load_block env f bc (of_nat k) d (of_nat (length d)) = Some (f', bc')" and "bc_ok env bc'"
    and "origin_inv env ks None f'" and "more_known f f'" and "known f' (pos (tree_depth f) k)"
    and "\<And>j. j \<noteq> k \<Longrightarrow> j < length ks \<Longrightarrow> known f' (pos (tree_depth f) j) = known f (pos (tree_depth f) j)"
proof -
  let ?d = "tree_depth f" and ?n = "pos (tree_depth f) k"
  have sized: "tree_sized f" and org: "is_origin f" using assms(3) by (simp_all add: origin_inv_def)
  have k: "k < 2 ^ ?d" using assms(4,5) by simp
  have d16: "(2 :: nat) ^ ?d \<le> 2 ^ 16" using sized by (intro power_increasing) (simp_all add: tree_sized_def)
  then have uk: "unat (of_nat k :: u32) = k" using k by (intro unat_of_nat_u32) simp
  then have sk: "sint (of_nat k :: u32) = int k" using sint_small [of "of_nat k"] k d16 by simp
  obtain loc where loc: "tree_index ?d (int k) (tree_size f) = Some loc" "unat loc = ?n"
    by (rule tree_index_pos [OF sized le_refl k])
  have n_in: "?n < nodes f" by (rule origin_nodes [OF sized le_refl k])
  obtain z where z: "zbcr_from_data env d (of_nat (length d)) = Some z" "zbcr_hash z = block_hash env d"
      "zbcr_valid z" "zbcr_ok env z"
    by (rule zbcr_from_data_hash [OF assms(1,6)])
  obtain fresh bc' where ins: "block_insert env bc z = Some (fresh, bc')" "bc_ok env bc'"
    by (rule block_insert_valid [OF assms(1,2) z(4,3)])
  let ?g = "with_node f ?n \<lparr>vmr_hash = block_hash env d, vmr_state = v_unknown\<rparr>"
  have unk: "st f ?n = v_unknown" using assms(8) by (simp add: known_def)
  have bd: "body (length ks) ?d ?d k" using assms(4) by (simp add: body_def)
  have k0: "known ?g n = known f n" for n using assms(8) by (auto simp: known_with_node)
  have step: "origin_load_block env f bc (of_nat k) d (of_nat (length d)) =
      (case mark_node_on_block_load env ?g loc of None \<Rightarrow> None | Some f' \<Rightarrow> Some (f', bc'))"
    using z(1,2) ins(1) loc unk tree_at_in [OF sized, of loc] n_in
    by (simp add: origin_load_block_def load_block_def sk tree_set_with_node vmr_updates split: option.splits)
  have ref: "block_hash env d = node_ref env ?d ks ?d k" using node_ref_leaf [OF assms(4), of env ?d] assms(7) by simp
  have inv0: "origin_inv env ks None ?g"
    unfolding origin_inv_def
  proof (intro conjI allI impI)
    show "origin_node env ks ?g l c" if "l \<le> tree_depth ?g \<and> c < 2 ^ l" for l c
      by (rule origin_node_fill) (use that assms(3) k sized bd in \<open>auto simp: origin_inv_def\<close>)
    show "closed_upwards None ?g"
      using closed_upwards_cong [of ?g f None] k0 assms(3) by (simp add: origin_inv_def)
  qed (use sized org in simp_all)
  show thesis
  proof (cases "loc = 0")
    case False
    have cl: "origin_inv env ks (Some ?n) ?g" using inv0 closed_upwards_weaken by (simp add: origin_inv_def)
    obtain f' where f': "mark_node_tentative env ?g loc = Some f'" "origin_inv env ks None f'" "more_known ?g f'"
      "known f' ?n" "\<forall>n \<ge> 2 ^ ?d - 1. n \<noteq> ?n \<longrightarrow> known f' n = known ?g n"
      using origin_mark_ok [OF cl, of loc] k loc(2) assms(8) bd ref n_in k0 by auto
    have "more_known f f'" using f'(3) k0 by (auto simp: more_known_def with_node_def)
    moreover have "known f' (pos ?d j) = known f (pos ?d j)" if "j \<noteq> k" for j
    proof -
      have "pos ?d j \<noteq> ?n" using that unfolding pos_def add_left_cancel .
      moreover have "2 ^ ?d - 1 \<le> pos ?d j" by (simp add: pos_def)
      ultimately show ?thesis using f'(5) k0 by simp
    qed
    ultimately show thesis using that [of f' bc'] step f' ins(2) False by (simp add: mark_node_on_block_load_def)
  next
    case True
    then have d0: "?d = 0" using pos_eq_0 [OF k] loc(2) by simp
    then have k0': "k = 0" using k by simp
    let ?f = "with_node f ?n \<lparr>vmr_hash = block_hash env d, vmr_state = v_validated\<rparr>"
    have "tree_at ?g 0 = Some \<lparr>vmr_hash = block_hash env d, vmr_state = v_unknown\<rparr>"
      using tree_at_in [of ?g 0] sized n_in True loc(2) by simp
    then have "mark_node_on_block_load env ?g loc = Some ?f"
      using True org loc(2) by (simp add: mark_node_on_block_load_def tree_set_with_node) (simp add: with_node_def)
    moreover have "origin_inv env ks None ?f"
      unfolding origin_inv_def
    proof (intro conjI allI impI)
      show "origin_node env ks ?f l c" if "l \<le> tree_depth ?f \<and> c < 2 ^ l" for l c
        by (rule origin_node_fill) (use that assms(3) k sized bd ref d0 in \<open>auto simp: origin_inv_def\<close>)
      show "closed_upwards None ?f"
        using closed_upwards_with_node [of None f ?n] assms(3) n_in d0 k0' by (simp add: origin_inv_def pos_def)
    qed (use sized org in simp_all)
    moreover have "more_known f ?f" using n_in by (intro more_known_with_node) simp_all
    moreover have "known ?f ?n" using n_in by (simp add: known_with_node)
    moreover have "j < length ks \<Longrightarrow> j = k" for j using assms(5) d0 k0' by simp
    ultimately show thesis using that [of ?f bc'] step ins(2) by simp
  qed
qed

lemma more_known_frame: "more_known f f' \<Longrightarrow> tree_depth f' = tree_depth f \<and> num_blocks f' = num_blocks f
    \<and> metadata f' = metadata f \<and> nodes f' = nodes f \<and> tree_size f' = tree_size f"
  by (auto simp: more_known_def)

lemma origin_load_blocks_ok:
  assumes "env_ok env" and "bc_ok env bc" and "origin_inv env ks None f" and "length ks \<le> 2 ^ tree_depth f"
    and "distinct (map fst loads)"
    and "\<forall>(k, d) \<in> set loads. k < length ks \<and> length d \<le> BLOCK \<and> ks ! k = block_hash env d \<and> \<not> known f (pos (tree_depth f) k)"
  shows "\<exists>f' bc'. origin_load_blocks env loads f bc = Some (f', bc') \<and> bc_ok env bc' \<and> origin_inv env ks None f' \<and> more_known f f'
     \<and> (\<forall>k \<in> fst ` set loads. known f' (pos (tree_depth f) k))"
  using assms
proof (induction loads arbitrary: f bc)
  case Nil
  have "more_known f f" unfolding more_known_def by (intro conjI exI [of _ "tree f"]) simp_all
  then show ?case using Nil.prems by simp
next
  case (Cons kd loads)
  obtain k d where kd: "kd = (k, d)" by fastforce
  obtain f1 bc1 where f1: "origin_load_block env f bc (of_nat k) d (of_nat (length d)) = Some (f1, bc1)" "bc_ok env bc1"
      "origin_inv env ks None f1" "more_known f f1" "known f1 (pos (tree_depth f) k)"
      "\<And>j. j \<noteq> k \<Longrightarrow> j < length ks \<Longrightarrow> known f1 (pos (tree_depth f) j) = known f (pos (tree_depth f) j)"
    by (rule load_block_ok [OF Cons.prems(1-3), of k d]) (use Cons.prems kd in auto)
  note fr = more_known_frame [OF f1(4)]
  have "\<not> known f1 (pos (tree_depth f1) j)" if "(j, e) \<in> set loads" for j e
  proof -
    have "j \<noteq> k" using Cons.prems(5) that kd by force
    then show ?thesis using f1(6) [of j] Cons.prems(6) that fr by auto
  qed
  then have "\<forall>(j, e) \<in> set loads. j < length ks \<and> length e \<le> BLOCK \<and> ks ! j = block_hash env e \<and> \<not> known f1 (pos (tree_depth f1) j)"
    using Cons.prems(6) by auto
  with Cons.IH [OF Cons.prems(1) f1(2,3)] Cons.prems(4,5) fr
  obtain f' bc' where f': "origin_load_blocks env loads f1 bc1 = Some (f', bc')" "bc_ok env bc'" "origin_inv env ks None f'"
      "more_known f1 f'" "\<forall>k \<in> fst ` set loads. known f' (pos (tree_depth f) k)"
    by auto
  have "pos (tree_depth f) k < nodes f1"
    by (rule origin_nodes) (use f1(3) fr Cons.prems(4,6) kd in \<open>auto simp: origin_inv_def\<close>)
  then have "known f' (pos (tree_depth f) k)" using f'(4) f1(5) unfolding more_known_def by blast
  then show ?case using f1(1) f' more_known_trans [OF f1(4) f'(4)] by (simp add: kd)
qed

lemma validate_upto_ok:
  assumes "tree_sized f" and "\<forall>n < nodes f. known f n" and "unat loc + n \<le> nodes f"
  shows "\<exists>f'. validate_upto n loc f = Some f' \<and> file_hash f' = file_hash f \<and> nodes f' = nodes f
    \<and> (\<forall>k < nodes f. hs f' k = hs f k) \<and> (\<forall>k. unat loc \<le> k \<and> k < unat loc + n \<longrightarrow> st f' k = v_validated)
    \<and> (\<forall>k < unat loc. tree f' ! k = tree f ! k)"
  using assms
proof (induction n arbitrary: loc f)
  case (Suc n)
  have n_in: "unat loc < nodes f" using Suc.prems(3) by simp
  have u: "unat (loc + 1) = unat loc + 1"
    by (rule unat_add_one_no_wrap) (use n_in tree_sized_nodes(2) [OF Suc.prems(1)] in simp)
  let ?g = "with_node f (unat loc) ((tree f ! unat loc)\<lparr>vmr_state := v_validated\<rparr>)"
  have all: "\<forall>n < nodes ?g. known ?g n" using Suc.prems(2) by (auto simp: known_with_node)
  obtain f' where f': "validate_upto n (loc + 1) ?g = Some f'" "file_hash f' = file_hash ?g" "nodes f' = nodes ?g"
      "\<forall>k < nodes ?g. hs f' k = hs ?g k" "\<forall>k. unat (loc + 1) \<le> k \<and> k < unat (loc + 1) + n \<longrightarrow> st f' k = v_validated"
      "\<forall>k < unat (loc + 1). tree f' ! k = tree ?g ! k"
    using Suc.IH [OF _ all, of "loc + 1"] Suc.prems u by auto
  have "vmr_state (tree f ! unat loc) \<noteq> v_unknown" using Suc.prems(2) n_in by (simp add: known_def)
  then have "validate_upto (Suc n) loc f = Some f'"
    using f'(1) by (simp add: tree_at_in [OF Suc.prems(1) n_in] tree_set_with_node)
  moreover have "st f' k = v_validated" if "unat loc \<le> k \<and> k < unat loc + Suc n" for k
    using f'(5,6) that u n_in by (cases "k = unat loc") auto
  moreover have "hs f' k = hs f k" if "k < nodes f" for k
    using f'(4) that n_in by (cases "k = unat loc") auto
  moreover have "tree f' ! k = tree f ! k" if "k < unat loc" for k using f'(6) that u by simp
  ultimately show ?case using f'(2,3) by (simp add: with_node_def)
qed auto

lemma all_leaves_known:
  assumes "origin_inv env ks None f" and "\<forall>k < length ks. known f (pos (tree_depth f) k)"
  shows "\<forall>n < nodes f. known f n"
proof (intro allI impI)
  fix n assume n: "n < nodes f"
  have sized: "tree_sized f" and cl: "closed_upwards None f" using assms(1) by (simp_all add: origin_inv_def)
  let ?d = "tree_depth f"
  have nodes: "nodes f = 2 ^ (?d + 1) - 1" by (rule tree_sized_nodes(1) [OF sized])
  from n show "known f n"
  proof (induction "nodes f - n" arbitrary: n rule: less_induct)
    case less
    have "n < 2 ^ (?d + 1) - 1" using less.prems nodes by simp
    then obtain l c where lc: "l \<le> ?d" "c < 2 ^ l" "n = pos l c" by (rule pos_cover)
    show ?case
    proof (cases "l = ?d")
      case True
      have "origin_node env ks f l c" using assms(1) lc by (simp add: origin_inv_def)
      then show ?thesis
        using assms(2) True lc(3) by (cases "c < length ks") (simp_all add: origin_node_def body_def known_def split: if_splits)
    next
      case False
      then have "pos (Suc l) (2 * c + 1) < nodes f" using origin_nodes [OF sized, of "Suc l" "2 * c + 1"] lc by simp
      then have kids: "2 * n + 2 < nodes f" unfolding lc(3) pos_children .
      have "known f (2 * n + 1)" "known f (2 * n + 2)" by (rule less.hyps; use kids in linarith)+
      then have "pair_known f n" using kids by (simp add: pair_known_def)
      then show ?thesis by (rule closed_upwards_pair [OF cl])
    qed
  qed
qed

lemma origin_finish_ok:
  assumes "origin_inv env ks None f" and "\<forall>k < length ks. known f (pos (tree_depth f) k)"
    and "ks \<noteq> []" and "length ks \<le> 2 ^ tree_depth f" and "unat (num_blocks f) = length ks"
  shows "\<exists>f'. origin_finish_hash env f = Some f'
     \<and> file_hash f' = compute_file_hash env (metadata f) (merkle_root env (tree_depth f) ks)
     \<and> (\<forall>l \<le> tree_depth f. \<forall>c. c * 2 ^ (tree_depth f - l) < length ks \<longrightarrow>
          st f' (pos l c) = v_validated \<and> hs f' (pos l c) = node_ref env (tree_depth f) ks l c)"
proof -
  let ?d = "tree_depth f"
  have sized: "tree_sized f" using assms(1) by (simp add: origin_inv_def)
  note all = all_leaves_known [OF assms(1,2)]
  have pos0: "0 < nodes f" by (rule tree_sized_nodes(3) [OF sized])
  have node: "hs f (pos l c) = node_ref env ?d ks l c" if "l \<le> ?d" "c * 2 ^ (?d - l) < length ks" "c < 2 ^ l" for l c
  proof -
    have "origin_node env ks f l c" using assms(1) that by (simp add: origin_inv_def)
    moreover have "known f (pos l c)" using all origin_nodes [OF sized that(1,3)] by simp
    ultimately show ?thesis using that(2) by (cases "st f (pos l c)") (auto simp: origin_node_def body_def known_def)
  qed
  have root: "hs f 0 = merkle_root env ?d ks"
    using node [of 0 0] assms(3,4) by (simp add: pos_def node_ref_def)
  have nb: "unat (num_blocks f - 1) = length ks - 1" "num_blocks f > 0"
  proof -
    have "0 < unat (num_blocks f)" using assms(3,5) by simp
    then show "unat (num_blocks f - 1) = length ks - 1" using assms(3,5) by (subst unat_sub_no_wrap) (simp_all add: Suc_le_eq)
    from \<open>0 < unat (num_blocks f)\<close> show "num_blocks f > 0" by (simp add: word_less_nat_alt)
  qed
  have k: "length ks - 1 < 2 ^ ?d" using assms(3,4) by (cases ks) auto
  have "(2 :: nat) ^ ?d \<le> 2 ^ 16" using sized by (intro power_increasing) (simp_all add: tree_sized_def)
  then have sint: "sint (num_blocks f - 1) = int (length ks - 1)" using sint_small [of "num_blocks f - 1"] nb(1) k by simp
  obtain last where last: "tree_index ?d (int (length ks - 1)) (tree_size f) = Some last" "unat last = pos ?d (length ks - 1)"
    by (rule tree_index_pos [OF sized le_refl k])
  have last_in: "unat last < nodes f" using origin_nodes [OF sized le_refl k] last(2) by simp
  let ?f = "f\<lparr>file_hash := compute_file_hash env (metadata f) (hs f 0)\<rparr>"
  have "tree_sized ?f" "\<forall>n < nodes ?f. known ?f n" using sized all by (simp_all add: tree_sized_def known_def)
  then obtain f' where f': "validate_upto (unat last + 1) 0 ?f = Some f'" "file_hash f' = file_hash ?f"
      "\<forall>k < nodes f. hs f' k = hs f k" "\<forall>k < unat last + 1. st f' k = v_validated"
    using validate_upto_ok [of ?f 0 "unat last + 1"] last_in by auto
  have "vmr_state (tree f ! 0) \<noteq> v_unknown" using all pos0 by (simp add: known_def)
  then have "origin_finish_hash env f = Some f'"
    using f'(1) nb(2) last(1) sint tree_at_in [OF sized, of 0] pos0 by (simp add: origin_finish_hash_def Let_def)
  moreover have "st f' (pos l c) = v_validated \<and> hs f' (pos l c) = node_ref env ?d ks l c"
    if "l \<le> ?d" "c * 2 ^ (?d - l) < length ks" for l c
  proof -
    have "c * 2 ^ (?d - l) < 2 ^ l * 2 ^ (?d - l)" using that assms(4) by (simp flip: power_add)
    then have c: "c < 2 ^ l" by simp
    have "pos l c \<le> pos ?d (length ks - 1)"
    proof (cases "l = ?d")
      case True
      then show ?thesis using that(2) by (simp add: pos_def)
    next
      case False
      then have "pos l c < 2 ^ (l + 1) - 1" "l + 1 \<le> ?d" using c that(1) pos_in_nodes [of l l c] by simp_all
      moreover have "(2 :: nat) ^ (l + 1) \<le> 2 ^ ?d" using calculation(2) by (intro power_increasing) simp_all
      ultimately show ?thesis unfolding pos_def by linarith
    qed
    then show ?thesis using f'(3,4) last(2) last_in node [OF that c] by simp
  qed
  ultimately show ?thesis using f'(2) root by auto
qed

section \<open>Properties\<close>

text \<open>
  C3: The name an origin gives to a file is the reference hash of its contents: whatever order the blocks
  are loaded in, loading and finishing succeed, the file's hash is that of its metadata and of
  the Merkle root over the hashes of its zero-padded blocks, and every node above a block is
  validated and holds the hash of its part of the file.
\<close>

theorem origin_hash_correct:
  assumes "env_ok env" and "bc_ok env bc" and "unat (compute_num_blocks len) = length blks"
    and "list_all (\<lambda>d. length d \<le> BLOCK) blks" and "blks \<noteq> []"
    and "distinct order" and "set order = {0..<length blks}"
  shows "\<exists>f f1 bc' f'. ZOriginFile_new env len flgs = Some f
     \<and> origin_load_blocks env (map (\<lambda>k. (k, blks ! k)) order) f bc = Some (f1, bc') \<and> bc_ok env bc'
     \<and> origin_finish_hash env f1 = Some f'
     \<and> file_hash f' = compute_file_hash env \<lparr>file_len_network_order = z_htonl len, flags = z_htonl flgs\<rparr>
          (merkle_root env (compute_tree_depth (compute_num_blocks len)) (map (block_hash env) blks))
     \<and> (\<forall>k < length blks. \<exists>loc. tree_index (compute_tree_depth (compute_num_blocks len)) (int k)
              (compute_tree_size (compute_tree_depth (compute_num_blocks len))) = Some loc
          \<and> st f' (unat loc) = v_validated \<and> hs f' (unat loc) = block_hash env (blks ! k))"
proof -
  define m where "m = \<lparr>file_len_network_order = z_htonl len, flags = z_htonl flgs\<rparr>"
  define d where "d = compute_tree_depth (compute_num_blocks len)"
  let ?ks = "map (block_hash env) blks"
  have ks: "unat (compute_num_blocks len) = length ?ks" "?ks \<noteq> []" using assms(3,5) by simp_all
  obtain f where f: "ZOriginFile_new env len flgs = Some f" "origin_inv env ?ks None f"
      "num_blocks f = compute_num_blocks len" "tree_depth f = d" "metadata f = m"
      "\<And>c. c < length ?ks \<Longrightarrow> st f (pos (tree_depth f) c) = v_unknown"
    unfolding m_def d_def by (rule ZOriginFile_new_ok [OF ks, of env flgs]) blast
  have le: "length ?ks \<le> 2 ^ tree_depth f"
    using compute_tree_depth_least(1) [of "compute_num_blocks len"] ks f(4) assms(5) by (simp add: d_def)
  have "\<forall>(k, e) \<in> set (map (\<lambda>k. (k, blks ! k)) order).
      k < length ?ks \<and> length e \<le> BLOCK \<and> ?ks ! k = block_hash env e \<and> \<not> known f (pos (tree_depth f) k)"
    using assms(4,7) f(6) by (auto simp: known_def list_all_length)
  moreover have "distinct (map fst (map (\<lambda>k. (k, blks ! k)) order))" using assms(6) by (simp add: comp_def)
  ultimately obtain f1 bc' where f1: "origin_load_blocks env (map (\<lambda>k. (k, blks ! k)) order) f bc = Some (f1, bc')"
      "bc_ok env bc'" "origin_inv env ?ks None f1" "more_known f f1"
      "\<forall>k \<in> fst ` set (map (\<lambda>k. (k, blks ! k)) order). known f1 (pos (tree_depth f) k)"
    using origin_load_blocks_ok [OF assms(1,2) f(2) le] by blast
  note fr = more_known_frame [OF f1(4)]
  have "\<forall>k < length ?ks. known f1 (pos (tree_depth f1) k)" using f1(5) assms(7) fr by (force simp: image_image)
  moreover have "length ?ks \<le> 2 ^ tree_depth f1" "unat (num_blocks f1) = length ?ks" using le fr f(3) ks(1) by simp_all
  ultimately obtain f' where f': "origin_finish_hash env f1 = Some f'"
      "file_hash f' = compute_file_hash env m (merkle_root env d ?ks)"
      "\<forall>l \<le> d. \<forall>c. c * 2 ^ (d - l) < length ?ks \<longrightarrow>
          st f' (pos l c) = v_validated \<and> hs f' (pos l c) = node_ref env d ?ks l c"
    using origin_finish_ok [OF f1(3) _ ks(2)] fr f(4,5) by metis
  have "\<exists>loc. tree_index d (int k) (compute_tree_size d) = Some loc
      \<and> st f' (unat loc) = v_validated \<and> hs f' (unat loc) = block_hash env (blks ! k)" if k: "k < length blks" for k
  proof -
    have sized: "tree_sized f" using f(2) by (simp add: origin_inv_def)
    obtain loc where loc: "tree_index d (int k) (tree_size f) = Some loc" "unat loc = pos d k"
      by (rule tree_index_pos [OF sized, of d k]) (use f(4) le k in auto)
    have "st f' (pos d k) = v_validated \<and> hs f' (pos d k) = node_ref env d ?ks d k" using f'(3) k by simp
    moreover have "node_ref env d ?ks d k = block_hash env (blks ! k)" using node_ref_leaf [of k ?ks env d] k by simp
    moreover have "tree_size f = compute_tree_size d" using sized f(4) by (simp add: tree_sized_def)
    ultimately show ?thesis using loc by auto
  qed
  then show ?thesis using f(1) f1(1,2) f'(1,2) unfolding m_def d_def by blast
qed

theorem origin_hash_correct_witness:
  "\<exists>f f1 bc' f'. ZOriginFile_new sample_env 65537 0 = Some f
     \<and> origin_load_blocks sample_env [(1, [2]), (0, [1, 1])] f (ZBlockCache_init None) = Some (f1, bc')
     \<and> origin_finish_hash sample_env f1 = Some f'
     \<and> file_hash f' = compute_file_hash sample_env \<lparr>file_len_network_order = z_htonl 65537, flags = z_htonl 0\<rparr> 40"
proof -
  have nb: "unat (compute_num_blocks 65537) = length [[1, 1], [2 :: u8]]" "compute_tree_depth (compute_num_blocks 65537) = 1"
    by code_simp+
  have bc: "bc_ok sample_env (ZBlockCache_init None)" by (rule ZBlockCache_init_ok) (simp add: db_ok_def)
  have "distinct [1 :: nat, 0]" "set [1 :: nat, 0] = {0..<length [[1, 1], [2 :: u8]]}" by auto
  note * = origin_hash_correct [OF sample_env_ok bc nb(1) _ _ this, of 0]
  have "merkle_root sample_env 1 (map (block_hash sample_env) [[1, 1], [2]]) = 40"
    by (simp add: pair_hash_def sample_env_def)
  then show ?thesis using * unfolding nb(2) by auto
qed

end
