(* ===== verification/Request_Builder.thy ===== *)
theory Request_Builder
  imports Avl_Tree Origin_File
begin

text \<open>
  \<^verbatim>\<open>common/zftp_module/RequestBuilder.cpp\<close>: from the range of bytes a cached file is missing, the
  builder chooses the tree locations and the data range of one request, so that the reply fits
  into one packet.  The two sets of locations are AVL trees whose elements are the locations; an
  element of the source is the \<^verbatim>\<open>_location\<close> field of a tree node and carries nothing else.
\<close>

section \<open>Definitions\<close>

record RequestBuilder =
  mtu :: u32
  committed_tree_locations :: "u32 avl_tree"
  tentative_tree_locations :: "u32 avl_tree"
  request_range :: DataRange

datatype Disposition = COMMIT | ABORT

definition loc_key :: "u32 \<Rightarrow> u32" where
  "loc_key loc = loc"

text \<open>
  \<^verbatim>\<open>_available\<close> computes on 32-bit integers and returns a signed one; it is negative when the hashes
  asked for do not fit.
\<close>

definition available :: "RequestBuilder \<Rightarrow> int option" where
  "available rb = do {
     c \<leftarrow> avl_size (committed_tree_locations rb);
     t \<leftarrow> avl_size (tentative_tree_locations rb);
     let consumed = of_nat sizeof_ZFTPDataPacket + of_nat sizeof_ZFTPMerkleRecord * (c + t)
                    + dr_size (request_range rb);
     Some (sint (mtu rb - consumed)) }"

definition request_hash :: "ZCachedFile \<Rightarrow> RequestBuilder \<Rightarrow> u32 \<Rightarrow> (bool \<times> RequestBuilder) option" where
  "request_hash f rb location =
     (if avl_lookup loc_key (committed_tree_locations rb) location = None
         \<and> avl_lookup loc_key (tentative_tree_locations rb) location = None
      then do {
        vmr \<leftarrow> tree_at f location;
        (if vmr_state vmr = v_unknown then do {
           t \<leftarrow> avl_insert loc_key (tentative_tree_locations rb) location;
           Some (True, rb\<lparr>tentative_tree_locations := t\<rparr>) }
         else Some (False, rb)) }
      else Some (False, rb))"

definition request_block_hash :: "ZCachedFile \<Rightarrow> RequestBuilder \<Rightarrow> u32 \<Rightarrow> RequestBuilder option" where
  "request_block_hash f rb block_num = do {
     location \<leftarrow> tree_index (tree_depth f) (sint block_num) (tree_size f);
     (_, rb) \<leftarrow> request_hash f rb location;
     Some rb }"

fun request_hash_ancestors_loop ::
    "ZCachedFile \<Rightarrow> u32 \<Rightarrow> nat \<Rightarrow> RequestBuilder \<Rightarrow> RequestBuilder option" where
  "request_hash_ancestors_loop f block_num 0 rb = Some rb"
| "request_hash_ancestors_loop f block_num (Suc l) rb = do {
     let level = Suc l;
     let leveldiff = tree_depth f - level;
     let col = drop_bit leveldiff block_num;
     location \<leftarrow> tree_index level (sint col) (tree_size f);
     sibling \<leftarrow> sibling_location location;
     (_, rb) \<leftarrow> request_hash f rb sibling;
     (request_is_novel, rb) \<leftarrow> request_hash f rb location;
     (if \<not> request_is_novel then Some rb else request_hash_ancestors_loop f block_num l rb) }"

definition request_hash_ancestors :: "ZCachedFile \<Rightarrow> RequestBuilder \<Rightarrow> u32 \<Rightarrow> RequestBuilder option" where
  "request_hash_ancestors f rb block_num = request_hash_ancestors_loop f block_num (tree_depth f) rb"

text \<open>
  The loop removes one location in each round, so the number of tentative locations and one more
  is enough fuel for it.
\<close>

fun clear_tentative_loop :: "nat \<Rightarrow> Disposition \<Rightarrow> RequestBuilder \<Rightarrow> RequestBuilder option" where
  "clear_tentative_loop 0 disposition rb = None"
| "clear_tentative_loop (Suc fuel) disposition rb =
     findMin loc_key (tentative_tree_locations rb) \<bind> (\<lambda>elt.
     case elt of
       None \<Rightarrow> Some rb
     | Some loc \<Rightarrow> do {
         c \<leftarrow> (if disposition = COMMIT then avl_insert loc_key (committed_tree_locations rb) loc
               else Some (committed_tree_locations rb));
         t \<leftarrow> avl_remove loc_key (tentative_tree_locations rb) loc;
         clear_tentative_loop fuel disposition
           (rb\<lparr>committed_tree_locations := c, tentative_tree_locations := t\<rparr>) })"

definition clear_tentative_locations :: "Disposition \<Rightarrow> RequestBuilder \<Rightarrow> RequestBuilder option" where
  "clear_tentative_locations disposition rb =
     clear_tentative_loop (Suc (length (elements (tentative_tree_locations rb)))) disposition rb"

text \<open>The data of one block, when its leaf hash is known.\<close>

definition request_block_data ::
    "ZCachedFile \<Rightarrow> DataRange \<Rightarrow> u32 \<Rightarrow> u32 \<Rightarrow> RequestBuilder \<Rightarrow> RequestBuilder option" where
  "request_block_data f missing_set start end_blk rb = do {
     leaf_location \<leftarrow> tree_index (tree_depth f) (sint (drop_bit ZFTP_LG_BLOCK_SIZE start)) (tree_size f);
     vmr \<leftarrow> tree_at f leaf_location;
     (if vmr_state vmr = v_validated then do {
        let req_this_blk = DataRange_of start (min end_blk (dr_end missing_set));
        avail \<leftarrow> available rb;
        let req_this_blk = (if sint (dr_size req_this_blk) > avail
                            then DataRange_of start (start + word_of_int avail) else req_this_blk);
        r \<leftarrow> accumulate_range (request_range rb) req_this_blk;
        Some (rb\<lparr>request_range := r\<rparr>) }
      else Some rb) }"

text \<open>\<open>unfinished\<close> is the outcome when the rounds are used up before the loop has ended.\<close>

fun build_request_loop ::
    "RequestBuilder option \<Rightarrow> nat \<Rightarrow> ZCachedFile \<Rightarrow> DataRange \<Rightarrow> u32 \<Rightarrow> RequestBuilder \<Rightarrow> RequestBuilder option" where
  "build_request_loop unfinished 0 f missing_set start rb = unfinished"
| "build_request_loop unfinished (Suc fuel) f missing_set start rb =
     (if start < dr_end missing_set then
        available rb \<bind> (\<lambda>avail.
        if avail > 0 then
          let blk = drop_bit ZFTP_LG_BLOCK_SIZE start;
              end_blk = push_bit ZFTP_LG_BLOCK_SIZE (blk + 1) in
          request_hash_ancestors f rb blk \<bind> (\<lambda>rb.
          available rb \<bind> (\<lambda>avail.
          if avail < 0 then clear_tentative_locations ABORT rb
          else
            clear_tentative_locations COMMIT rb \<bind> (\<lambda>rb.
            request_block_data f missing_set start end_blk rb \<bind> (\<lambda>rb.
            build_request_loop unfinished fuel f missing_set end_blk rb))))
        else Some rb)
      else Some rb)"

text \<open>A file has at most \<open>2 ^ 16\<close> blocks, and each round of the loop goes on to the next one.\<close>

definition build_request :: "ZCachedFile \<Rightarrow> DataRange \<Rightarrow> RequestBuilder \<Rightarrow> RequestBuilder option" where
  "build_request f missing_set rb = do {
     n \<leftarrow> avl_size (tentative_tree_locations rb);
     lite_assert (n = 0);
     rb \<leftarrow> build_request_loop None 65537 f missing_set (dr_start missing_set)
            (rb\<lparr>request_range := DataRange_empty\<rparr>);
     n \<leftarrow> avl_size (tentative_tree_locations rb);
     lite_assert (n = 0);
     avail \<leftarrow> available rb;
     lite_assert (avail \<ge> 0);
     Some rb }"

definition RequestBuilder_new :: "ZCachedFile \<Rightarrow> DataRange \<Rightarrow> u32 \<Rightarrow> RequestBuilder option" where
  "RequestBuilder_new f missing_set m =
     build_request f missing_set \<lparr>mtu = m, committed_tree_locations = AVLTree_new,
       tentative_tree_locations = AVLTree_new, request_range = DataRange_empty\<rparr>"

definition as_outbound_request ::
    "ZCachedFile \<Rightarrow> RequestBuilder \<Rightarrow> CompressionContext \<Rightarrow> OutboundRequest option" where
  "as_outbound_request f rb compression_context = do {
     n \<leftarrow> avl_size (committed_tree_locations rb);
     obr \<leftarrow> OutboundRequest_new compression_context (file_hash f) None n 0 (request_range rb);
     (obr, _) \<leftarrow> avl_foreach loc_key
       (\<lambda>loc (obr, i). (obr \<bind> (\<lambda>obr. set_location obr i loc), i + 1))
       (committed_tree_locations rb) (Some obr, 0);
     obr }"

definition requested_any_data :: "RequestBuilder \<Rightarrow> bool" where
  "requested_any_data rb \<longleftrightarrow> dr_size (request_range rb) > 0"

text \<open>The destructor takes the locations out of the tree it owns.\<close>

fun drain_locations :: "nat \<Rightarrow> u32 avl_tree \<Rightarrow> u32 avl_tree option" where
  "drain_locations 0 t = None"
| "drain_locations (Suc fuel) t =
     findMin loc_key t \<bind> (\<lambda>elt.
     case elt of None \<Rightarrow> Some t | Some loc \<Rightarrow> avl_remove loc_key t loc \<bind> drain_locations fuel)"

definition RequestBuilder_delete :: "RequestBuilder \<Rightarrow> RequestBuilder option" where
  "RequestBuilder_delete rb = do {
     c \<leftarrow> drain_locations (Suc (length (elements (committed_tree_locations rb)))) (committed_tree_locations rb);
     lite_assert (avl_tree.root c = Null);
     lite_assert (avl_tree.root (tentative_tree_locations rb) = Null);
     Some (rb\<lparr>committed_tree_locations := c\<rparr>) }"

section \<open>The locations asked for\<close>

abbreviation chosen :: "RequestBuilder \<Rightarrow> u32 list" where
  "chosen rb \<equiv> elements (committed_tree_locations rb)"

abbreviation pending :: "RequestBuilder \<Rightarrow> u32 list" where
  "pending rb \<equiv> elements (tentative_tree_locations rb)"

text \<open>
  The state between two steps of the builder: the two trees are sound and disjoint and hold unknown
  nodes of the file only, and no location was ever taken back, which keeps the counters of the
  trees small.
\<close>

definition rb_ok :: "ZCachedFile \<Rightarrow> RequestBuilder \<Rightarrow> bool" where
  "rb_ok f rb \<longleftrightarrow> avl_inv loc_key (committed_tree_locations rb) \<and> avl_inv loc_key (tentative_tree_locations rb)
     \<and> set (chosen rb) \<inter> set (pending rb) = {}
     \<and> (\<forall>loc \<in> set (chosen rb) \<union> set (pending rb). unat loc < nodes f \<and> st f (unat loc) = v_unknown)
     \<and> deletions (committed_tree_locations rb) = 0
     \<and> unat (insertions (tentative_tree_locations rb)) = length (chosen rb) + length (pending rb)
     \<and> unat (deletions (tentative_tree_locations rb)) = length (chosen rb)"

definition used :: "RequestBuilder \<Rightarrow> nat" where
  "used rb = 61 + 24 * (length (chosen rb) + length (pending rb)) + unat (dr_size (request_range rb))"

lemma ordered_distinct: "ordered loc_key es \<Longrightarrow> distinct es"
  by (simp add: ordered_def strict_sorted_iff loc_key_def)

lemma insert_location:
  assumes "avl_inv loc_key t" "loc \<notin> set (elements t)"
  obtains u where "avl_insert loc_key t loc = Some u" "avl_inv loc_key u"
    "set (elements u) = insert loc (set (elements t))" "length (elements u) = Suc (length (elements t))"
    "insertions u = insertions t + 1" "deletions u = deletions t"
proof -
  have new: "loc_key loc \<notin> loc_key ` set (elements t)" using assms(2) by (auto simp: loc_key_def)
  then obtain u where u: "avl_insert loc_key t loc = Some u" using avl_insert_ok [OF assms(1)] by blast
  then show thesis
    using avl_insert_counts [OF assms(1) u new] by (intro that [of u]) (simp_all add: set_insort_key)
qed

lemma remove_first_location:
  assumes "avl_inv loc_key t" "elements t = loc # locs"
  obtains u where "avl_remove loc_key t loc = Some u" "avl_inv loc_key u" "elements u = locs"
    "insertions u = insertions t" "deletions u = deletions t + 1"
proof -
  have "distinct (loc # locs)" using assms ordered_distinct [OF avl_elems_ordered [OF assms(1)]] by simp
  then have rest: "filter (\<lambda>x. loc_key x \<noteq> loc_key loc) (elements t) = locs"
    using assms(2) by (auto simp: loc_key_def intro: filter_True)
  have "loc_key loc \<in> loc_key ` set (elements t)" using assms(2) by simp
  from avl_remove_ok(1) [OF assms(1) this] show thesis unfolding rest using that by blast
qed

lemma rb_ok_length:
  assumes "rb_ok f rb"
  shows "length (chosen rb) + length (pending rb) \<le> nodes f"
proof -
  have "distinct (map unat (chosen rb @ pending rb))"
  proof (intro distinct_map [THEN iffD2] conjI inj_onI)
    show "distinct (chosen rb @ pending rb)"
      using assms by (auto simp: rb_ok_def avl_elems_ordered ordered_distinct)
  qed (rule unsigned_word_eqI)
  moreover have "set (map unat (chosen rb @ pending rb)) \<subseteq> {..<nodes f}"
    using assms by (auto simp: rb_ok_def)
  ultimately have "length (map unat (chosen rb @ pending rb)) \<le> card {..<nodes f}"
    by (metis card_mono distinct_card finite_lessThan)
  then show ?thesis by simp
qed

lemma rb_ok_sizes:
  assumes "rb_ok f rb" "tree_sized f"
  shows "avl_size (committed_tree_locations rb) = Some (of_nat (length (chosen rb)))"
    and "avl_size (tentative_tree_locations rb) = Some (of_nat (length (pending rb)))"
proof -
  have "length (chosen rb) < 4294967296" "length (pending rb) < 4294967296"
    using rb_ok_length [OF assms(1)] tree_sized_nodes(2) [OF assms(2)] by simp_all
  moreover have "deletions (tentative_tree_locations rb) \<le> insertions (tentative_tree_locations rb)"
    "deletions (committed_tree_locations rb) \<le> insertions (committed_tree_locations rb)"
    using assms(1) by (simp_all add: rb_ok_def word_le_nat_alt)
  ultimately show "avl_size (committed_tree_locations rb) = Some (of_nat (length (chosen rb)))"
    "avl_size (tentative_tree_locations rb) = Some (of_nat (length (pending rb)))"
    using assms(1) avl_count_ok(2) [of loc_key] by (auto simp: rb_ok_def)
qed

lemma sint_difference:
  assumes "a < b + 2 ^ 31" "b \<le> a + 2 ^ 31"
  shows "sint (of_nat a - of_nat b :: u32) = int a - int b"
proof -
  have eq: "sint (word_of_int k :: u32) = signed_take_bit 31 k" for k by (simp add: signed_of_int)
  have "int a < int (b + 2 ^ 31)" "int b \<le> int (a + 2 ^ 31)" using assms by linarith+
  then have "- (2 ^ 31) \<le> int a - int b" "int a - int b < 2 ^ 31" by simp_all
  then have "signed_take_bit 31 (int a - int b) = int a - int b"
    by (intro signed_take_bit_int_eq_self) simp_all
  then show ?thesis using eq [of "int a - int b"] by simp
qed

lemma available_eq:
  assumes "rb_ok f rb" "tree_sized f" "unat (mtu rb) < 2 ^ 31"
    and "unat (dr_size (request_range rb)) \<le> unat (mtu rb)"
  shows "available rb = Some (int (unat (mtu rb)) - int (used rb))"
proof -
  have "sint (mtu rb - of_nat (used rb)) = int (unat (mtu rb)) - int (used rb)"
    using sint_difference [of "unat (mtu rb)" "used rb"] assms(3,4) rb_ok_length [OF assms(1)]
      tree_sized_nodes(2) [OF assms(2)]
    by (simp add: used_def)
  moreover have "of_nat (used rb) =
      (61 + 24 * (of_nat (length (chosen rb)) + of_nat (length (pending rb))) + dr_size (request_range rb) :: u32)"
    by (simp add: used_def)
  ultimately show ?thesis by (simp add: available_def rb_ok_sizes [OF assms(1,2)])
qed

lemma lookup_location:
  "avl_inv loc_key t \<Longrightarrow> avl_lookup loc_key t loc = None \<longleftrightarrow> loc \<notin> set (elements t)"
  by (auto simp: avl_lookup_eq find_none_mem loc_key_def)

lemma request_hash_ok:
  assumes ok: "rb_ok f rb" and sized: "tree_sized f" and loc: "unat loc < nodes f"
  shows "\<exists>novel t. request_hash f rb loc = Some (novel, rb\<lparr>tentative_tree_locations := t\<rparr>)
    \<and> rb_ok f (rb\<lparr>tentative_tree_locations := t\<rparr>)
    \<and> (novel \<longleftrightarrow> st f (unat loc) = v_unknown \<and> loc \<notin> set (chosen rb) \<union> set (pending rb))
    \<and> set (elements t) = set (pending rb) \<union> (if novel then {loc} else {})
    \<and> length (elements t) = length (pending rb) + (if novel then 1 else 0)"
proof (cases "st f (unat loc) = v_unknown \<and> loc \<notin> set (chosen rb) \<union> set (pending rb)")
  case True
  have inv: "avl_inv loc_key (committed_tree_locations rb)" "avl_inv loc_key (tentative_tree_locations rb)"
    using ok by (simp_all add: rb_ok_def)
  obtain t where t: "avl_insert loc_key (tentative_tree_locations rb) loc = Some t" "avl_inv loc_key t"
      "set (elements t) = insert loc (set (pending rb))" "length (elements t) = Suc (length (pending rb))"
      "insertions t = insertions (tentative_tree_locations rb) + 1"
      "deletions t = deletions (tentative_tree_locations rb)"
    by (rule insert_location [OF inv(2), of loc]) (use True in auto)
  have "length (chosen rb) + length (pending rb) < 4294967295"
    using rb_ok_length [OF ok] tree_sized_nodes(2) [OF sized] by simp
  then have "unat (insertions t) = length (chosen rb) + length (elements t)"
    using t ok by (simp add: rb_ok_def unat_add_one_no_wrap)
  then have "rb_ok f (rb\<lparr>tentative_tree_locations := t\<rparr>)"
    using ok t True loc by (auto simp: rb_ok_def)
  with True show ?thesis
    by (intro exI [of _ True] exI [of _ t])
      (use t in \<open>auto simp: request_hash_def lookup_location inv tree_at_in [OF sized loc]\<close>)
next
  case False
  then have "request_hash f rb loc = Some (False, rb)"
    using ok by (auto simp: request_hash_def lookup_location rb_ok_def tree_at_in [OF sized loc])
  with False ok show ?thesis
    by (intro exI [of _ False] exI [of _ "tentative_tree_locations rb"]) auto
qed

text \<open>Asking for more hashes: the chosen locations and the data range stay, the pending ones grow.\<close>

definition asks_more :: "ZCachedFile \<Rightarrow> nat \<Rightarrow> RequestBuilder \<Rightarrow> RequestBuilder \<Rightarrow> bool" where
  "asks_more f n rb rb' \<longleftrightarrow> rb_ok f rb' \<and> (\<exists>t. rb' = rb\<lparr>tentative_tree_locations := t\<rparr>)
     \<and> set (pending rb) \<subseteq> set (pending rb') \<and> length (pending rb') \<le> length (pending rb) + n"

lemma asks_more_trans:
  "asks_more f m rb rb' \<Longrightarrow> asks_more f n rb' rb'' \<Longrightarrow> asks_more f (m + n) rb rb''"
  by (auto simp: asks_more_def)

lemma asks_more_weaken: "asks_more f m rb rb' \<Longrightarrow> m \<le> n \<Longrightarrow> asks_more f n rb rb'"
  by (auto simp: asks_more_def)

lemma request_hash_asks:
  assumes "rb_ok f rb" "tree_sized f" "unat loc < nodes f"
  obtains novel rb' where "request_hash f rb loc = Some (novel, rb')" "asks_more f 1 rb rb'"
    "st f (unat loc) = v_unknown \<Longrightarrow> loc \<in> set (chosen rb) \<union> set (pending rb')"
  using request_hash_ok [OF assms] by (fastforce simp: asks_more_def)

lemma sibling_inside:
  assumes "tree_sized f" "unat loc < nodes f" "0 < loc"
  obtains s where "sibling_location loc = Some s" "unat s < nodes f"
proof (rule node_family [OF assms])
  fix p s
  assume s: "sibling_location loc = Some s" and "left_child p = (if odd (unat loc) then loc else s)"
    "right_child p = (if odd (unat loc) then s else loc)" "unat (left_child p) = 2 * unat p + 1"
    "unat (right_child p) = 2 * unat p + 2" "2 * unat p + 2 < nodes f"
  then have "unat s < nodes f" by (auto split: if_splits)
  with s show thesis by (rule that)
qed

lemma request_ancestors_ok:
  assumes "rb_ok f rb" "tree_sized f" "unat blk < 2 ^ tree_depth f" "level \<le> tree_depth f"
  obtains rb' where "request_hash_ancestors_loop f blk level rb = Some rb'" "asks_more f (2 * level) rb rb'"
    "0 < level \<Longrightarrow> level = tree_depth f \<Longrightarrow> st f (pos level (unat blk)) = v_unknown
      \<Longrightarrow> \<exists>loc \<in> set (chosen rb) \<union> set (pending rb'). unat loc = pos level (unat blk)"
  using assms
proof (induction level arbitrary: rb thesis)
  case 0
  show ?case by (rule "0.prems"(1)) (use "0.prems" in \<open>auto simp: asks_more_def intro: exI [of _ "tentative_tree_locations rb"]\<close>)
next
  case (Suc l)
  let ?d = "tree_depth f - Suc l"
  define col where "col = drop_bit ?d blk"
  have "unat col = unat blk div 2 ^ ?d" by (simp add: col_def unat_drop_bit)
  moreover have "(2::nat) ^ tree_depth f = 2 ^ Suc l * 2 ^ ?d"
    by (subst power_add [symmetric]) (use Suc.prems(5) in simp)
  ultimately have col: "unat col < 2 ^ Suc l"
    using Suc.prems(4) by (simp add: less_mult_imp_div_less)
  have "(2::nat) ^ Suc l \<le> 2 ^ 16"
    using Suc.prems(3,5) by (intro power_increasing) (auto simp: tree_sized_def)
  then have sint: "sint col = int (unat col)" using col by (intro sint_small) simp
  obtain loc where loc: "tree_index (Suc l) (int (unat col)) (tree_size f) = Some loc" "unat loc = pos (Suc l) (unat col)"
    using tree_index_pos [OF Suc.prems(3,5) col] by blast
  have "0 < (2::nat) ^ l" by simp
  then have "0 < pos (Suc l) (unat col)" unfolding pos_def power_Suc by linarith
  then have inside: "unat loc < nodes f" "0 < loc"
    using loc(2) pos_in_nodes [OF Suc.prems(5) col] tree_sized_nodes(1) [OF Suc.prems(3)]
    by (simp_all add: word_less_nat_alt)
  obtain s where s: "sibling_location loc = Some s" "unat s < nodes f"
    by (rule sibling_inside [OF Suc.prems(3) inside])
  obtain n1 rb1 where r1: "request_hash f rb s = Some (n1, rb1)" "asks_more f 1 rb rb1"
    by (rule request_hash_asks [OF Suc.prems(2,3) s(2)]) blast
  then have ok1: "rb_ok f rb1" and ch1: "chosen rb1 = chosen rb" by (auto simp: asks_more_def)
  obtain n2 rb2 where r2: "request_hash f rb1 loc = Some (n2, rb2)" "asks_more f 1 rb1 rb2"
      "st f (unat loc) = v_unknown \<Longrightarrow> loc \<in> set (chosen rb1) \<union> set (pending rb2)"
    by (rule request_hash_asks [OF ok1 Suc.prems(3) inside(1)]) blast
  have two: "asks_more f 2 rb rb2" using asks_more_trans [OF r1(2) r2(2)] by (simp add: numeral_2_eq_2)
  then have ok2: "rb_ok f rb2" and ch2: "chosen rb2 = chosen rb" by (auto simp: asks_more_def)
  have head: "request_hash_ancestors_loop f blk (Suc l) rb =
      (if \<not> n2 then Some rb2 else request_hash_ancestors_loop f blk l rb2)"
    using loc(1) s(1) r1(1) r2(1) by (simp add: Let_def col_def [symmetric] sint)
  show ?case
  proof (cases n2)
    case False
    then show ?thesis
      using head two asks_more_weaken [OF two, of "2 * Suc l"] r2(3) ch1 loc(2)
      by (intro Suc.prems(1) [of rb2]) (auto simp: col_def)
  next
    case True
    obtain rb3 where r3: "request_hash_ancestors_loop f blk l rb2 = Some rb3" "asks_more f (2 * l) rb2 rb3"
      using Suc.IH [OF _ ok2 Suc.prems(3,4)] Suc.prems(5) by (metis Suc_leD)
    have more: "asks_more f (2 * Suc l) rb rb3" using asks_more_trans [OF two r3(2)] by simp
    have "set (pending rb2) \<subseteq> set (pending rb3)" using r3(2) by (simp add: asks_more_def)
    then show ?thesis
      using head True r3(1) more r2(3) ch1 loc(2)
      by (intro Suc.prems(1) [of rb3]) (auto simp: col_def)
  qed
qed

section \<open>Committing the pending locations\<close>

definition settled :: "ZCachedFile \<Rightarrow> RequestBuilder \<Rightarrow> bool" where
  "settled f rb \<longleftrightarrow> avl_inv loc_key (committed_tree_locations rb) \<and> avl_inv loc_key (tentative_tree_locations rb)
     \<and> (\<forall>loc \<in> set (chosen rb). unat loc < nodes f \<and> st f (unat loc) = v_unknown)
     \<and> deletions (committed_tree_locations rb) = 0 \<and> length (chosen rb) \<le> nodes f \<and> pending rb = []"

lemma rb_ok_settled: "rb_ok f rb \<Longrightarrow> pending rb = [] \<Longrightarrow> settled f rb"
  using rb_ok_length [of f rb] by (auto simp: rb_ok_def settled_def)

lemma clear_commit_loop:
  assumes "rb_ok f rb" "tree_sized f"
  obtains rb' where "clear_tentative_loop (Suc (length (pending rb))) COMMIT rb = Some rb'" "rb_ok f rb'"
    "pending rb' = []" "set (chosen rb') = set (chosen rb) \<union> set (pending rb)"
    "length (chosen rb') = length (chosen rb) + length (pending rb)"
    "request_range rb' = request_range rb" "mtu rb' = mtu rb"
  using assms
proof (induction "pending rb" arbitrary: rb thesis)
  case Nil
  have p: "pending rb = []" using Nil.hyps by (rule sym)
  have "avl_inv loc_key (tentative_tree_locations rb)" using Nil.prems(2) by (simp add: rb_ok_def)
  then have "findMin loc_key (tentative_tree_locations rb) = Some None" by (simp add: findMin_first p)
  then show ?case by (intro Nil.prems(1) [of rb] Nil.prems(2)) (simp_all add: p)
next
  case (Cons loc locs)
  note ok = Cons.prems(2)
  have inv: "avl_inv loc_key (committed_tree_locations rb)" "avl_inv loc_key (tentative_tree_locations rb)"
    using ok by (simp_all add: rb_ok_def)
  have fresh: "loc \<notin> set (chosen rb)" using ok Cons.hyps(2) [symmetric] by (auto simp: rb_ok_def)
  obtain t where t: "avl_remove loc_key (tentative_tree_locations rb) loc = Some t" "avl_inv loc_key t"
      "elements t = locs" "insertions t = insertions (tentative_tree_locations rb)"
      "deletions t = deletions (tentative_tree_locations rb) + 1"
    by (rule remove_first_location [OF inv(2) Cons.hyps(2) [symmetric]])
  obtain c where c: "avl_insert loc_key (committed_tree_locations rb) loc = Some c" "avl_inv loc_key c"
      "set (elements c) = insert loc (set (chosen rb))" "length (elements c) = Suc (length (chosen rb))"
      "insertions c = insertions (committed_tree_locations rb) + 1"
      "deletions c = deletions (committed_tree_locations rb)"
    by (rule insert_location [OF inv(1) fresh])
  define rb1 where "rb1 = rb\<lparr>committed_tree_locations := c, tentative_tree_locations := t\<rparr>"
  have "length (chosen rb) < 4294967295"
    using rb_ok_length [OF ok] tree_sized_nodes(2) [OF Cons.prems(3)] by simp
  then have dels: "unat (deletions t) = length (chosen rb) + 1"
    using t(5) ok by (simp add: rb_ok_def unat_add_one_no_wrap)
  have "distinct (loc # locs)"
    using ordered_distinct [OF avl_elems_ordered [OF inv(2)]] Cons.hyps(2) by simp
  then have ok1: "rb_ok f rb1"
    using ok c t dels fresh Cons.hyps(2) [symmetric] by (auto simp: rb_ok_def rb1_def)
  have p1: "locs = pending rb1" using t(3) by (simp add: rb1_def)
  have step: "clear_tentative_loop (Suc (length (pending rb))) COMMIT rb
      = clear_tentative_loop (Suc (length (pending rb1))) COMMIT rb1"
    using findMin_first [OF inv(2)] c(1) t(1) p1 Cons.hyps(2) [symmetric] by (simp add: rb1_def)
  have sizes: "set (chosen rb1) \<union> set (pending rb1) = set (chosen rb) \<union> set (pending rb)"
    "length (chosen rb1) + length (pending rb1) = length (chosen rb) + length (pending rb)"
    "request_range rb1 = request_range rb" "mtu rb1 = mtu rb"
    using c(3,4) t(3) Cons.hyps(2) [symmetric] by (auto simp: rb1_def)
  obtain rb' where "clear_tentative_loop (Suc (length (pending rb1))) COMMIT rb1 = Some rb'" "rb_ok f rb'"
      "pending rb' = []" "set (chosen rb') = set (chosen rb1) \<union> set (pending rb1)"
      "length (chosen rb') = length (chosen rb1) + length (pending rb1)"
      "request_range rb' = request_range rb1" "mtu rb' = mtu rb1"
    using Cons.hyps(1) [OF p1 _ ok1 Cons.prems(3)] by blast
  then show ?case unfolding sizes by (intro Cons.prems(1) [of rb'] trans [OF step])
qed

lemma clear_abort_loop:
  assumes "avl_inv loc_key (tentative_tree_locations rb)"
  obtains t where "clear_tentative_loop (Suc (length (pending rb))) ABORT rb
      = Some (rb\<lparr>tentative_tree_locations := t\<rparr>)" "avl_inv loc_key t" "elements t = []"
  using assms
proof (induction "pending rb" arbitrary: rb thesis)
  case Nil
  show ?case by (rule Nil.prems(1) [of "tentative_tree_locations rb"]) (use Nil in \<open>simp_all add: findMin_first\<close>)
next
  case (Cons loc locs)
  obtain t where t: "avl_remove loc_key (tentative_tree_locations rb) loc = Some t" "avl_inv loc_key t"
      "elements t = locs"
    by (rule remove_first_location [OF Cons.prems(2) Cons.hyps(2) [symmetric]])
  define rb1 where "rb1 = rb\<lparr>tentative_tree_locations := t\<rparr>"
  have p1: "locs = pending rb1" "avl_inv loc_key (tentative_tree_locations rb1)" using t by (simp_all add: rb1_def)
  obtain u where "clear_tentative_loop (Suc (length (pending rb1))) ABORT rb1
      = Some (rb1\<lparr>tentative_tree_locations := u\<rparr>)" "avl_inv loc_key u" "elements u = []"
    using Cons.hyps(1) [OF p1(1) _ p1(2)] by blast
  then show ?case
    using t Cons.hyps(2) [symmetric] Cons.prems(2)
    by (intro Cons.prems(1) [of u]) (auto simp: rb1_def findMin_first)
qed

lemma clear_commit:
  assumes "rb_ok f rb" "tree_sized f"
  obtains rb' where "clear_tentative_locations COMMIT rb = Some rb'" "rb_ok f rb'"
    "pending rb' = []" "set (chosen rb') = set (chosen rb) \<union> set (pending rb)"
    "length (chosen rb') = length (chosen rb) + length (pending rb)"
    "request_range rb' = request_range rb" "mtu rb' = mtu rb"
  unfolding clear_tentative_locations_def by (rule clear_commit_loop [OF assms])

lemma clear_abort:
  assumes "rb_ok f rb"
  obtains t where "clear_tentative_locations ABORT rb = Some (rb\<lparr>tentative_tree_locations := t\<rparr>)"
    "settled f (rb\<lparr>tentative_tree_locations := t\<rparr>)"
proof (rule clear_abort_loop [of rb])
  show "avl_inv loc_key (tentative_tree_locations rb)" using assms by (simp add: rb_ok_def)
  fix t assume t: "clear_tentative_loop (Suc (length (pending rb))) ABORT rb
      = Some (rb\<lparr>tentative_tree_locations := t\<rparr>)" "avl_inv loc_key t" "elements t = []"
  have "settled f (rb\<lparr>tentative_tree_locations := t\<rparr>)"
    using assms t(2,3) rb_ok_length [OF assms] by (simp add: rb_ok_def settled_def)
  then show thesis using t(1) by (intro that [of t]) (simp_all only: clear_tentative_locations_def)
qed

section \<open>Choosing the data\<close>

definition asked :: "RequestBuilder \<Rightarrow> bool" where
  "asked rb \<longleftrightarrow> chosen rb \<noteq> [] \<or> \<not> is_empty (request_range rb)"

abbreviation block_of :: "u32 \<Rightarrow> nat" where
  "block_of x \<equiv> unat (drop_bit ZFTP_LG_BLOCK_SIZE x)"

definition leaf_known :: "ZCachedFile \<Rightarrow> nat \<Rightarrow> bool" where
  "leaf_known f b \<longleftrightarrow> st f (pos (tree_depth f) b) = v_validated"

text \<open>The missing bytes are bytes of blocks the tree has leaves for, and none is in the last block of all.\<close>

definition missing_ok :: "ZCachedFile \<Rightarrow> DataRange \<Rightarrow> bool" where
  "missing_ok f m \<longleftrightarrow> unat (dr_end m) \<le> 65536 * 2 ^ tree_depth f \<and> unat (dr_end m) \<le> 65536 * 65535"

definition range_ok :: "ZCachedFile \<Rightarrow> DataRange \<Rightarrow> DataRange \<Rightarrow> bool" where
  "range_ok f m r \<longleftrightarrow> proper r \<and> (\<forall>x \<in> dr_set r. x \<in> dr_set m \<and> leaf_known f (block_of x))"

lemma block_of_eq: "block_of x = unat x div 65536"
  by (simp add: ZFTP_LG_BLOCK_SIZE_def unat_drop_bit)

lemma next_block:
  assumes "missing_ok f m" "start < dr_end m"
  defines "e \<equiv> push_bit ZFTP_LG_BLOCK_SIZE (drop_bit ZFTP_LG_BLOCK_SIZE start + 1) :: u32"
  shows "unat e = 65536 * (block_of start + 1)" "block_of start < 65535" "block_of start < 2 ^ tree_depth f"
    "unat start < unat e" "block_of e = block_of start + 1"
proof -
  have "unat start < unat (dr_end m)" using assms(2) by (simp add: word_less_nat_alt)
  then have "unat start < 65536 * 65535" "unat start < 65536 * 2 ^ tree_depth f"
    using assms(1) by (auto simp: missing_ok_def)
  then show b: "block_of start < 65535" "block_of start < 2 ^ tree_depth f"
    by (simp_all add: block_of_eq div_less_iff_less_mult mult.commute)
  let ?b = "drop_bit ZFTP_LG_BLOCK_SIZE start"
  have b1: "unat (?b + 1) = unat ?b + 1" using b by (subst unat_add_one_no_wrap) simp_all
  show e: "unat e = 65536 * (block_of start + 1)"
    unfolding e_def by (subst unat_push_bit_no_wrap) (use b b1 in \<open>simp_all add: ZFTP_LG_BLOCK_SIZE_def\<close>)
  show "unat start < unat e" unfolding e block_of_eq by simp
  show "block_of e = block_of start + 1" using e by (simp add: block_of_eq)
qed

lemma leaf_at:
  fixes b :: u32
  assumes "tree_sized f" "unat b < 2 ^ tree_depth f"
  obtains loc where "tree_index (tree_depth f) (sint b) (tree_size f) = Some loc"
    "tree_at f loc = Some (tree f ! pos (tree_depth f) (unat b))"
proof -
  have "(2::nat) ^ tree_depth f \<le> 2 ^ 16" using assms(1) by (intro power_increasing) (auto simp: tree_sized_def)
  then have "sint b = int (unat b)" using assms(2) by (intro sint_small) simp
  moreover obtain loc where "tree_index (tree_depth f) (int (unat b)) (tree_size f) = Some loc"
      "unat loc = pos (tree_depth f) (unat b)"
    by (rule tree_index_pos [OF assms(1) order_refl assms(2)])
  moreover have "pos (tree_depth f) (unat b) < nodes f"
    using pos_in_nodes [OF order_refl assms(2)] tree_sized_nodes(1) [OF assms(1)] by simp
  ultimately show thesis using that tree_at_in [OF assms(1), of loc] by simp
qed

text \<open>Adding the next bytes to a range that is empty or ends where they start.\<close>

lemma accumulate_next:
  assumes "proper r" "is_empty r \<or> dr_end r = s" "s \<le> e"
  obtains r' where "accumulate_range r (DataRange_of s e) = Some r'" "proper r'"
    "dr_set r' = dr_set r \<union> {s..<e}" "unat (dr_size r') = unat (dr_size r) + (unat e - unat s)"
    "is_empty r' \<or> dr_end r' = e"
proof (cases "is_empty r")
  case True
  show ?thesis
    by (rule that [of "\<lparr>dr_start = s, dr_end = e\<rparr>"])
      (use True assms in \<open>auto simp: accumulate_range_def accumulate_def maybe_accumulate_def DataRange_of_def
         proper_def dr_set_def is_empty_def dr_size_def unat_sub\<close>)
next
  case False
  then have r: "dr_end r = s" "dr_start r < s" using assms by (auto simp: is_empty_def proper_def)
  then have ne: "e \<noteq> dr_start r" "dr_start r \<le> e" "dr_start r \<le> s" using assms(3) by auto
  have "unat (dr_start r) \<le> unat s" "unat s \<le> unat e" using r ne assms(3) by (simp_all add: word_le_nat_alt)
  then have "unat (e - dr_start r) = unat (s - dr_start r) + (unat e - unat s)"
    using ne by (simp add: unat_sub)
  then show ?thesis
    by (intro that [of "r\<lparr>dr_end := e\<rparr>"])
      (use False assms r ne in \<open>auto simp: accumulate_range_def accumulate_def maybe_accumulate_def
         DataRange_of_def proper_def dr_set_def dr_size_def\<close>)
qed

text \<open>What is known of the builder before each round of the loop.\<close>

definition round_ok :: "ZCachedFile \<Rightarrow> DataRange \<Rightarrow> RequestBuilder \<Rightarrow> bool" where
  "round_ok f m rb \<longleftrightarrow> rb_ok f rb \<and> pending rb = [] \<and> range_ok f m (request_range rb)
     \<and> used rb \<le> unat (mtu rb) \<and> unat (mtu rb) < 2 ^ 31"

text \<open>For a known leaf the builder asks for the bytes up to the end of the block, as far as the packet has room.\<close>

lemma block_request:
  assumes ok: "round_ok f m rb" and f: "tree_sized f" "missing_ok f m" and start: "start < dr_end m"
    and known: "leaf_known f (block_of start)"
    and e: "e = push_bit ZFTP_LG_BLOCK_SIZE (drop_bit ZFTP_LG_BLOCK_SIZE start + 1)"
    and k: "k = min (unat (min e (dr_end m)) - unat start) (unat (mtu rb) - used rb)"
  shows "request_block_data f m start e rb = accumulate_range (request_range rb) (DataRange_of start (start + of_nat k))
      \<bind> (\<lambda>r. Some (rb\<lparr>request_range := r\<rparr>))"
    and "unat (start + of_nat k) = unat start + k" and "start < min e (dr_end m)"
    and "unat start + k = unat (min e (dr_end m)) \<longrightarrow> start + of_nat k = min e (dr_end m)"
proof -
  note nb = next_block [OF f(2) start, folded e]
  have ok': "rb_ok f rb" "unat (mtu rb) < 2 ^ 31" "used rb \<le> unat (mtu rb)" using ok by (auto simp: round_ok_def)
  obtain loc where loc: "tree_index (tree_depth f) (sint (drop_bit ZFTP_LG_BLOCK_SIZE start)) (tree_size f) = Some loc"
      "tree_at f loc = Some (tree f ! pos (tree_depth f) (block_of start))"
    by (rule leaf_at [OF f(1) nb(3)])
  define e' where "e' = min e (dr_end m)"
  define n a where "n = unat e' - unat start" and "a = unat (mtu rb) - used rb"
  have k': "k = min n a" using k by (simp add: n_def a_def e'_def)
  have e': "start < e'" "unat e' \<le> 65536 * (block_of start + 1)"
    using nb start by (auto simp: e'_def min_def word_less_nat_alt word_le_nat_alt)
  have le: "unat e' = unat start + n" using e'(1) by (simp add: word_less_nat_alt n_def)
  have "n \<le> 65536" using e'(2) by (simp add: block_of_eq n_def)
  moreover have "unat (dr_size (DataRange_of start e')) = n"
    using e'(1) by (simp add: dr_size_def DataRange_of_def unat_sub n_def)
  ultimately have s: "sint (dr_size (DataRange_of start e')) = int n"
    using sint_small [of "dr_size (DataRange_of start e')"] by simp
  have avail: "available rb = Some (int a)"
    using available_eq [OF ok'(1) f(1) ok'(2)] ok'(3) by (simp add: used_def of_nat_diff a_def)
  have "k < 2 ^ 32" "unat start + k < 2 ^ 32" using le unat_u32_bound [of e'] by (simp_all add: k' min_def)
  then show sum: "unat (start + of_nat k) = unat start + k"
    by (subst unat_add_no_wrap) (simp_all add: unat_of_nat_u32)
  then show full: "unat start + k = unat (min e (dr_end m)) \<longrightarrow> start + of_nat k = min e (dr_end m)"
    by (simp add: word_unat_eq_iff)
  have "(if int a < int n then DataRange_of start (start + of_nat a) else DataRange_of start e')
      = DataRange_of start (start + of_nat k)"
  proof (cases "a < n")
    case False
    then show ?thesis using full le by (simp add: k' min_def e'_def split: if_splits)
  qed (simp add: k')
  then show "request_block_data f m start e rb = accumulate_range (request_range rb) (DataRange_of start (start + of_nat k))
      \<bind> (\<lambda>r. Some (rb\<lparr>request_range := r\<rparr>))"
    using known loc avail unfolding request_block_data_def e'_def [symmetric] leaf_known_def
    by (simp add: s split: if_splits)
  show "start < min e (dr_end m)" using e'(1) by (simp add: e'_def)
qed

lemma bytes_of_block:
  assumes start: "dr_start m \<le> start" "start < dr_end m" and known: "leaf_known f (block_of start)"
    and e: "unat e = 65536 * (block_of start + 1)" and sum: "unat (start + of_nat k) = unat start + k"
    and k: "unat start + k \<le> unat (min e (dr_end m))" and x: "x \<in> {start..<start + of_nat k}"
  shows "x \<in> dr_set m \<and> leaf_known f (block_of x)"
proof -
  have x': "unat start \<le> unat x" "unat x < unat start + k" using x sum by (auto simp: word_le_nat_alt word_less_nat_alt)
  then have up: "unat x < unat e" "unat x < unat (dr_end m)" using k by (auto simp: min_def split: if_splits)
     (auto simp: word_le_nat_alt)
  have "65536 * block_of start \<le> unat start" by (simp add: block_of_eq)
  then have "unat x div 65536 = block_of start" using x' up(1) e by (intro div_nat_eqI) simp_all
  then have "block_of x = block_of start" by (simp add: block_of_eq)
  with known up(2) x start(1) show ?thesis by (auto simp: dr_set_def word_less_nat_alt)
qed

lemma request_data_ok:
  assumes ok: "round_ok f m rb" and f: "tree_sized f" "missing_ok f m" and start: "dr_start m \<le> start" "start < dr_end m"
    and touch: "leaf_known f (block_of start) \<Longrightarrow> is_empty (request_range rb) \<or> dr_end (request_range rb) = start"
  defines "e \<equiv> push_bit ZFTP_LG_BLOCK_SIZE (drop_bit ZFTP_LG_BLOCK_SIZE start + 1)"
  obtains rb' where "request_block_data f m start e rb = Some rb'" "round_ok f m rb'"
    "mtu rb' = mtu rb" "chosen rb' = chosen rb" "asked rb \<Longrightarrow> asked rb'"
    "\<not> leaf_known f (block_of start) \<Longrightarrow> request_range rb' = request_range rb"
    "leaf_known f (block_of start) \<Longrightarrow> used rb < unat (mtu rb) \<Longrightarrow> \<not> is_empty (request_range rb')"
    "leaf_known f (block_of start) \<Longrightarrow> used rb' = unat (mtu rb') \<or> is_empty (request_range rb')
       \<or> dr_end (request_range rb') = min e (dr_end m)"
    "used rb' \<le> used rb + (unat e - unat start)"
proof (cases "leaf_known f (block_of start)")
  case False
  obtain loc where "tree_index (tree_depth f) (sint (drop_bit ZFTP_LG_BLOCK_SIZE start)) (tree_size f) = Some loc"
      "tree_at f loc = Some (tree f ! pos (tree_depth f) (block_of start))"
    by (rule leaf_at [OF f(1) next_block(3) [OF f(2) start(2)]])
  then show thesis
    using that [of rb] ok False by (auto simp: request_block_data_def leaf_known_def)
next
  case True
  have ok': "rb_ok f rb" "used rb \<le> unat (mtu rb)" "proper (request_range rb)"
    using ok by (auto simp: round_ok_def range_ok_def)
  define n a where "n = unat (min e (dr_end m)) - unat start" and "a = unat (mtu rb) - used rb"
  define k where "k = min n a"
  note req = block_request [OF ok f start(2) True meta_eq_to_obj_eq [OF e_def], OF k_def [unfolded n_def a_def]]
  have le: "unat (min e (dr_end m)) = unat start + n" "0 < n" "n \<le> unat e - unat start"
    using req(3) by (auto simp: word_less_nat_alt n_def min_def word_le_nat_alt)
  obtain r where r: "accumulate_range (request_range rb) (DataRange_of start (start + of_nat k)) = Some r" "proper r"
      "dr_set r = dr_set (request_range rb) \<union> {start..<start + of_nat k}"
      "unat (dr_size r) = unat (dr_size (request_range rb)) + (unat (start + of_nat k) - unat start)"
      "is_empty r \<or> dr_end r = start + of_nat k"
    by (rule accumulate_next [OF ok'(3) touch [OF True], of "start + of_nat k"])
      (use req(2) in \<open>simp add: word_le_nat_alt\<close>)
  define rb' where "rb' = rb\<lparr>request_range := r\<rparr>"
  have used': "used rb' = used rb + k" using r(4) req(2) by (simp add: used_def rb'_def)
  have "x \<in> dr_set m \<and> leaf_known f (block_of x)" if "x \<in> {start..<start + of_nat k}" for x
    by (rule bytes_of_block [OF start True _ req(2) _ that, of e])
      (use next_block(1) [OF f(2) start(2), folded e_def] le in \<open>simp_all add: k_def\<close>)
  then have "range_ok f m r" using r(2,3) ok by (auto simp: range_ok_def round_ok_def)
  moreover have "used rb' \<le> unat (mtu rb')" using used' ok'(2) by (simp add: rb'_def k_def a_def)
  moreover have "rb_ok f rb'" using ok'(1) by (simp add: rb_ok_def rb'_def)
  ultimately have "round_ok f m rb'" using ok by (simp add: round_ok_def rb'_def)
  moreover have "asked rb'" if "asked rb"
    using that r(2,3) ok'(3) dr_set_empty_iff [of r] dr_set_empty_iff [of "request_range rb"]
    by (auto simp: asked_def rb'_def)
  moreover have "\<not> is_empty r" if "used rb < unat (mtu rb)"
  proof -
    have "0 < k" using that le by (simp add: k_def a_def)
    then have "unat (dr_size r) \<noteq> 0" using r(4) req(2) by simp
    then show ?thesis by (auto simp: is_empty_def dr_size_def)
  qed
  moreover have "used rb' = unat (mtu rb') \<or> start + of_nat k = min e (dr_end m)"
    using req(4) le used' ok'(2) by (auto simp: k_def min_def a_def rb'_def)
  moreover have "used rb' \<le> used rb + (unat e - unat start)" using used' le(3) by (simp add: k_def)
  moreover have "request_block_data f m start e rb = Some rb'" using req(1) r(1) by (simp add: rb'_def)
  ultimately show thesis using that [of rb'] r(5) True by (auto simp: rb'_def)
qed

text \<open>A block beyond the end of the range does not touch it: the builder stops on an assertion.\<close>

lemma request_data_gap:
  assumes "round_ok f m rb" and "tree_sized f" "missing_ok f m" and "start < dr_end m" "leaf_known f (block_of start)"
    and "\<not> is_empty (request_range rb)" "dr_end (request_range rb) < start" "used rb < unat (mtu rb)"
    and "e = push_bit ZFTP_LG_BLOCK_SIZE (drop_bit ZFTP_LG_BLOCK_SIZE start + 1)"
  shows "request_block_data f m start e rb = None"
proof -
  define k where "k = min (unat (min e (dr_end m)) - unat start) (unat (mtu rb) - used rb)"
  note req = block_request [OF assms(1-5,9) k_def]
  have "0 < k" using req(3) assms(8) by (simp add: k_def word_less_nat_alt)
  then have "start < start + of_nat k" using req(2) by (simp add: word_less_nat_alt)
  moreover have "dr_start (request_range rb) \<le> dr_end (request_range rb)"
    using assms(1) by (simp add: round_ok_def range_ok_def proper_def)
  ultimately have "accumulate_range (request_range rb) (DataRange_of start (start + of_nat k)) = None"
    using assms(6,7) by (auto simp: accumulate_range_def accumulate_def maybe_accumulate_def DataRange_of_def)
  then show ?thesis using req(1) by simp
qed

section \<open>The loop over the missing blocks\<close>

text \<open>
  The leaves known among the missing blocks are next to each other.  The builder can only ask for
  one range of bytes, and asserts that each block it adds touches the range.
\<close>

definition no_gap :: "ZCachedFile \<Rightarrow> DataRange \<Rightarrow> bool" where
  "no_gap f m \<longleftrightarrow> (\<forall>i j k. block_of (dr_start m) \<le> i \<and> i < j \<and> j < k \<and> 65536 * k < unat (dr_end m)
     \<and> leaf_known f i \<and> leaf_known f k \<longrightarrow> leaf_known f j)"

definition touches :: "ZCachedFile \<Rightarrow> DataRange \<Rightarrow> u32 \<Rightarrow> RequestBuilder \<Rightarrow> bool" where
  "touches f m start rb \<longleftrightarrow> used rb = unat (mtu rb) \<or> is_empty (request_range rb)
     \<or> dr_end (request_range rb) = start \<and> 65536 * block_of start = unat start
     \<or> (\<forall>k \<ge> block_of start. 65536 * k < unat (dr_end m) \<longrightarrow> \<not> leaf_known f k)"

definition finished :: "ZCachedFile \<Rightarrow> DataRange \<Rightarrow> RequestBuilder \<Rightarrow> RequestBuilder \<Rightarrow> bool" where
  "finished f m rb rb' \<longleftrightarrow> settled f rb' \<and> range_ok f m (request_range rb') \<and> used rb' \<le> unat (mtu rb')
     \<and> mtu rb' = mtu rb \<and> unat (mtu rb') < 2 ^ 31 \<and> (asked rb \<longrightarrow> asked rb')"

lemma round_finished: "round_ok f m rb \<Longrightarrow> finished f m rb rb"
  by (auto simp: round_ok_def finished_def rb_ok_settled)

lemma finished_trans: "finished f m rb' rb'' \<Longrightarrow> mtu rb' = mtu rb \<Longrightarrow> (asked rb \<Longrightarrow> asked rb') \<Longrightarrow> finished f m rb rb''"
  by (auto simp: finished_def)

lemma block_start: "65536 * block_of x \<le> unat x"
  by (simp add: block_of_eq)

lemma next_block_above: "unat x < 65536 * (block_of x + 1)"
  by (simp add: block_of_eq)

lemma touches_start:
  assumes "touches f m start rb" "used rb < unat (mtu rb)" "start < dr_end m" "leaf_known f (block_of start)"
  shows "is_empty (request_range rb) \<or> dr_end (request_range rb) = start"
  using assms block_start [of start] by (auto simp: touches_def word_less_nat_alt)

text \<open>A byte before the start of a block is in an earlier block.\<close>

lemma gap_after:
  assumes gap: "no_gap f m" and ok: "range_ok f m r" "\<not> is_empty r" and at: "dr_end r = start"
    "65536 * block_of start = unat start" and unknown: "\<not> leaf_known f (block_of start)"
    and k: "block_of start \<le> k" "65536 * k < unat (dr_end m)"
  shows "\<not> leaf_known f k"
proof
  assume known: "leaf_known f k"
  define x where "x = start - 1"
  have "dr_start r < start" using ok at(1) by (auto simp: range_ok_def proper_def is_empty_def)
  then have pos: "0 < unat start" "dr_start r \<le> x" "x < start"
    by (auto simp: x_def word_less_nat_alt word_le_nat_alt unat_sub_no_wrap)
  then have "x \<in> dr_set r" using at(1) by (simp add: dr_set_def)
  then have x: "x \<in> dr_set m" "leaf_known f (block_of x)" using ok(1) by (auto simp: range_ok_def)
  have "unat x < 65536 * block_of start" using pos at(2) by (simp add: word_less_nat_alt)
  then have before: "block_of x < block_of start" by (simp add: block_of_eq [of x] div_less_iff_less_mult mult.commute)
  have first: "block_of (dr_start m) \<le> block_of x"
    using x(1) by (auto simp: block_of_eq dr_set_def word_le_nat_alt intro: div_le_mono)
  have "block_of start < k" using k(1) known unknown by (cases "k = block_of start") auto
  then show False using gap first before known unknown x(2) k(2) unfolding no_gap_def by blast
qed

lemma touches_next:
  assumes "no_gap f m" "round_ok f m rb" "touches f m start rb" "used rb < unat (mtu rb)"
    and "\<not> leaf_known f (block_of start)" "block_of e = block_of start + 1"
    and same: "request_range rb' = request_range rb"
  shows "touches f m e rb'"
proof (cases "is_empty (request_range rb)")
  case True
  then show ?thesis using same by (simp add: touches_def)
next
  case False
  have "\<not> leaf_known f k" if "block_of start \<le> k" "65536 * k < unat (dr_end m)" for k
    using assms(3,4) False that gap_after [OF assms(1) _ False _ _ assms(5) that] assms(2)
    by (auto simp: touches_def round_ok_def)
  then show ?thesis using assms(6) by (simp add: touches_def)
qed

text \<open>The hashes of one round.\<close>

lemma available_sign:
  assumes "rb_ok f rb" "tree_sized f" "unat (mtu rb) < 2 ^ 31"
    and "unat (dr_size (request_range rb)) \<le> unat (mtu rb)"
  obtains a where "available rb = Some a" "a < 0 \<longleftrightarrow> unat (mtu rb) < used rb" "0 < a \<longleftrightarrow> used rb < unat (mtu rb)"
proof -
  have "int (unat (mtu rb)) - int (used rb) < 0 \<longleftrightarrow> unat (mtu rb) < used rb"
    "0 < int (unat (mtu rb)) - int (used rb) \<longleftrightarrow> used rb < unat (mtu rb)" by linarith+
  then show thesis using that available_eq [OF assms] by blast
qed

lemma round_hashes:
  assumes ok: "round_ok f m rb" and f: "tree_sized f" "missing_ok f m" and start: "start < dr_end m"
  obtains rb1 a where "request_hash_ancestors f rb (drop_bit ZFTP_LG_BLOCK_SIZE start) = Some rb1"
    "asks_more f (2 * tree_depth f) rb rb1"
    "available rb1 = Some a" "a < 0 \<longleftrightarrow> unat (mtu rb) < used rb1"
    "st f (pos (tree_depth f) (block_of start)) = v_unknown \<longrightarrow> 0 < tree_depth f
       \<longrightarrow> chosen rb \<noteq> [] \<or> pending rb1 \<noteq> []"
proof -
  note nb = next_block [OF f(2) start]
  have ok': "rb_ok f rb" "unat (mtu rb) < 2 ^ 31" "used rb \<le> unat (mtu rb)" using ok by (auto simp: round_ok_def)
  obtain rb1 where rb1: "request_hash_ancestors_loop f (drop_bit ZFTP_LG_BLOCK_SIZE start) (tree_depth f) rb = Some rb1"
      "asks_more f (2 * tree_depth f) rb rb1"
      "0 < tree_depth f \<longrightarrow> st f (pos (tree_depth f) (block_of start)) = v_unknown
        \<longrightarrow> (\<exists>loc \<in> set (chosen rb) \<union> set (pending rb1). unat loc = pos (tree_depth f) (block_of start))"
    using request_ancestors_ok [OF ok'(1) f(1) nb(3) order_refl] by metis
  then have same: "rb_ok f rb1" "mtu rb1 = mtu rb" "request_range rb1 = request_range rb"
    by (auto simp: asks_more_def)
  have "unat (dr_size (request_range rb1)) \<le> unat (mtu rb1)" using ok'(3) same by (simp add: used_def)
  then obtain a where "available rb1 = Some a" "a < 0 \<longleftrightarrow> unat (mtu rb) < used rb1"
    using available_sign [OF same(1) f(1)] ok'(2) same(2) by metis
  then show thesis using that [of rb1 a] rb1 by (force simp: request_hash_ancestors_def)
qed

text \<open>One round either gives up on hashes that do not fit, or goes on behind the block.\<close>

lemma loop_abort:
  assumes "start < dr_end m" "available rb = Some a" "0 < a" "available rb1 = Some b" "b < 0"
    and "request_hash_ancestors f rb (drop_bit ZFTP_LG_BLOCK_SIZE start) = Some rb1"
  shows "build_request_loop unfinished (Suc n) f m start rb = clear_tentative_locations ABORT rb1"
  using assms by simp

lemma loop_commit:
  assumes "start < dr_end m" "available rb = Some a" "0 < a" "available rb1 = Some b" "\<not> b < 0"
    and "request_hash_ancestors f rb (drop_bit ZFTP_LG_BLOCK_SIZE start) = Some rb1"
    and "clear_tentative_locations COMMIT rb1 = Some rb2"
    and "e = push_bit ZFTP_LG_BLOCK_SIZE (drop_bit ZFTP_LG_BLOCK_SIZE start + 1)"
    and "request_block_data f m start e rb2 = Some rb3"
  shows "build_request_loop unfinished (Suc n) f m start rb = build_request_loop unfinished n f m e rb3"
  using assms by (simp add: Let_def)

lemma build_round:
  assumes ok: "round_ok f m rb" "touches f m start rb" and f: "tree_sized f" "missing_ok f m" "no_gap f m"
    and start: "dr_start m \<le> start" "start < dr_end m" and room: "used rb < unat (mtu rb)"
    and e: "e = push_bit ZFTP_LG_BLOCK_SIZE (drop_bit ZFTP_LG_BLOCK_SIZE start + 1)"
  obtains (abort) rb' where "\<And>n. build_request_loop unfinished (Suc n) f m start rb = Some rb'" "finished f m rb rb'"
      "unat (mtu rb) < used rb + 48 * tree_depth f"
    | (move_on) rb' where "\<And>n. build_request_loop unfinished (Suc n) f m start rb = build_request_loop unfinished n f m e rb'"
      "round_ok f m rb'" "touches f m e rb'" "mtu rb' = mtu rb" "asked rb \<longrightarrow> asked rb'"
      "used rb + 48 * tree_depth f < unat (mtu rb) \<and> (leaf_known f (block_of start)
         \<or> 0 < tree_depth f \<and> st f (pos (tree_depth f) (block_of start)) = v_unknown) \<longrightarrow> asked rb'"
proof -
  note nb = next_block [OF f(2) start(2), folded e]
  have ok': "rb_ok f rb" "unat (mtu rb) < 2 ^ 31" "pending rb = []" using ok by (auto simp: round_ok_def)
  obtain a where a: "available rb = Some a" "0 < a"
    using available_sign [OF ok'(1) f(1) ok'(2)] room by (auto simp: used_def)
  obtain rb1 b where rb1: "request_hash_ancestors f rb (drop_bit ZFTP_LG_BLOCK_SIZE start) = Some rb1"
      "asks_more f (2 * tree_depth f) rb rb1" "available rb1 = Some b" "b < 0 \<longleftrightarrow> unat (mtu rb) < used rb1"
      and unk: "st f (pos (tree_depth f) (block_of start)) = v_unknown \<longrightarrow> 0 < tree_depth f
         \<longrightarrow> chosen rb \<noteq> [] \<or> pending rb1 \<noteq> []"
    by (rule round_hashes [OF ok(1) f(1,2) start(2)])
  have same: "rb_ok f rb1" "chosen rb1 = chosen rb" "mtu rb1 = mtu rb" "request_range rb1 = request_range rb"
    "used rb1 \<le> used rb + 48 * tree_depth f"
    using rb1(2) ok'(3) by (auto simp: asks_more_def used_def)
  show thesis
  proof (cases "b < 0")
    case True
    obtain t where t: "clear_tentative_locations ABORT rb1 = Some (rb1\<lparr>tentative_tree_locations := t\<rparr>)"
        "settled f (rb1\<lparr>tentative_tree_locations := t\<rparr>)"
      by (rule clear_abort [OF same(1)])
    have "finished f m rb (rb1\<lparr>tentative_tree_locations := t\<rparr>)"
      using ok(1) t(2) same ok'(3) by (simp add: round_ok_def finished_def settled_def used_def asked_def)
    with loop_abort [OF start(2) a rb1(3) True rb1(1)] show thesis
      using abort t(1) True same(5) rb1(4) by (metis le_less_trans not_le)
  next
    case False
    obtain rb2 where rb2: "clear_tentative_locations COMMIT rb1 = Some rb2" "rb_ok f rb2"
        "pending rb2 = []" "set (chosen rb2) = set (chosen rb1) \<union> set (pending rb1)"
        "length (chosen rb2) = length (chosen rb1) + length (pending rb1)"
        "request_range rb2 = request_range rb1" "mtu rb2 = mtu rb1"
      by (rule clear_commit [OF same(1) f(1)])
    have u2: "used rb2 = used rb1" using rb2(3,5,6) by (simp add: used_def)
    have ok2: "round_ok f m rb2" using ok(1) rb2 same u2 False rb1(4) by (simp add: round_ok_def)
    have asked2: "asked rb2" if "asked rb \<or> pending rb1 \<noteq> []"
      using that rb2(4,6) same by (auto simp: asked_def)
    obtain rb3 where rb3: "request_block_data f m start e rb2 = Some rb3" "round_ok f m rb3"
        "mtu rb3 = mtu rb2" "asked rb2 \<longrightarrow> asked rb3"
        and unknown: "\<not> leaf_known f (block_of start) \<longrightarrow> request_range rb3 = request_range rb2"
        and data: "leaf_known f (block_of start) \<longrightarrow> used rb2 < unat (mtu rb2) \<longrightarrow> \<not> is_empty (request_range rb3)"
        and known: "leaf_known f (block_of start) \<longrightarrow> used rb3 = unat (mtu rb3) \<or> is_empty (request_range rb3)
           \<or> dr_end (request_range rb3) = min e (dr_end m)"
      using request_data_ok [OF ok2 f(1,2) start, folded e] touches_start [OF ok(2) room start(2)] same rb2(6)
      by metis
    have "touches f m e rb3"
    proof (cases "leaf_known f (block_of start)")
      case True
      then show ?thesis using known nb by (auto simp: touches_def min_def word_le_nat_alt split: if_splits)
    next
      case False
      show ?thesis
        by (rule touches_next [OF f(3) ok room False nb(5)]) (use unknown False rb2(6) same in simp)
    qed
    moreover have "asked rb \<longrightarrow> asked rb3" using asked2 rb3(4) by blast
    moreover have "used rb + 48 * tree_depth f < unat (mtu rb) \<and> (leaf_known f (block_of start)
         \<or> 0 < tree_depth f \<and> st f (pos (tree_depth f) (block_of start)) = v_unknown) \<longrightarrow> asked rb3"
      using data u2 same rb2(7) rb3(4) unk asked2 by (auto simp: asked_def)
    ultimately show thesis
      using move_on [OF loop_commit [OF start(2) a rb1(3) False rb1(1) rb2(1) e rb3(1)] rb3(2)] rb3(3) rb2(7) same(3)
      by simp
  qed
qed

lemma build_loop_ok:
  assumes "round_ok f m rb" "touches f m start rb" "dr_start m \<le> start"
    and "65536 < n + block_of start \<or> 0 < n \<and> \<not> start < dr_end m"
    and f: "tree_sized f" "missing_ok f m" "no_gap f m"
  obtains rb' where "build_request_loop unfinished n f m start rb = Some rb'" "finished f m rb rb'"
  using assms(1-4)
proof (induction n arbitrary: start rb thesis)
  case 0
  moreover have "block_of start < 65536" using unat_u32_bound [of start] by (simp add: block_of_eq div_less_iff_less_mult)
  ultimately show ?case by simp
next
  case (Suc n)
  have ok: "rb_ok f rb" "unat (mtu rb) < 2 ^ 31" "used rb \<le> unat (mtu rb)" using Suc.prems(2) by (auto simp: round_ok_def)
  obtain a where a: "available rb = Some a" "0 < a \<longleftrightarrow> used rb < unat (mtu rb)"
    using available_sign [OF ok(1) f(1) ok(2)] ok(3) by (auto simp: used_def)
  show ?case
  proof (cases "start < dr_end m \<and> used rb < unat (mtu rb)")
    case False
    then have "build_request_loop unfinished (Suc n) f m start rb = Some rb" using a by auto
    then show ?thesis using Suc.prems(1) round_finished [OF Suc.prems(2)] by blast
  next
    case True
    define e where "e = push_bit ZFTP_LG_BLOCK_SIZE (drop_bit ZFTP_LG_BLOCK_SIZE start + 1)"
    note nb = next_block [OF f(2) conjunct1 [OF True], folded e_def]
    show ?thesis
    proof (rule build_round [OF Suc.prems(2,3) f Suc.prems(4) conjunct1 [OF True] conjunct2 [OF True] e_def])
      fix rb' assume "\<And>n. build_request_loop unfinished (Suc n) f m start rb = Some rb'" "finished f m rb rb'"
      then show ?thesis using Suc.prems(1) by blast
    next
      fix rb' assume step: "\<And>n. build_request_loop unfinished (Suc n) f m start rb = build_request_loop unfinished n f m e rb'"
        and ok': "round_ok f m rb'" "touches f m e rb'" and same: "mtu rb' = mtu rb" "asked rb \<longrightarrow> asked rb'"
      have "dr_start m \<le> e" using Suc.prems(4) nb(4) by (simp add: word_le_nat_alt)
      moreover have "65536 < n + block_of e \<or> 0 < n \<and> \<not> e < dr_end m" using Suc.prems(5) True nb(5) by auto
      ultimately obtain rb'' where "build_request_loop unfinished n f m e rb' = Some rb''" "finished f m rb' rb''"
        using Suc.IH [OF _ ok'] by blast
      then show ?thesis using Suc.prems(1) step finished_trans same by metis
    qed
  qed
qed

lemma settled_available:
  assumes "settled f rb" "tree_sized f" "unat (mtu rb) < 2 ^ 31" "used rb \<le> unat (mtu rb)"
  shows "avl_size (tentative_tree_locations rb) = Some 0"
    and "avl_size (committed_tree_locations rb) = Some (of_nat (length (chosen rb)))"
    and "available rb = Some (int (unat (mtu rb)) - int (used rb))"
proof -
  have len: "length (chosen rb) < 4294967296" "pending rb = []"
    using assms(1) tree_sized_nodes(2) [OF assms(2)] by (auto simp: settled_def)
  have "insertions (tentative_tree_locations rb) - deletions (tentative_tree_locations rb) = 0"
    using assms(1) by (simp add: settled_def avl_inv_def)
  then have "deletions (tentative_tree_locations rb) \<le> insertions (tentative_tree_locations rb)" by simp
  then show t: "avl_size (tentative_tree_locations rb) = Some 0"
    using avl_count_ok(2) [of loc_key "tentative_tree_locations rb"] assms(1) len by (simp add: settled_def)
  show c: "avl_size (committed_tree_locations rb) = Some (of_nat (length (chosen rb)))"
    using avl_count_ok(2) [of loc_key "committed_tree_locations rb"] assms(1) len by (simp add: settled_def)
  have "sint (mtu rb - of_nat (used rb)) = int (unat (mtu rb)) - int (used rb)"
    using sint_difference [of "unat (mtu rb)" "used rb"] assms(3,4) by simp
  moreover have "of_nat (used rb) = (61 + 24 * of_nat (length (chosen rb)) + dr_size (request_range rb) :: u32)"
    using len by (simp add: used_def)
  ultimately show "available rb = Some (int (unat (mtu rb)) - int (used rb))"
    by (simp add: available_def t c)
qed

abbreviation empty_builder :: "u32 \<Rightarrow> RequestBuilder" where
  "empty_builder m \<equiv> \<lparr>mtu = m, committed_tree_locations = AVLTree_new,
     tentative_tree_locations = AVLTree_new, request_range = DataRange_empty\<rparr>"

lemma empty_builder_ok:
  assumes "61 \<le> unat limit" "unat limit < 2 ^ 31"
  shows "round_ok f m (empty_builder limit)" "touches f m start (empty_builder limit)" "used (empty_builder limit) = 61"
proof -
  have e: "insertions AVLTree_new = 0" "deletions AVLTree_new = 0" by (simp_all add: AVLTree_new_def)
  show u: "used (empty_builder limit) = 61" by (simp add: used_def dr_size_def DataRange_empty_def)
  show "round_ok f m (empty_builder limit)"
    using assms u by (simp add: round_ok_def rb_ok_def range_ok_def proper_def dr_set_def DataRange_empty_def e)
  show "touches f m start (empty_builder limit)"
    by (simp add: touches_def is_empty_def DataRange_empty_def)
qed

lemma build_request_ok:
  assumes f: "tree_sized f" "missing_ok f m" "no_gap f m" and limit: "61 \<le> unat limit" "unat limit < 2 ^ 31"
  obtains rb where "RequestBuilder_new f m limit = Some rb" "mtu rb = limit" "finished f m (empty_builder limit) rb"
proof -
  note init = empty_builder_ok [OF limit]
  obtain rb where rb: "build_request_loop None 65537 f m (dr_start m) (empty_builder limit) = Some rb"
      "finished f m (empty_builder limit) rb"
    by (rule build_loop_ok [OF init(1,2) order_refl _ f, of 65537]) simp_all
  then have fin: "settled f rb" "unat (mtu rb) < 2 ^ 31" "used rb \<le> unat (mtu rb)" "mtu rb = limit"
    by (auto simp: finished_def)
  have "avl_size (AVLTree_new :: u32 avl_tree) = Some 0" by (simp add: avl_size_def AVLTree_new_def)
  moreover have "0 \<le> int (unat (mtu rb)) - int (used rb)" using fin(3) by linarith
  then obtain a where "available rb = Some a" "0 \<le> a"
    using settled_available(3) [OF fin(1) f(1) fin(2,3)] by blast
  ultimately have "RequestBuilder_new f m limit = Some rb"
    using rb(1) settled_available(1) [OF fin(1) f(1) fin(2,3)]
    by (simp add: RequestBuilder_new_def build_request_def)
  then show thesis using that rb(2) fin(4) by blast
qed

section \<open>The packet\<close>

lemma fold_set_location:
  "fst (fold (\<lambda>loc (obr, i). (obr \<bind> (\<lambda>obr. set_location obr i loc), i + 1)) ls (obr, i))
     = obr \<bind> (\<lambda>obr. fill_locations obr i ls)"
  by (induction ls arbitrary: obr i) (auto simp: bind_assoc split: Option.bind_splits)

lemma as_outbound_request_eq:
  assumes "settled f rb" "tree_sized f" "unat (mtu rb) < 2 ^ 31" "used rb \<le> unat (mtu rb)"
  shows "as_outbound_request f rb ctx =
    OutboundRequest_new ctx (file_hash f) None (of_nat (length (chosen rb))) 0 (request_range rb)
      \<bind> (\<lambda>obr. fill_locations obr 0 (chosen rb))"
proof -
  have inv: "avl_inv loc_key (committed_tree_locations rb)" using assms(1) by (simp add: settled_def)
  have "avl_foreach loc_key (\<lambda>loc (obr, i). (obr \<bind> (\<lambda>obr. set_location obr i loc), i + 1))
       (committed_tree_locations rb) (Some obr, 0) \<bind> (\<lambda>(obr, _). obr) = fill_locations obr 0 (chosen rb)" for obr
    using fold_set_location [of "chosen rb" "Some obr" 0] by (simp add: avl_iterate_eq [OF inv] case_prod_unfold)
  then show ?thesis using settled_available(2) [OF assms] by (simp add: as_outbound_request_def)
qed

lemma as_outbound_request_ok:
  assumes "settled f rb" "tree_sized f" "unat (mtu rb) < 2 ^ 31" "used rb \<le> unat (mtu rb)"
  obtains obr where "as_outbound_request f rb ctx = Some obr"
    "obr_locations obr = map (Some \<circ> z_htonl) (chosen rb)" "dbg_locations_remaining obr = 0"
    "obr_zrp obr = ZFTPRequestPacketInit 0 (file_hash f) (of_nat (length (chosen rb))) 0 ctx
       (dr_start (request_range rb)) (dr_end (request_range rb))" "obr_url_hint obr = []"
proof -
  have len: "length (chosen rb) < 2 ^ 32" using assms(1) tree_sized_nodes(2) [OF assms(2)] by (simp add: settled_def)
  define n :: u32 where "n = of_nat (length (chosen rb))"
  define obr where "obr = \<lparr>obr_zrp = ZFTPRequestPacketInit 0 (file_hash f) n 0 ctx
      (dr_start (request_range rb)) (dr_end (request_range rb)),
    obr_locations = replicate (unat n) None, obr_url_hint = [], dbg_locations_remaining = n,
    obr_len = of_nat sizeof_ZFTPRequestPacket + 4 * n\<rparr>"
  have new: "OutboundRequest_new ctx (file_hash f) None n 0 (request_range rb) = Some obr"
    by (simp add: OutboundRequest_new_def obr_def)
  have "unat n = length (chosen rb)" using len by (simp add: n_def unat_of_nat_u32)
  then have "fill_locations obr 0 (chosen rb)
      = Some (obr\<lparr>obr_locations := map (Some \<circ> z_htonl) (chosen rb), dbg_locations_remaining := 0\<rparr>)"
    using fill_locations_spec [of obr "[]" "chosen rb"] len by (simp add: obr_def n_def)
  then have "as_outbound_request f rb ctx
      = Some (obr\<lparr>obr_locations := map (Some \<circ> z_htonl) (chosen rb), dbg_locations_remaining := 0\<rparr>)"
    using as_outbound_request_eq [OF assms, of ctx] new by (simp add: n_def)
  then show thesis by (rule that) (simp_all add: obr_def n_def)
qed

lemma first_round_asks:
  assumes f: "tree_sized f" "missing_ok f m" "no_gap f m" and limit: "61 + 48 * tree_depth f < unat limit" "unat limit < 2 ^ 31"
    and first: "dr_start m < dr_end m" "leaf_known f (block_of (dr_start m))
      \<or> 0 < tree_depth f \<and> st f (pos (tree_depth f) (block_of (dr_start m))) = v_unknown"
  shows "\<exists>rb. build_request_loop None 65537 f m (dr_start m) (empty_builder limit) = Some rb \<and> asked rb"
proof -
  have n: "(65537::nat) = Suc 65536" by simp
  define e where "e = push_bit ZFTP_LG_BLOCK_SIZE (drop_bit ZFTP_LG_BLOCK_SIZE (dr_start m) + 1)"
  note nb = next_block [OF f(2) first(1), folded e_def]
  have "61 \<le> unat limit" using limit(1) by simp
  note init = empty_builder_ok [OF this limit(2)]
  show ?thesis
  proof (rule build_round [OF init(1,2) f order_refl first(1) _ e_def])
    show "used (empty_builder limit) < unat (mtu (empty_builder limit))" using init(3) limit(1) by simp
  next
    fix rb' assume "unat (mtu (empty_builder limit)) < used (empty_builder limit) + 48 * tree_depth f"
    then show ?thesis using init(3) limit(1) by simp
  next
    fix rb' assume step: "\<And>n. build_request_loop None (Suc n) f m (dr_start m) (empty_builder limit) = build_request_loop None n f m e rb'"
      and ok: "round_ok f m rb'" "touches f m e rb'"
      and asked: "used (empty_builder limit) + 48 * tree_depth f < unat (mtu (empty_builder limit))
        \<and> (leaf_known f (block_of (dr_start m))
            \<or> 0 < tree_depth f \<and> st f (pos (tree_depth f) (block_of (dr_start m))) = v_unknown) \<longrightarrow> asked rb'"
    have "dr_start m \<le> e" using nb(4) by (simp add: word_le_nat_alt)
    then obtain rb where "build_request_loop None 65536 f m e rb' = Some rb" "finished f m rb' rb"
      by (rule build_loop_ok [OF ok _ _ f, of 65536]) (use nb(5) in simp_all)
    moreover have "asked rb'" using asked init(3) limit(1) first(2) by simp
    ultimately show ?thesis unfolding n step by (auto simp: finished_def)
  qed
qed

lemma new_builder_loop:
  "RequestBuilder_new f m limit = Some rb
    \<Longrightarrow> build_request_loop None 65537 f m (dr_start m) (empty_builder limit) = Some rb"
  by (auto simp: RequestBuilder_new_def build_request_def Option.bind_eq_Some_conv)

section \<open>A gap among the known leaves\<close>

text \<open>With room for one more path of hashes a round gets as far as the data of its block.\<close>

lemma round_with_room:
  assumes ok: "round_ok f m rb" and f: "tree_sized f" "missing_ok f m" and start: "start < dr_end m"
    and room: "used rb + 48 * tree_depth f < unat (mtu rb)"
    and e: "e = push_bit ZFTP_LG_BLOCK_SIZE (drop_bit ZFTP_LG_BLOCK_SIZE start + 1)"
  obtains rb' where "\<And>unfinished n. build_request_loop unfinished (Suc n) f m start rb
      = request_block_data f m start e rb' \<bind> build_request_loop unfinished n f m e"
    "round_ok f m rb'" "request_range rb' = request_range rb" "mtu rb' = mtu rb" "used rb' \<le> used rb + 48 * tree_depth f"
proof -
  have ok': "rb_ok f rb" "unat (mtu rb) < 2 ^ 31" "pending rb = []" using ok by (auto simp: round_ok_def)
  obtain a where a: "available rb = Some a" "0 < a"
    using available_sign [OF ok'(1) f(1) ok'(2)] room by (auto simp: used_def)
  obtain rb1 b where rb1: "request_hash_ancestors f rb (drop_bit ZFTP_LG_BLOCK_SIZE start) = Some rb1"
      "asks_more f (2 * tree_depth f) rb rb1" "available rb1 = Some b" "b < 0 \<longleftrightarrow> unat (mtu rb) < used rb1"
    by (rule round_hashes [OF ok f start])
  have same: "rb_ok f rb1" "mtu rb1 = mtu rb" "request_range rb1 = request_range rb" "used rb1 \<le> used rb + 48 * tree_depth f"
    using rb1(2) ok'(3) by (auto simp: asks_more_def used_def)
  then have b: "\<not> b < 0" using rb1(4) room by simp
  obtain rb2 where rb2: "clear_tentative_locations COMMIT rb1 = Some rb2" "rb_ok f rb2"
      "pending rb2 = []" "set (chosen rb2) = set (chosen rb1) \<union> set (pending rb1)"
      "length (chosen rb2) = length (chosen rb1) + length (pending rb1)"
      "request_range rb2 = request_range rb1" "mtu rb2 = mtu rb1"
    by (rule clear_commit [OF same(1) f(1)])
  have u2: "used rb2 = used rb1" using rb2(3,5,6) by (simp add: used_def)
  have "build_request_loop unfinished (Suc n) f m start rb
      = request_block_data f m start e rb2 \<bind> build_request_loop unfinished n f m e" for unfinished n
    using start a rb1(1,3) b rb2(1) e by (simp add: Let_def)
  moreover have "round_ok f m rb2" using ok rb2 same u2 room by (simp add: round_ok_def)
  ultimately show thesis using that [of rb2] rb2(6,7) same u2 by simp
qed

text \<open>
  What leads to the assertion: block \<open>i\<close> is known and still to come or its bytes are in the range, and the range ends before
  block \<open>j\<close>, which is not known.
\<close>

definition gap_ahead :: "nat \<Rightarrow> nat \<Rightarrow> u32 \<Rightarrow> DataRange \<Rightarrow> bool" where
  "gap_ahead i j start r \<longleftrightarrow>
     (if is_empty r then block_of start \<le> i else dr_end r < start \<or> dr_end r = start \<and> block_of start \<le> j)"

lemma gap_round:
  assumes ok: "round_ok f m rb" and f: "tree_sized f" "missing_ok f m" and start: "dr_start m \<le> start" "start < dr_end m"
    and gap: "i < j" "leaf_known f i" "\<not> leaf_known f j" and ahead: "gap_ahead i j start (request_range rb)"
    and room: "used rb + 48 * tree_depth f * Suc c + (65536 * j - unat start) < unat (mtu rb)"
    and e: "e = push_bit ZFTP_LG_BLOCK_SIZE (drop_bit ZFTP_LG_BLOCK_SIZE start + 1)" and inside: "e \<le> dr_end m"
  obtains (stop) "\<And>unfinished n. build_request_loop unfinished (Suc n) f m start rb = None"
    | (move_on) rb' where "\<And>unfinished n. build_request_loop unfinished (Suc n) f m start rb = build_request_loop unfinished n f m e rb'"
      "round_ok f m rb'" "gap_ahead i j e (request_range rb')" "mtu rb' = mtu rb"
      "used rb' + 48 * tree_depth f * c + (65536 * j - unat e) < unat (mtu rb')"
proof -
  note nb = next_block [OF f(2) start(2), folded e]
  let ?b = "block_of start"
  have "used rb + 48 * tree_depth f < unat (mtu rb)" using room by simp
  then obtain rb1 where rb1: "\<And>unfinished n. build_request_loop unfinished (Suc n) f m start rb
      = request_block_data f m start e rb1 \<bind> build_request_loop unfinished n f m e"
    "round_ok f m rb1" "request_range rb1 = request_range rb" "mtu rb1 = mtu rb" "used rb1 \<le> used rb + 48 * tree_depth f"
    using round_with_room [OF ok f start(2) _ e] by blast
  have room1: "used rb1 + 48 * tree_depth f * c + (65536 * j - unat start) < unat (mtu rb1)" using room rb1(4,5) by simp
  show thesis
  proof (cases "leaf_known f ?b \<and> \<not> is_empty (request_range rb) \<and> dr_end (request_range rb) < start")
    case True
    have "request_block_data f m start e rb1 = None"
      by (rule request_data_gap [OF rb1(2) f start(2) _ _ _ _ e]) (use True rb1(3) room1 in simp_all)
    then show thesis using rb1(1) by (intro stop) simp
  next
    case False
    then have touch: "is_empty (request_range rb1) \<or> dr_end (request_range rb1) = start" and j: "?b < j" if "leaf_known f ?b"
      using that ahead gap rb1(3) by (auto simp: gap_ahead_def order.strict_iff_order split: if_splits)
    obtain rb2 where rb2: "request_block_data f m start e rb1 = Some rb2" "round_ok f m rb2" "mtu rb2 = mtu rb1"
        "chosen rb2 = chosen rb1" "\<not> leaf_known f ?b \<longrightarrow> request_range rb2 = request_range rb1"
        and data: "leaf_known f ?b \<longrightarrow> used rb1 < unat (mtu rb1) \<longrightarrow> \<not> is_empty (request_range rb2)"
        "leaf_known f ?b \<longrightarrow> used rb2 = unat (mtu rb2) \<or> is_empty (request_range rb2)
           \<or> dr_end (request_range rb2) = min e (dr_end m)"
        "used rb2 \<le> used rb1 + (unat e - unat start)"
      using request_data_ok [OF rb1(2) f start, folded e] touch by metis
    have more: "gap_ahead i j e (request_range rb2)
        \<and> used rb2 + 48 * tree_depth f * c + (65536 * j - unat e) < unat (mtu rb2)"
    proof (cases "leaf_known f ?b")
      case True
      have ej: "unat e \<le> 65536 * j" using nb(1) j [OF True] by simp
      then have "used rb2 < unat (mtu rb2)" "used rb2 + 48 * tree_depth f * c + (65536 * j - unat e) < unat (mtu rb2)"
        using data(3) room1 nb(4) rb2(3) by simp_all
      moreover have "\<not> is_empty (request_range rb2)" using data(1) True room1 by simp
      ultimately show ?thesis using data(2) True inside nb(5) j [OF True] by (auto simp: gap_ahead_def min_def)
    next
      case False
      then have "used rb2 = used rb1" using rb2(2,4,5) rb1(2) by (simp add: used_def round_ok_def)
      moreover have "start < e" using nb(4) by (simp add: word_less_nat_alt)
      moreover have "?b \<noteq> i" using False gap(2) by auto
      ultimately show ?thesis
        using rb2(3,5) False room1 ahead nb(4,5) rb1(3) by (auto simp: gap_ahead_def split: if_splits)
    qed
    show thesis by (rule move_on [of rb2]) (use rb1(1,4) rb2(1-3) more in simp_all)
  qed
qed

lemma gap_loop:
  assumes f: "tree_sized f" "missing_ok f m" and gap: "i < j" "j < k" "leaf_known f i" "\<not> leaf_known f j" "leaf_known f k"
    and inside: "65536 * k < unat (dr_end m)"
  shows "round_ok f m rb \<Longrightarrow> dr_start m \<le> start \<Longrightarrow> block_of start \<le> k \<Longrightarrow> start < dr_end m
    \<Longrightarrow> gap_ahead i j start (request_range rb) \<Longrightarrow> c = k - block_of start
    \<Longrightarrow> used rb + 48 * tree_depth f * Suc c + (65536 * j - unat start) < unat (mtu rb)
    \<Longrightarrow> build_request_loop unfinished (Suc (c + n)) f m start rb = None"
proof (induction c arbitrary: start rb)
  case 0
  define e where "e = push_bit ZFTP_LG_BLOCK_SIZE (drop_bit ZFTP_LG_BLOCK_SIZE start + 1)"
  have b: "block_of start = k" using "0.prems"(3,6) by simp
  have "used rb + 48 * tree_depth f < unat (mtu rb)" using "0.prems"(7) by simp
  then obtain rb1 where rb1: "\<And>unfinished n. build_request_loop unfinished (Suc n) f m start rb
      = request_block_data f m start e rb1 \<bind> build_request_loop unfinished n f m e"
    "round_ok f m rb1" "request_range rb1 = request_range rb" "mtu rb1 = mtu rb" "used rb1 \<le> used rb + 48 * tree_depth f"
    using round_with_room [OF "0.prems"(1) f "0.prems"(4) _ e_def] by blast
  have "\<not> is_empty (request_range rb)" "dr_end (request_range rb) < start"
    using "0.prems"(5) b gap(1,2) by (auto simp: gap_ahead_def split: if_splits)
  then have "request_block_data f m start e rb1 = None"
    by (intro request_data_gap [OF rb1(2) f "0.prems"(4) _ _ _ _ e_def]) (use b gap(5) rb1 "0.prems"(7) in simp_all)
  then show ?case using rb1(1) by simp
next
  case (Suc c)
  define e where "e = push_bit ZFTP_LG_BLOCK_SIZE (drop_bit ZFTP_LG_BLOCK_SIZE start + 1)"
  note nb = next_block [OF f(2) Suc.prems(4), folded e_def]
  have b: "block_of start < k" using Suc.prems(6) by simp
  then have e: "unat e \<le> 65536 * k" using nb(1) by simp
  then have below: "e < dr_end m" using inside by (simp add: word_less_nat_alt)
  show ?case
  proof (rule gap_round [OF Suc.prems(1) f Suc.prems(2,4) gap(1,3,4) Suc.prems(5,7) e_def])
    show "e \<le> dr_end m" using below by simp
  next
    assume "\<And>unfinished n. build_request_loop unfinished (Suc n) f m start rb = None"
    then show ?thesis .
  next
    fix rb' assume step: "\<And>unfinished n. build_request_loop unfinished (Suc n) f m start rb = build_request_loop unfinished n f m e rb'"
      and r: "round_ok f m rb'" "gap_ahead i j e (request_range rb')" "mtu rb' = mtu rb"
      "used rb' + 48 * tree_depth f * Suc c + (65536 * j - unat e) < unat (mtu rb')"
    have "build_request_loop unfinished (Suc (c + n)) f m e rb' = None"
    proof (rule Suc.IH [OF r(1) _ _ below r(2) _ r(4)])
      show "dr_start m \<le> e" using Suc.prems(2) nb(4) by (simp add: word_le_nat_alt)
    qed (use nb(5) b Suc.prems(6) in simp_all)
    then show ?thesis using step by simp
  qed
qed

text \<open>A file of eight blocks with a gap: the leaves of blocks 0, 1, 4 and 5 are known.\<close>

definition gap_file :: ZCachedFile where
  "gap_file = (ZCachedFile_new 0)\<lparr>metadata_state := v_validated, file_len := 524288, num_blocks := 8,
     tree_depth := 3, tree_size := 15,
     tree := map (\<lambda>n. \<lparr>vmr_hash = 0, vmr_state = (if n \<in> set [9, 10, 13, 14] then v_unknown else v_validated)\<rparr>) [0..<15]\<rparr>"

definition gap_missing :: DataRange where
  "gap_missing = DataRange_of 125536 327680"

lemma gap_file_facts:
  "tree_sized gap_file" "missing_ok gap_file gap_missing" "missing_ok gap_file (DataRange_of 0 131072)"
  "no_gap gap_file (DataRange_of 0 131072)" "leaf_known gap_file 0" "tree_depth gap_file = 3"
proof -
  show "tree_sized gap_file" by (simp add: tree_sized_def gap_file_def compute_tree_size_def)
  show "missing_ok gap_file gap_missing" "missing_ok gap_file (DataRange_of 0 131072)"
    by (simp_all add: missing_ok_def gap_file_def gap_missing_def DataRange_of_def)
  show "no_gap gap_file (DataRange_of 0 131072)" by (auto simp: no_gap_def DataRange_of_def)
  show "leaf_known gap_file 0" by (simp add: leaf_known_def gap_file_def pos_def upt_rec)
  show "tree_depth gap_file = 3" by (simp add: gap_file_def)
qed

section \<open>Properties\<close>

text \<open>
  C10: When the known leaves among the missing blocks are next to each other, building a request
  never trips an assertion, for any packet limit from the size of a reply header up to
  \<open>2 ^ 31 - 1\<close>: it asks only for hashes that are unknown and only for missing bytes of blocks whose
  leaf hash is validated, the request packet carries exactly these, and the header, records and data
  of the reply together fit into the limit.
\<close>

theorem request_fits_packet:
  assumes "tree_sized f" "missing_ok f m" "no_gap f m" "61 \<le> unat limit" "unat limit < 2 ^ 31"
  shows "\<exists>rb obr. RequestBuilder_new f m limit = Some rb \<and> as_outbound_request f rb ctx = Some obr
    \<and> obr_locations obr = map (Some \<circ> z_htonl) (chosen rb) \<and> dbg_locations_remaining obr = 0
    \<and> (\<forall>loc \<in> set (chosen rb). unat loc < nodes f \<and> st f (unat loc) = v_unknown)
    \<and> (\<forall>x \<in> dr_set (request_range rb). x \<in> dr_set m \<and> leaf_known f (block_of x))
    \<and> 61 + 24 * length (chosen rb) + unat (dr_size (request_range rb)) \<le> unat limit"
proof -
  obtain rb where rb: "RequestBuilder_new f m limit = Some rb" "mtu rb = limit" "finished f m (empty_builder limit) rb"
    by (rule build_request_ok [OF assms])
  then have fin: "settled f rb" "unat (mtu rb) < 2 ^ 31" "used rb \<le> unat (mtu rb)"
    by (auto simp: finished_def)
  obtain obr where "as_outbound_request f rb ctx = Some obr"
      "obr_locations obr = map (Some \<circ> z_htonl) (chosen rb)" "dbg_locations_remaining obr = 0"
    by (rule as_outbound_request_ok [OF fin(1) assms(1) fin(2,3)])
  with rb fin show ?thesis
    by (intro exI [of _ rb] exI [of _ obr]) (auto simp: finished_def settled_def range_ok_def used_def)
qed

theorem request_fits_packet_witness:
  "\<exists>rb obr. RequestBuilder_new gap_file (DataRange_of 0 131072) 65400 = Some rb
     \<and> as_outbound_request gap_file rb \<lparr>state_id = 0, seq_id = 0\<rparr> = Some obr
     \<and> 61 + 24 * length (chosen rb) + unat (dr_size (request_range rb)) \<le> 65400"
  using request_fits_packet [of gap_file "DataRange_of 0 131072" 65400 "\<lparr>state_id = 0, seq_id = 0\<rparr>"] gap_file_facts
  by auto

text \<open>
  C18: When a request asks for something. Let the missing range be nonempty, lie within the blocks of the tree and
  below the very last block of the address space, and have no gap among its known leaves; let the first missing
  block have a leaf that is validated, or unknown in a tree of more than one node; and let the packet limit, below
  \<open>2 ^ 31\<close>, exceed the reply header and one path of sibling hashes, 61 + 48 * depth bytes. Then the builder returns a
  request with at least one hash or at least one byte.
\<close>

theorem request_makes_progress:
  assumes "tree_sized f" "missing_ok f m" "no_gap f m" "61 + 48 * tree_depth f < unat limit" "unat limit < 2 ^ 31"
    and "dr_start m < dr_end m" "leaf_known f (block_of (dr_start m))
      \<or> 0 < tree_depth f \<and> st f (pos (tree_depth f) (block_of (dr_start m))) = v_unknown"
  shows "\<exists>rb. RequestBuilder_new f m limit = Some rb \<and> (chosen rb \<noteq> [] \<or> requested_any_data rb)"
proof -
  have "61 \<le> unat limit" using assms(4) by simp
  then obtain rb where rb: "RequestBuilder_new f m limit = Some rb"
    by (rule build_request_ok [OF assms(1-3) _ assms(5)])
  then have "asked rb" using first_round_asks [OF assms] new_builder_loop by fastforce
  moreover have "\<not> is_empty r \<Longrightarrow> 0 < dr_size r" for r
    by (auto simp: is_empty_def dr_size_def word_neq_0_conv [symmetric])
  ultimately show ?thesis using rb by (auto simp: asked_def requested_any_data_def)
qed

theorem request_makes_progress_witness:
  "\<exists>rb. RequestBuilder_new gap_file (DataRange_of 0 131072) 65400 = Some rb \<and> (chosen rb \<noteq> [] \<or> requested_any_data rb)"
  using request_makes_progress [of gap_file "DataRange_of 0 131072" 65400] gap_file_facts
  by (simp add: DataRange_of_def)

text \<open>
  C36: A gap stops the builder. Let the leaves of blocks \<open>i\<close> and \<open>k\<close> among the missing ones be known and that of a
  block \<open>j\<close> between them not, and let the packet have room for a path of hashes for every block up to \<open>k\<close> and
  for the missing bytes before block \<open>j\<close>. Then the builder does not give up at its limit before it reaches block \<open>k\<close>: it fails
  to add a block to a range that does not touch it and stops on the assertion, whatever stands for unfinished rounds.
\<close>

theorem request_gap_asserts:
  assumes "tree_sized f" "missing_ok f m" "block_of (dr_start m) \<le> i" "i < j" "j < k" "65536 * k < unat (dr_end m)"
    and "leaf_known f i" "\<not> leaf_known f j" "leaf_known f k" "unat limit < 2 ^ 31"
    and "61 + 48 * tree_depth f * (k + 1 - block_of (dr_start m)) + (65536 * j - unat (dr_start m)) < unat limit"
  shows "RequestBuilder_new f m limit = None
    \<and> build_request_loop unfinished 65537 f m (dr_start m)
        \<lparr>mtu = limit, committed_tree_locations = AVLTree_new, tentative_tree_locations = AVLTree_new,
         request_range = DataRange_empty\<rparr> = None"
proof -
  let ?b = "block_of (dr_start m)"
  have lim: "61 \<le> unat limit" using assms(11) by simp
  note init = empty_builder_ok [OF lim assms(10)]
  have "65536 * ?b \<le> 65536 * i" using assms(3) by simp
  then have start: "dr_start m < dr_end m"
    using assms(4-6) next_block_above [of "dr_start m"] assms(3) by (simp add: word_less_nat_alt)
  have "gap_ahead i j (dr_start m) DataRange_empty"
    using assms(3) by (simp add: gap_ahead_def is_empty_def DataRange_empty_def)
  then have "build_request_loop unfinished (Suc (k - ?b + (65536 - (k - ?b)))) f m (dr_start m) (empty_builder limit) = None"
    for unfinished
    by (intro gap_loop [OF assms(1,2,4,5,7,8,9,6) init(1)]) (use init(3) start assms in \<open>simp_all add: Suc_diff_le\<close>)
  moreover have "k < 65535" using assms(2,6) unfolding missing_ok_def by linarith
  then have "Suc (k - ?b + (65536 - (k - ?b))) = 65537" by linarith
  ultimately have none: "build_request_loop unfinished 65537 f m (dr_start m) (empty_builder limit) = None" for unfinished
    by metis
  then have "RequestBuilder_new f m limit = None"
    by (simp add: RequestBuilder_new_def build_request_def Option.bind_eq_None_conv)
  then show ?thesis using none by blast
qed

theorem request_gap_asserts_witness:
  "RequestBuilder_new gap_file (DataRange_of 125536 327680) 65400 = None"
proof -
  have "leaf_known gap_file 1" "\<not> leaf_known gap_file 2" "leaf_known gap_file 4"
    by (simp_all add: leaf_known_def gap_file_def pos_def upt_rec)
  then show ?thesis
    using request_gap_asserts [of gap_file "DataRange_of 125536 327680" 1 2 4 65400] gap_file_facts
    by (simp add: gap_missing_def DataRange_of_def block_of_eq)
qed

end
