(* ===== verification/File_Store.thy ===== *)
theory File_Store
  imports Merkle_Trust
begin

text \<open>
  The persistent form of cached files and names: the datum that values are marshalled through
  (\<^verbatim>\<open>common/zftp_module/ZDBDatum.cpp\<close>), the file store (\<^verbatim>\<open>ZFileDB.cpp\<close> with \<^verbatim>\<open>ZCachedFile::marshal\<close> and
  the constructor that loads from disk) and the name records (\<^verbatim>\<open>ZNameRecord.cpp\<close>, \<^verbatim>\<open>FreshnessSeal.cpp\<close>).

  A datum is a buffer, or no buffer while the size of a value is counted, and a position in it.  A
  write or read past the end of the buffer is \<^const>\<open>None\<close>.  The contents of freshly allocated memory and the
  Berkeley database under \<^verbatim>\<open>ZDB\<close> are arguments.  The memory image of a tree node is its location, its
  hash and its state; an image whose location is not its index, or whose state is no
  \<^verbatim>\<open>ValidityState\<close>, has no counterpart in the model and is \<^const>\<open>None\<close>.
\<close>

section \<open>Definitions\<close>

subsection \<open>The datum\<close>

record ZDBDatum =
  dbt_data :: "bytes option"
  marshal_ptr :: nat

definition ZDBDatum_of :: "bytes \<Rightarrow> ZDBDatum" where
  "ZDBDatum_of data = \<lparr>dbt_data = Some data, marshal_ptr = 0\<rparr>"

definition ZDBDatum_hash :: "hash_t \<Rightarrow> ZDBDatum" where
  "ZDBDatum_hash h = \<lparr>dbt_data = Some (hash_bytes h), marshal_ptr = 0\<rparr>"

definition ZDBDatum_count :: ZDBDatum where
  "ZDBDatum_count = \<lparr>dbt_data = None, marshal_ptr = 0\<rparr>"

definition init_alloc :: "(nat \<Rightarrow> bytes) \<Rightarrow> nat \<Rightarrow> ZDBDatum" where
  "init_alloc fresh len = \<lparr>dbt_data = Some (fresh len), marshal_ptr = 0\<rparr>"

definition datum_alloc :: "(nat \<Rightarrow> bytes) \<Rightarrow> ZDBDatum \<Rightarrow> ZDBDatum" where
  "datum_alloc fresh d = init_alloc fresh (marshal_ptr d)"

definition assert_no_overrun :: "ZDBDatum \<Rightarrow> unit option" where
  "assert_no_overrun d = lite_assert (case dbt_data d of None \<Rightarrow> True | Some b \<Rightarrow> marshal_ptr d \<le> length b)"

text \<open>Storing bytes at \<^verbatim>\<open>marshal_ptr\<close> when there is a buffer, and stepping over them.\<close>

definition put_bytes :: "ZDBDatum \<Rightarrow> bytes \<Rightarrow> ZDBDatum option" where
  "put_bytes d bs =
     (case dbt_data d of
        None \<Rightarrow> Some (d\<lparr>marshal_ptr := marshal_ptr d + length bs\<rparr>)
      | Some b \<Rightarrow>
          if marshal_ptr d + length bs \<le> length b
          then Some \<lparr>dbt_data = Some (take (marshal_ptr d) b @ bs @ drop (marshal_ptr d + length bs) b),
                     marshal_ptr = marshal_ptr d + length bs\<rparr>
          else None)"

definition get_bytes :: "ZDBDatum \<Rightarrow> nat \<Rightarrow> (bytes \<times> ZDBDatum) option" where
  "get_bytes d n =
     (case dbt_data d of
        None \<Rightarrow> None
      | Some b \<Rightarrow>
          if marshal_ptr d + n \<le> length b
          then Some (take n (drop (marshal_ptr d) b), d\<lparr>marshal_ptr := marshal_ptr d + n\<rparr>)
          else None)"

definition write_buf :: "ZDBDatum \<Rightarrow> bytes \<Rightarrow> ZDBDatum option" where
  "write_buf d buf = do {
     d \<leftarrow> put_bytes d (le_bytes 4 (of_nat (length buf) :: u32));
     d \<leftarrow> put_bytes d buf;
     assert_no_overrun d;
     Some d }"

definition write_str :: "ZDBDatum \<Rightarrow> bytes \<Rightarrow> ZDBDatum option" where
  "write_str d str = do {
     n \<leftarrow> lite_strlen str;
     write_buf d (take (n + 1) str) }"

definition write_uint32 :: "ZDBDatum \<Rightarrow> u32 \<Rightarrow> ZDBDatum option" where
  "write_uint32 d value = do {
     d \<leftarrow> put_bytes d (le_bytes 4 value);
     assert_no_overrun d;
     Some d }"

definition read_hash :: "ZDBDatum \<Rightarrow> (hash_t \<times> ZDBDatum) option" where
  "read_hash d = do {
     (bs, d) \<leftarrow> get_bytes d HASH_SIZE;
     assert_no_overrun d;
     Some (of_le_bytes bs, d) }"

definition read_uint32 :: "ZDBDatum \<Rightarrow> (u32 \<times> ZDBDatum) option" where
  "read_uint32 d = do {
     (bs, d) \<leftarrow> get_bytes d 4;
     assert_no_overrun d;
     Some (of_le_bytes bs, d) }"

definition read_buf :: "ZDBDatum \<Rightarrow> nat \<Rightarrow> (bytes \<times> ZDBDatum) option" where
  "read_buf d capacity = do {
     (len_bytes, d) \<leftarrow> get_bytes d 4;
     let out_len = (of_le_bytes len_bytes :: u32);
     lite_assert (unat out_len \<le> capacity);
     (bs, d) \<leftarrow> get_bytes d (unat out_len);
     assert_no_overrun d;
     Some (bs, d) }"

definition read_raw :: "ZDBDatum \<Rightarrow> nat \<Rightarrow> (bytes \<times> ZDBDatum) option" where
  "read_raw d capacity = do {
     (bs, d) \<leftarrow> get_bytes d capacity;
     assert_no_overrun d;
     Some (bs, d) }"

definition read_str :: "ZDBDatum \<Rightarrow> (bytes \<times> ZDBDatum) option" where
  "read_str d = do {
     (obj_len, d) \<leftarrow> read_uint32 d;
     (bs, d) \<leftarrow> get_bytes d (unat obj_len);
     assert_no_overrun d;
     lite_assert (bs \<noteq> [] \<and> last bs = 0);
     Some (bs, d) }"

definition ZDBDatum_str :: "(nat \<Rightarrow> bytes) \<Rightarrow> bytes \<Rightarrow> ZDBDatum option" where
  "ZDBDatum_str fresh str = do {
     n \<leftarrow> lite_strlen str;
     write_str (init_alloc fresh (4 + n + 1)) str }"

subsection \<open>Files\<close>

definition vmr_bytes :: "nat \<Rightarrow> ValidatedMerkleRecord \<Rightarrow> bytes" where
  "vmr_bytes i vmr = le_bytes 4 (of_nat i :: u32) @ hash_bytes (vmr_hash vmr)
     @ le_bytes 4 (of_nat (validity_rank (vmr_state vmr)) :: u32)"

primrec tree_bytes_from :: "nat \<Rightarrow> ValidatedMerkleRecord list \<Rightarrow> bytes" where
  "tree_bytes_from i [] = []"
| "tree_bytes_from i (v # vs) = vmr_bytes i v @ tree_bytes_from (Suc i) vs"

definition state_of :: "u32 \<Rightarrow> ValidityState option" where
  "state_of n = (if n = 0 then Some v_unknown else if n = 1 then Some v_tentative
     else if n = 2 then Some v_validated else if n = 3 then Some v_margin else None)"

fun tree_of_bytes :: "nat \<Rightarrow> nat \<Rightarrow> bytes \<Rightarrow> ValidatedMerkleRecord list option" where
  "tree_of_bytes i 0 bs = Some []"
| "tree_of_bytes i (Suc n) bs = do {
     lite_assert (28 \<le> length bs \<and> field 0 4 bs = (of_nat i :: u32));
     s \<leftarrow> state_of (field 24 4 bs);
     vs \<leftarrow> tree_of_bytes (Suc i) n (drop 28 bs);
     Some (\<lparr>vmr_hash = field 4 20 bs, vmr_state = s\<rparr> # vs) }"

definition zcf_marshal :: "ZCachedFile \<Rightarrow> ZDBDatum \<Rightarrow> ZDBDatum option" where
  "zcf_marshal f v = do {
     lite_assert (metadata_state f = v_validated);
     v \<leftarrow> write_buf v (hash_bytes (file_hash f));
     v \<leftarrow> write_buf v (metadata_bytes (metadata f));
     write_buf v (take (28 * unat (tree_size f)) (tree_bytes_from 0 (tree f))) }"

text \<open>The buffer \<^verbatim>\<open>read_buf\<close> fills keeps what lies behind the bytes that were read.\<close>

definition zcf_unmarshal :: "ZDBDatum \<Rightarrow> ZCachedFile option" where
  "zcf_unmarshal v = do {
     (h, v) \<leftarrow> read_buf v HASH_SIZE;
     lite_assert (length h = HASH_SIZE);
     (m, v) \<leftarrow> read_buf v 8;
     lite_assert (length m = 8);
     let f = configure_from_metadata ((ZCachedFile_new (of_le_bytes h))\<lparr>metadata := metadata_of m\<rparr>);
     (t, v) \<leftarrow> read_buf v (28 * unat (tree_size f));
     vs \<leftarrow> tree_of_bytes 0 (unat (tree_size f)) (t @ drop (length t) (tree_bytes_from 0 (tree f)));
     Some (f\<lparr>tree := vs, status := zcs_clean\<rparr>) }"

definition zfile_db_insert ::
    "'d zenv \<Rightarrow> (nat \<Rightarrow> bytes) \<Rightarrow> 'd \<Rightarrow> ZCachedFile \<Rightarrow> 'd option" where
  "zfile_db_insert env fresh zdb f = do {
     count \<leftarrow> zcf_marshal f ZDBDatum_count;
     v \<leftarrow> zcf_marshal f (datum_alloc fresh count);
     data \<leftarrow> dbt_data v;
     Some (db_insert env zdb (file_hash f) data) }"

definition zfile_db_lookup :: "'d zenv \<Rightarrow> 'd \<Rightarrow> hash_t \<Rightarrow> ZCachedFile option option" where
  "zfile_db_lookup env zdb h =
     (case db_lookup env zdb h of
        None \<Rightarrow> Some None
      | Some v \<Rightarrow> map_option Some (zcf_unmarshal (ZDBDatum_of v)))"

definition store_file ::
    "'d zenv \<Rightarrow> (nat \<Rightarrow> bytes) \<Rightarrow> 'd option \<Rightarrow> ZCachedFile \<Rightarrow> 'd option option" where
  "store_file env fresh zfileDB f =
     (case zfileDB of None \<Rightarrow> Some None | Some db \<Rightarrow> map_option Some (zfile_db_insert env fresh db f))"

definition retrieve_file :: "'d zenv \<Rightarrow> 'd option \<Rightarrow> hash_t \<Rightarrow> ZCachedFile option option" where
  "retrieve_file env zfileDB h =
     (case zfileDB of None \<Rightarrow> Some None | Some db \<Rightarrow> zfile_db_lookup env db h)"

subsection \<open>Names\<close>

text \<open>
  An origin is its class name, under which \<^verbatim>\<open>lookup_origin\<close> finds it. The time in a seal has 32 bits, as on the
  i386 targets.
\<close>

record ZNameRecord =
  znr_origin :: "bytes option"
  znr_file_hash :: hash_t
  znr_seal :: u32

definition seal_valid :: "u32 \<Rightarrow> bool" where
  "seal_valid mtime \<longleftrightarrow> mtime \<noteq> 0"

definition seal_cmp :: "u32 \<Rightarrow> u32 \<Rightarrow> int option" where
  "seal_cmp mtime other = do {
     lite_assert (seal_valid mtime);
     lite_assert (seal_valid other);
     Some (sint (mtime - other)) }"

definition znr_marshal_into :: "ZNameRecord \<Rightarrow> ZDBDatum \<Rightarrow> ZDBDatum option" where
  "znr_marshal_into znr zd = do {
     name \<leftarrow> znr_origin znr;
     zd \<leftarrow> write_str zd name;
     zd \<leftarrow> write_buf zd (hash_bytes (znr_file_hash znr));
     write_buf zd (le_bytes 4 (znr_seal znr)) }"

definition znr_marshal :: "(nat \<Rightarrow> bytes) \<Rightarrow> ZNameRecord \<Rightarrow> ZDBDatum option" where
  "znr_marshal fresh znr = do {
     count \<leftarrow> znr_marshal_into znr ZDBDatum_count;
     znr_marshal_into znr (datum_alloc fresh count) }"

definition znr_unmarshal :: "bytes list \<Rightarrow> ZDBDatum \<Rightarrow> ZNameRecord option" where
  "znr_unmarshal origins zd = do {
     (name, zd) \<leftarrow> read_str zd;
     (h, zd) \<leftarrow> read_buf zd HASH_SIZE;
     lite_assert (length h = HASH_SIZE);
     (s, zd) \<leftarrow> read_buf zd 4;
     lite_assert (length s = 4);
     Some \<lparr>znr_origin = List.find (\<lambda>origin. lite_strcmp origin name = Some 0) origins,
           znr_file_hash = of_le_bytes h, znr_seal = of_le_bytes s\<rparr> }"

text \<open>The database of names is keyed by the datum of the URL; its two operations are arguments.\<close>

definition zname_db_insert ::
    "('n \<Rightarrow> bytes \<Rightarrow> bytes \<Rightarrow> 'n) \<Rightarrow> (nat \<Rightarrow> bytes) \<Rightarrow> 'n \<Rightarrow> bytes \<Rightarrow> ZNameRecord \<Rightarrow> 'n option" where
  "zname_db_insert ndb_insert fresh zdb url znr = do {
     k \<leftarrow> ZDBDatum_str fresh url;
     v \<leftarrow> znr_marshal fresh znr;
     key \<leftarrow> dbt_data k;
     data \<leftarrow> dbt_data v;
     Some (ndb_insert zdb key data) }"

definition zname_db_lookup ::
    "('n \<Rightarrow> bytes \<Rightarrow> bytes option) \<Rightarrow> bytes list \<Rightarrow> (nat \<Rightarrow> bytes) \<Rightarrow> 'n \<Rightarrow> bytes \<Rightarrow> ZNameRecord option option" where
  "zname_db_lookup lookup origins fresh zdb url = do {
     k \<leftarrow> ZDBDatum_str fresh url;
     key \<leftarrow> dbt_data k;
     (case lookup zdb key of
        None \<Rightarrow> Some None
      | Some v \<Rightarrow> map_option Some (znr_unmarshal origins (ZDBDatum_of v))) }"

section \<open>Writing and reading\<close>

definition buf_image :: "bytes \<Rightarrow> bytes" where
  "buf_image b = le_bytes 4 (of_nat (length b) :: u32) @ b"

definition datum_at :: "bytes \<Rightarrow> bytes \<Rightarrow> ZDBDatum" where
  "datum_at pre rest = \<lparr>dbt_data = Some (pre @ rest), marshal_ptr = length pre\<rparr>"

lemma length_buf_image [simp]: "length (buf_image b) = 4 + length b"
  by (simp add: buf_image_def)

lemma put_bytes_append: "(put_bytes d xs \<bind> (\<lambda>d. put_bytes d ys)) = put_bytes d (xs @ ys)"
  by (cases "dbt_data d"; cases xs) (auto simp: put_bytes_def min_def ac_simps)

lemma put_bytes_no_overrun: "put_bytes d xs = Some d' \<Longrightarrow> assert_no_overrun d' = Some ()"
  by (auto simp: put_bytes_def assert_no_overrun_def split: option.splits if_splits)

lemma write_buf_put: "write_buf d b = put_bytes d (buf_image b)"
proof -
  have "(put_bytes d (le_bytes 4 (of_nat (length b) :: u32)) \<bind> (\<lambda>d. put_bytes d b)) = put_bytes d (buf_image b)"
    by (simp add: put_bytes_append buf_image_def)
  then show ?thesis
    unfolding write_buf_def
    by (cases "put_bytes d (buf_image b)")
       (auto simp: put_bytes_no_overrun split: bind_splits)
qed

lemma write_bufs_put:
  "(write_buf d a \<bind> (\<lambda>d. write_buf d b \<bind> (\<lambda>d. write_buf d c)))
     = put_bytes d (buf_image a @ buf_image b @ buf_image c)"
proof -
  have "(write_buf d a \<bind> (\<lambda>d. write_buf d b \<bind> (\<lambda>d. write_buf d c)))
      = ((put_bytes d (buf_image a) \<bind> (\<lambda>d. put_bytes d (buf_image b))) \<bind> (\<lambda>d. put_bytes d (buf_image c)))"
    by (simp add: write_buf_put)
  then show ?thesis unfolding put_bytes_append by simp
qed

lemma put_bytes_count: "put_bytes ZDBDatum_count xs = Some \<lparr>dbt_data = None, marshal_ptr = length xs\<rparr>"
  by (simp add: put_bytes_def ZDBDatum_count_def)

lemma put_bytes_exact:
  assumes "length (fresh (length xs)) = length xs"
  shows "put_bytes (datum_alloc fresh \<lparr>dbt_data = None, marshal_ptr = length xs\<rparr>) xs
    = Some \<lparr>dbt_data = Some xs, marshal_ptr = length xs\<rparr>"
  using assms by (simp add: put_bytes_def datum_alloc_def init_alloc_def)

lemma get_bytes_at: "length b = n \<Longrightarrow> get_bytes (datum_at pre (b @ rest)) n = Some (b, datum_at (pre @ b) rest)"
  by (auto simp: get_bytes_def datum_at_def)

lemma datum_at_no_overrun [simp]: "assert_no_overrun (datum_at pre rest) = Some ()"
  by (simp add: assert_no_overrun_def datum_at_def)

lemma unat_of_length: "length b < 2 ^ 32 \<Longrightarrow> unat (of_nat (length b) :: u32) = length b"
  by (simp add: unat_of_nat take_bit_nat_eq_self)

lemma read_buf_at:
  assumes "length b < 2 ^ 32" and "length b \<le> capacity"
  shows "read_buf (datum_at pre (buf_image b @ rest)) capacity = Some (b, datum_at (pre @ buf_image b) rest)"
  using assms
  by (simp add: read_buf_def buf_image_def get_bytes_at of_le_le_bytes unat_of_length)

lemma read_buf_last:
  assumes "length b < 2 ^ 32" and "length b \<le> capacity"
  shows "read_buf (datum_at pre (buf_image b)) capacity = Some (b, datum_at (pre @ buf_image b) [])"
  using read_buf_at [OF assms, of pre "[]"] by simp

lemma read_str_at:
  assumes "length s + 1 < 2 ^ 32"
  shows "read_str (datum_at pre (buf_image (s @ [0]) @ rest)) = Some (s @ [0], datum_at (pre @ buf_image (s @ [0])) rest)"
proof -
  have "get_bytes (datum_at pre (buf_image (s @ [0]) @ rest)) 4
      = Some (le_bytes 4 (of_nat (length (s @ [0])) :: u32),
              datum_at (pre @ le_bytes 4 (of_nat (length (s @ [0])) :: u32)) ((s @ [0]) @ rest))"
    using get_bytes_at [of "le_bytes 4 (of_nat (length (s @ [0])) :: u32)" 4 pre "(s @ [0]) @ rest"]
    by (simp add: buf_image_def)
  moreover have "unat (of_nat (length (s @ [0])) :: u32) = length (s @ [0])"
    using assms unat_of_length [of "s @ [0]"] by simp
  ultimately show ?thesis
    by (simp add: read_str_def read_uint32_def of_le_le_bytes get_bytes_at buf_image_def del: length_append append_assoc)
       (simp add: )
qed

section \<open>Files\<close>

lemma length_vmr_bytes [simp]: "length (vmr_bytes i v) = 28"
  by (simp add: vmr_bytes_def)

lemma length_tree_bytes [simp]: "length (tree_bytes_from i vs) = 28 * length vs"
  by (induction vs arbitrary: i) simp_all

lemma state_of_rank [simp]: "state_of (of_nat (validity_rank s)) = Some s"
  by (cases s) (simp_all add: state_of_def)

lemma vmr_fields:
  "field 0 4 (vmr_bytes i v @ rest) = (of_nat i :: u32)"
  "field 4 20 (vmr_bytes i v @ rest) = vmr_hash v"
  "state_of (field 24 4 (vmr_bytes i v @ rest)) = Some (vmr_state v)"
  by (simp_all add: vmr_bytes_def hash_bytes_le field_0 field_skip)

lemma tree_of_tree_bytes: "tree_of_bytes i (length vs) (tree_bytes_from i vs @ rest) = Some vs"
  by (induction vs arbitrary: i) (simp_all add: vmr_fields)

text \<open>A file whose metadata is known: its layout is the one its length determines.\<close>

definition configured :: "ZCachedFile \<Rightarrow> bool" where
  "configured f \<longleftrightarrow> metadata_state f = v_validated
     \<and> file_len f = z_ntohl (file_len_network_order (metadata f))
     \<and> num_blocks f = compute_num_blocks (file_len f)
     \<and> tree_depth f = compute_tree_depth (num_blocks f)
     \<and> tree_sized f"

definition restored :: "ZCachedFile \<Rightarrow> ZCachedFile" where
  "restored f = (configure_from_metadata ((ZCachedFile_new (file_hash f))\<lparr>metadata := metadata f\<rparr>))
     \<lparr>tree := tree f, status := zcs_clean\<rparr>"

definition file_image :: "ZCachedFile \<Rightarrow> bytes" where
  "file_image f = buf_image (hash_bytes (file_hash f)) @ buf_image (metadata_bytes (metadata f))
     @ buf_image (tree_bytes_from 0 (tree f))"

lemma zcf_marshal_put:
  assumes "configured f"
  shows "zcf_marshal f d = put_bytes d (file_image f)"
proof -
  have "28 * unat (tree_size f) = length (tree_bytes_from 0 (tree f))"
    using assms by (simp add: configured_def tree_sized_def)
  then show ?thesis
    using assms by (simp add: zcf_marshal_def configured_def write_bufs_put file_image_def)
qed

lemma configured_size:
  assumes "configured f" and "metadata g = metadata f"
  shows "tree_size (configure_from_metadata g) = tree_size f"
    and "unat (tree_size f) = nodes f"
  using assms by (simp_all add: configured_def tree_sized_def configure_from_metadata_def Let_def)

lemma zcf_unmarshal_image:
  assumes "configured f"
  shows "zcf_unmarshal (ZDBDatum_of (file_image f)) = Some (restored f)"
proof -
  define g where "g = configure_from_metadata ((ZCachedFile_new (file_hash f))\<lparr>metadata := metadata f\<rparr>)"
  define h m t where "h = hash_bytes (file_hash f)" and "m = metadata_bytes (metadata f)"
    and "t = tree_bytes_from 0 (tree f)"
  have g: "tree_size g = tree_size f" and n: "unat (tree_size f) = nodes f"
    using configured_size [OF assms] by (simp_all add: g_def)
  have lens: "length h = 20" "length m = 8" "length t = 28 * nodes f"
    by (simp_all add: h_def m_def t_def)
  have "nodes f < 2 ^ 17" using assms tree_sized_nodes(2) by (simp add: configured_def)
  then have small: "length t < 2 ^ 32" using lens by simp
  have tg: "length (tree g) = nodes f" by (simp add: g_def configure_from_metadata_def Let_def n [symmetric] g [unfolded g_def configure_from_metadata_def Let_def, simplified, symmetric])
  have "tree_of_bytes 0 (nodes f) (t @ drop (length t) (tree_bytes_from 0 (tree g))) = Some (tree f)"
    unfolding t_def by (rule tree_of_tree_bytes)
  moreover have "ZDBDatum_of (file_image f) = datum_at [] (buf_image h @ buf_image m @ buf_image t)"
    by (simp add: ZDBDatum_of_def datum_at_def file_image_def h_def m_def t_def)
  moreover have "of_le_bytes h = file_hash f" by (simp add: h_def hash_bytes_le of_le_le_bytes)
  moreover have "metadata_of m = metadata f" using metadata_of_bytes [of "metadata f" "[]"] by (simp add: m_def)
  ultimately show ?thesis
    using lens small g n
    by (simp add: zcf_unmarshal_def read_buf_at read_buf_last HASH_SIZE_def restored_def g_def [symmetric])
qed

lemma store_then_retrieve:
  assumes "configured f" and "\<And>n. length (fresh n) = n"
    and "\<And>db h v. db_lookup env (db_insert env db h v) h = Some v"
  shows "\<exists>db'. store_file env fresh (Some db) f = Some (Some db')
    \<and> retrieve_file env (Some db') (file_hash f) = Some (Some (restored f))"
proof -
  have "zfile_db_insert env fresh db f = Some (db_insert env db (file_hash f) (file_image f))"
    using assms(1,2) by (simp add: zfile_db_insert_def zcf_marshal_put put_bytes_count put_bytes_exact)
  then show ?thesis
    using assms(1,3) by (simp add: store_file_def retrieve_file_def zfile_db_lookup_def zcf_unmarshal_image)
qed

section \<open>Sequences of writes\<close>

datatype datum_write = WriteBuf bytes | WriteStr bytes | WriteUint32 u32

primrec write_one :: "datum_write \<Rightarrow> ZDBDatum \<Rightarrow> ZDBDatum option" where
  "write_one (WriteBuf b) d = write_buf d b"
| "write_one (WriteStr s) d = write_str d s"
| "write_one (WriteUint32 w) d = write_uint32 d w"

primrec datum_writes :: "datum_write list \<Rightarrow> ZDBDatum \<Rightarrow> ZDBDatum option" where
  "datum_writes [] d = Some d"
| "datum_writes (w # ws) d = write_one w d \<bind> datum_writes ws"

primrec write_image :: "datum_write \<Rightarrow> bytes" where
  "write_image (WriteBuf b) = buf_image b"
| "write_image (WriteStr s) = buf_image (takeWhile (\<lambda>c. c \<noteq> 0) s @ [0])"
| "write_image (WriteUint32 w) = le_bytes 4 w"

primrec terminated :: "datum_write \<Rightarrow> bool" where
  "terminated (WriteBuf b) \<longleftrightarrow> True"
| "terminated (WriteStr s) \<longleftrightarrow> 0 \<in> set s"
| "terminated (WriteUint32 w) \<longleftrightarrow> True"

lemma write_str_put:
  assumes "0 \<in> set s"
  shows "write_str d s = put_bytes d (buf_image (takeWhile (\<lambda>c. c \<noteq> 0) s @ [0]))"
proof -
  obtain xs ys where s: "s = xs @ 0 # ys" and xs: "0 \<notin> set xs" using split_list_first [OF assms] by blast
  have "takeWhile (\<lambda>c. c \<noteq> 0) s = xs" using xs by (auto simp: s takeWhile_tail)
  then show ?thesis using xs by (simp add: s write_str_def write_buf_put)
qed

lemma write_uint32_put: "write_uint32 d w = put_bytes d (le_bytes 4 w)"
  unfolding write_uint32_def
  by (cases "put_bytes d (le_bytes 4 w)") (auto simp: put_bytes_no_overrun)

lemma put_bytes_Nil:
  "case dbt_data d of None \<Rightarrow> True | Some b \<Rightarrow> marshal_ptr d \<le> length b \<Longrightarrow> put_bytes d [] = Some d"
  by (auto simp: put_bytes_def split: option.splits)

lemma datum_writes_put:
  assumes "\<forall>w \<in> set ws. terminated w" and "assert_no_overrun d = Some ()"
  shows "datum_writes ws d = put_bytes d (concat (map write_image ws))"
  using assms
proof (induction ws arbitrary: d)
  case Nil
  then show ?case
    by (simp add: put_bytes_Nil assert_no_overrun_def lite_assert_def split: if_splits)
next
  case (Cons w ws)
  have w: "write_one w d = put_bytes d (write_image w)"
    using Cons.prems(1) by (cases w) (simp_all add: write_buf_put write_str_put write_uint32_put)
  have "datum_writes (w # ws) d = (put_bytes d (write_image w) \<bind> (\<lambda>d. put_bytes d (concat (map write_image ws))))"
    using Cons by (cases "put_bytes d (write_image w)") (auto simp: w put_bytes_no_overrun)
  then show ?case by (simp add: put_bytes_append)
qed

text \<open>
  C33: marshalling never runs over.  Whatever is written, the counting pass over a datum without a buffer
  gives the exact size; a datum allocated with that size takes the same writes, they fill it to the last
  byte with the images of the values in order, and one byte less would trip the overrun.
\<close>

theorem marshal_fits_exactly:
  assumes "\<forall>w \<in> set ws. terminated w" and "\<And>n. length (fresh n) = n"
  shows "\<exists>count. datum_writes ws ZDBDatum_count = Some count
    \<and> datum_writes ws (datum_alloc fresh count)
        = Some \<lparr>dbt_data = Some (concat (map write_image ws)), marshal_ptr = marshal_ptr count\<rparr>
    \<and> (\<forall>n. datum_writes ws (init_alloc fresh n) = None \<longleftrightarrow> n < marshal_ptr count)"
proof -
  have "assert_no_overrun ZDBDatum_count = Some ()" and "\<And>n. assert_no_overrun (init_alloc fresh n) = Some ()"
    by (simp_all add: assert_no_overrun_def ZDBDatum_count_def init_alloc_def)
  then have count: "datum_writes ws ZDBDatum_count = put_bytes ZDBDatum_count (concat (map write_image ws))"
    and alloc: "\<And>n. datum_writes ws (init_alloc fresh n) = put_bytes (init_alloc fresh n) (concat (map write_image ws))"
    using datum_writes_put [OF assms(1)] by blast+
  define image where "image = concat (map write_image ws)"
  have "put_bytes (init_alloc fresh n) image = None \<longleftrightarrow> n < length image" for n
    using assms(2) by (simp add: put_bytes_def init_alloc_def)
  moreover have "put_bytes (datum_alloc fresh \<lparr>dbt_data = None, marshal_ptr = length image\<rparr>) image
      = Some \<lparr>dbt_data = Some image, marshal_ptr = length image\<rparr>"
    by (rule put_bytes_exact) (rule assms(2))
  ultimately show ?thesis
    unfolding count alloc datum_alloc_def put_bytes_count image_def [symmetric] by simp
qed

theorem marshal_fits_exactly_witness:
  "\<exists>count. datum_writes [WriteStr [102, 115, 0], WriteUint32 7] ZDBDatum_count = Some count
    \<and> datum_writes [WriteStr [102, 115, 0], WriteUint32 7] (datum_alloc (\<lambda>n. replicate n 0) count)
        = Some \<lparr>dbt_data = Some (concat (map write_image [WriteStr [102, 115, 0], WriteUint32 7])),
                marshal_ptr = marshal_ptr count\<rparr>
    \<and> (\<forall>n. datum_writes [WriteStr [102, 115, 0], WriteUint32 7] (init_alloc (\<lambda>n. replicate n 0) n) = None
          \<longleftrightarrow> n < marshal_ptr count)"
  by (rule marshal_fits_exactly) simp_all

section \<open>Properties of the stores\<close>

lemma configured_file_ok:
  assumes "file_ok env f" and "metadata_state f = v_validated" and "file_len f = get_filelen f"
  shows "configured f"
  using assms by (simp add: configured_def file_ok_def merkle_inv_def get_filelen_def)

lemma restored_eq:
  assumes "configured f"
  shows "restored f = f\<lparr>waiters := [], parents_of_tentative_nodes := hash_table_init vmr_hash_func vmr_cmp_func,
    is_origin := False, status := zcs_clean, progress_counter := 0, requesting_data_mode := False\<rparr>"
  using assms
  by (simp add: restored_def configured_def configure_from_metadata_def Let_def ZCachedFile_new_def
      zcf_ctor_init_def tree_sized_def)

lemma restored_file_ok:
  assumes "file_ok env f" and "metadata_state f = v_validated" and "configured f"
  shows "file_ok env (restored f)"
proof -
  note fields = arg_cong [OF restored_eq [OF assms(3)], of tree, simplified]
    arg_cong [OF restored_eq [OF assms(3)], of parents_of_tentative_nodes, simplified]
  have inv: "merkle_inv env None f" using assms(1,2) by (simp add: file_ok_def)
  have "tracked_ok (restored f)"
    unfolding tracked_ok_def fields(2) using ht_ready_init [OF vmr_key.hash_key_axioms]
    by (simp add: hash_table_init_def ht_data_def)
  moreover have "tree_sized (restored f)" "\<not> is_origin (restored f)"
    using assms(3) unfolding restored_eq [OF assms(3)] by (auto simp: configured_def tree_sized_def)
  ultimately have "merkle_inv env None (restored f)"
    using inv unfolding merkle_inv_def closed_upwards_def validated_ok_def known_def fields(1) by blast
  then show ?thesis
    using assms ht_ready_init [OF vmr_key.hash_key_axioms]
    by (simp add: file_ok_def restored_eq get_filelen_def hash_table_init_def ht_data_def)
qed

text \<open>
  C13: a cached file whose metadata is known survives the file store.  Storing it succeeds, and retrieving
  its hash gives a clean file with the same hash, metadata, layout and Merkle tree, no waiting request and no
  tentative parent, which is as well-formed as the stored file was.
\<close>

theorem stored_file_restored:
  assumes "file_ok env f" and "metadata_state f = v_validated" and "file_len f = get_filelen f"
    and "\<And>n. length (fresh n) = n" and "\<And>db h v. db_lookup env (db_insert env db h v) h = Some v"
  shows "\<exists>db' g. store_file env fresh (Some db) f = Some (Some db')
    \<and> retrieve_file env (Some db') (file_hash f) = Some (Some g)
    \<and> g = f\<lparr>waiters := [], parents_of_tentative_nodes := hash_table_init vmr_hash_func vmr_cmp_func,
            is_origin := False, status := zcs_clean, progress_counter := 0, requesting_data_mode := False\<rparr>
    \<and> file_ok env g"
proof -
  have conf: "configured f" by (rule configured_file_ok [OF assms(1-3)])
  show ?thesis
    using store_then_retrieve [OF conf assms(4,5), of db] restored_file_ok [OF assms(1,2) conf]
    unfolding restored_eq [OF conf] by blast
qed

theorem stored_file_restored_witness:
  "\<exists>db' g. store_file sample_env (\<lambda>n. replicate n 9) (Some (\<lambda>_. None)) deep_file = Some (Some db')
    \<and> retrieve_file sample_env (Some db') (file_hash deep_file) = Some (Some g)
    \<and> g = deep_file\<lparr>waiters := [], parents_of_tentative_nodes := hash_table_init vmr_hash_func vmr_cmp_func,
            is_origin := False, status := zcs_clean, progress_counter := 0, requesting_data_mode := False\<rparr>
    \<and> file_ok sample_env g"
proof (rule stored_file_restored [OF deep_file_facts(1,2)])
  show "file_len deep_file = get_filelen deep_file"
    using deep_file_facts(2)
    by (auto simp: deep_file_def install_metadata_def get_filelen_def configure_from_metadata_def tree_set_def Let_def
        ZCachedFile_new_def zcf_ctor_init_def split: option.splits if_splits)
qed (simp_all add: sample_env_def)

lemma find_unique: "a \<in> set xs \<Longrightarrow> \<forall>x \<in> set xs. P x \<longleftrightarrow> x = a \<Longrightarrow> List.find P xs = Some a"
  by (induction xs) auto

lemma find_origin:
  assumes "0 \<notin> set s" and "a = s @ [0]" and "a \<in> set origins"
    and "\<forall>origin \<in> set origins. \<exists>t. origin = t @ [0] \<and> 0 \<notin> set t"
  shows "List.find (\<lambda>origin. lite_strcmp origin a = Some 0) origins = Some a"
proof -
  have eq: "lite_strcmp origin a = Some 0 \<longleftrightarrow> origin = a" if mem: "origin \<in> set origins" for origin
  proof -
    obtain t where t: "origin = t @ [0]" "0 \<notin> set t" using bspec [OF assms(4) mem] by blast
    then obtain r where "lite_strcmp origin a = Some r" "r = 0 \<longleftrightarrow> t = s"
      using lite_strcmp_zero [OF t(2) assms(1), of "[]" "[]"] unfolding t(1) assms(2) by blast
    then show ?thesis unfolding t(1) assms(2) by simp
  qed
  show ?thesis by (rule find_unique [OF assms(3)]) (use eq in simp)
qed

lemma znr_marshal_unmarshal:
  assumes "0 \<notin> set s" and "length s + 1 < 2 ^ 32" and "\<And>n. length (fresh n) = n"
    and "\<forall>origin \<in> set origins. \<exists>t. origin = t @ [0] \<and> 0 \<notin> set t" and "s @ [0] \<in> set origins"
    and "znr_origin znr = Some (s @ [0])"
  shows "\<exists>zd data. znr_marshal fresh znr = Some zd \<and> dbt_data zd = Some data
    \<and> znr_unmarshal origins (ZDBDatum_of data) = Some znr"
proof -
  define a b c where "a = s @ [0]" and "b = hash_bytes (znr_file_hash znr)" and "c = le_bytes 4 (znr_seal znr)"
  define image where "image = buf_image a @ buf_image b @ buf_image c"
  have put: "znr_marshal_into znr d = put_bytes d image" for d
  proof -
    have "write_str d a = write_buf d a" for d using assms(1) by (simp add: write_str_def a_def)
    then show ?thesis
      using assms(6) write_bufs_put [of d a b c] by (simp add: znr_marshal_into_def image_def a_def b_def c_def)
  qed
  have "znr_marshal fresh znr = Some \<lparr>dbt_data = Some image, marshal_ptr = length image\<rparr>"
    using assms(3) by (simp add: znr_marshal_def put put_bytes_count put_bytes_exact)
  moreover have "List.find (\<lambda>origin. lite_strcmp origin a = Some 0) origins = Some a"
    using assms(1,4,5) by (intro find_origin) (simp_all add: a_def)
  moreover have "ZDBDatum_of image = datum_at [] (buf_image a @ buf_image b @ buf_image c)"
    by (simp add: ZDBDatum_of_def datum_at_def image_def)
  moreover have "of_le_bytes b = znr_file_hash znr" "of_le_bytes c = znr_seal znr" "length b = 20" "length c = 4"
    by (simp_all add: b_def c_def hash_bytes_le of_le_le_bytes)
  ultimately show ?thesis
    using assms(2,6) read_str_at [of s "[]" "buf_image b @ buf_image c"]
    by (simp add: znr_unmarshal_def a_def read_buf_at read_buf_last HASH_SIZE_def)
qed

lemma ZDBDatum_str_key:
  assumes "0 \<notin> set u" and "\<And>n. length (fresh n) = n"
  shows "ZDBDatum_str fresh (u @ [0]) = Some \<lparr>dbt_data = Some (buf_image (u @ [0])), marshal_ptr = length u + 5\<rparr>"
proof -
  have "takeWhile (\<lambda>c. c \<noteq> 0) (u @ [0]) = u" using assms(1) by (auto simp: takeWhile_tail)
  then show ?thesis
    using assms by (simp add: ZDBDatum_str_def write_str_put put_bytes_def init_alloc_def)
qed

text \<open>
  C32: a name record survives the name store: after a record of a known origin was inserted under a URL, the
  URL is found with the same origin, file hash and freshness seal, and inserting under it leaves the
  lookup of every other URL as it was.
\<close>

theorem name_record_roundtrip:
  assumes "0 \<notin> set u" and "0 \<notin> set s" and "length s + 1 < 2 ^ 32" and "\<And>n. length (fresh n) = n"
    and "\<forall>origin \<in> set origins. \<exists>t. origin = t @ [0] \<and> 0 \<notin> set t" and "s @ [0] \<in> set origins"
    and "znr_origin znr = Some (s @ [0])"
    and "\<And>db k v k'. lookup (ndb_insert db k v) k' = (if k' = k then Some v else lookup db k')"
  shows "\<exists>db'. zname_db_insert ndb_insert fresh db (u @ [0]) znr = Some db'
    \<and> zname_db_lookup lookup origins fresh db' (u @ [0]) = Some (Some znr)
    \<and> (\<forall>w. 0 \<notin> set w \<and> w \<noteq> u \<longrightarrow>
          zname_db_lookup lookup origins fresh db' (w @ [0]) = zname_db_lookup lookup origins fresh db (w @ [0]))"
proof -
  have key: "buf_image (w @ [0]) \<noteq> buf_image (u @ [0])" if "w \<noteq> u" for w
    using that by (auto simp: buf_image_def append_eq_append_conv)
  obtain zd data where "znr_marshal fresh znr = Some zd" "dbt_data zd = Some data"
      "znr_unmarshal origins (ZDBDatum_of data) = Some znr"
    using znr_marshal_unmarshal [OF assms(2-7)] by blast
  then show ?thesis
    using key by (simp add: zname_db_insert_def zname_db_lookup_def ZDBDatum_str_key assms(1,4,8))
qed

theorem name_record_roundtrip_witness:
  "\<exists>db'. zname_db_insert (\<lambda>m k v. m(k \<mapsto> v)) (\<lambda>n. replicate n 0) Map.empty ([47] @ [0])
       \<lparr>znr_origin = Some ([102, 115] @ [0]), znr_file_hash = 5, znr_seal = 7\<rparr> = Some db'
    \<and> zname_db_lookup (\<lambda>m. m) [[114] @ [0], [102, 115] @ [0]] (\<lambda>n. replicate n 0) db' ([47] @ [0])
        = Some (Some \<lparr>znr_origin = Some ([102, 115] @ [0]), znr_file_hash = 5, znr_seal = 7\<rparr>)
    \<and> (\<forall>w. 0 \<notin> set w \<and> w \<noteq> [47] \<longrightarrow>
          zname_db_lookup (\<lambda>m. m) [[114] @ [0], [102, 115] @ [0]] (\<lambda>n. replicate n 0) db' (w @ [0])
            = zname_db_lookup (\<lambda>m. m) [[114] @ [0], [102, 115] @ [0]] (\<lambda>n. replicate n 0) Map.empty (w @ [0]))"
  by (rule name_record_roundtrip [where s = "[102, 115]"]) auto

end
