(* ===== verification/File_Service.thy ===== *)
theory File_Service
  imports Request_Builder File_Store
begin

text \<open>
  Answering requests for a cached file (\<^verbatim>\<open>common/zftp_module/ZCachedFile.cpp\<close>): what is missing, asking the
  server for it, the queue of waiting requests, taking in replies and images, and filling the reply
  (\<^verbatim>\<open>ValidFileResult.cpp\<close>, \<^verbatim>\<open>ErrorFileResult.cpp\<close>, \<^verbatim>\<open>Buf.cpp\<close>, \<^verbatim>\<open>MemBuf.cpp\<close>).

  The state \<open>service\<close> is the file with the block cache and the file store behind it, the requests handed to
  the network client, the results delivered to requests, and the cached names of URLs (\<^verbatim>\<open>ZCachedName.cpp\<close>).  The
  record \<open>zconf\<close> holds what comes from outside: the client's packet limit (or no client), its compression context,
  and the disk behind the origins.  The mutex of a file makes every operation atomic and is not a part of the
  state; statistics and messages to the console are left out.
\<close>

section \<open>Definitions\<close>

subsection \<open>Buffers\<close>

record MemBuf =
  mb_buffer :: bytes
  header_offset :: u32
  max_data_len :: u32

definition MemBuf_new :: "bytes \<Rightarrow> MemBuf" where
  "MemBuf_new buffer = \<lparr>mb_buffer = buffer, header_offset = 0, max_data_len = 0\<rparr>"

text \<open>The pointer \<^verbatim>\<open>write_header\<close> returns is an offset into the buffer; \<open>mb_store\<close> writes through one.\<close>

definition write_header :: "MemBuf \<Rightarrow> u32 \<Rightarrow> u32 \<times> MemBuf" where
  "write_header mb len = (header_offset mb, mb\<lparr>header_offset := header_offset mb + len\<rparr>)"

definition mb_store :: "MemBuf \<Rightarrow> u32 \<Rightarrow> bytes \<Rightarrow> MemBuf option" where
  "mb_store mb ptr bs =
     (if unat ptr + length bs \<le> length (mb_buffer mb)
      then Some (mb\<lparr>mb_buffer := take (unat ptr) (mb_buffer mb) @ bs @ drop (unat ptr + length bs) (mb_buffer mb)\<rparr>)
      else None)"

definition write_data :: "MemBuf \<Rightarrow> ZBlockCacheRecord \<Rightarrow> u32 \<Rightarrow> u32 \<Rightarrow> u32 \<Rightarrow> MemBuf option" where
  "write_data mb block data_offset block_offset len = do {
     bs \<leftarrow> zbcr_read block block_offset len;
     mb \<leftarrow> mb_store mb (header_offset mb + data_offset) bs;
     Some (mb\<lparr>max_data_len := data_offset + len\<rparr>) }"

definition get_payload_len :: "MemBuf \<Rightarrow> u32" where
  "get_payload_len mb = max_data_len mb"

definition get_packet_len :: "MemBuf \<Rightarrow> u32" where
  "get_packet_len mb = header_offset mb + get_payload_len mb"

subsection \<open>Filling a reply\<close>

primrec write_blocks_loop ::
    "nat \<Rightarrow> 'd zenv \<Rightarrow> ZCachedFile \<Rightarrow> u32 \<Rightarrow> u32 \<Rightarrow> u32 \<Rightarrow> u32 \<Rightarrow> u32 \<Rightarrow> u32 \<Rightarrow> 'd ZBlockCache \<Rightarrow> MemBuf
       \<Rightarrow> ('d ZBlockCache \<times> MemBuf) option" where
  "write_blocks_loop 0 env f packet_data_offset file_offset sz blk buf_off dbg_file_last_ended bc mb = None"
| "write_blocks_loop (Suc fuel) env f packet_data_offset file_offset sz blk buf_off dbg_file_last_ended bc mb =
     (if buf_off < sz then do {
        (block, bc) \<leftarrow> lookup_block env f bc blk v_validated;
        h \<leftarrow> block;
        z \<leftarrow> blocks bc h;
        lite_assert (zbcr_valid z);
        let blk_start = push_bit ZFTP_LG_BLOCK_SIZE blk;
        let blk_off = (if file_offset > blk_start then file_offset - blk_start else 0);
        let blk_end_request = file_offset + sz - blk_start;
        let blk_len = min (blk_end_request - blk_off) (ZFTP_BLOCK_SIZE - blk_off);
        mb \<leftarrow> write_data mb z (buf_off + packet_data_offset) blk_off blk_len;
        lite_assert (blk_start + blk_off = dbg_file_last_ended);
        write_blocks_loop fuel env f packet_data_offset file_offset sz (blk + 1) (buf_off + blk_len)
          (blk_start + blk_off + blk_len) bc mb }
      else do {
        lite_assert (dbg_file_last_ended = file_offset + sz);
        Some (bc, mb) })"

definition write_blocks_to_buf ::
    "'d zenv \<Rightarrow> ZCachedFile \<Rightarrow> 'd ZBlockCache \<Rightarrow> MemBuf \<Rightarrow> u32 \<Rightarrow> u32 \<Rightarrow> u32 \<Rightarrow> ('d ZBlockCache \<times> MemBuf) option" where
  "write_blocks_to_buf env f bc mb packet_data_offset offset sz = do {
     lite_assert (offset + sz \<le> get_filelen f);
     write_blocks_loop 65537 env f packet_data_offset offset sz (drop_bit ZFTP_LG_BLOCK_SIZE offset) 0 offset bc mb }"

datatype InternalFileResult = ValidFileResult | ErrorFileResult (err_code: u16) (err_msg: bytes)

definition get_available_data_range :: "ZCachedFile \<Rightarrow> ZFileRequest \<Rightarrow> DataRange option" where
  "get_available_data_range f req = do {
     r \<leftarrow> get_file_data_range f;
     Some (intersect (rq_data_range req) r) }"

definition valid_reply_size :: "ZCachedFile \<Rightarrow> ZFileRequest \<Rightarrow> u32 option" where
  "valid_reply_size f req = do {
     range \<leftarrow> get_available_data_range f req;
     Some (of_nat sizeof_ZFTPDataPacket + of_nat sizeof_ZFTPMerkleRecord * rq_num_tree_locations req
       + rq_padding_request req + dr_size range) }"

text \<open>The loop over the requested locations; \<open>zmr\<close> is the offset of the array of records.\<close>

fun fill_merkle_records ::
    "ZCachedFile \<Rightarrow> ZFileRequest \<Rightarrow> u32 \<Rightarrow> u32 \<Rightarrow> nat \<Rightarrow> MemBuf \<Rightarrow> MemBuf option" where
  "fill_merkle_records f req zmr idx 0 mb = Some mb"
| "fill_merkle_records f req zmr idx (Suc n) mb = do {
     location \<leftarrow> get_tree_location req idx;
     vmr \<leftarrow> get_validated_merkle_record f location;
     mb \<leftarrow> mb_store mb (zmr + of_nat sizeof_ZFTPMerkleRecord * idx)
       (merkle_record_bytes \<lparr>tree_location = z_htonl location, zmr_hash = vmr_hash vmr\<rparr>);
     fill_merkle_records f req zmr (idx + 1) n mb }"

text \<open>The data packet is stored once its last field, the payload size, is known.\<close>

definition valid_fill_reply ::
    "'d zenv \<Rightarrow> ZCachedFile \<Rightarrow> 'd ZBlockCache \<Rightarrow> ZFileRequest \<Rightarrow> MemBuf \<Rightarrow> ('d ZBlockCache \<times> MemBuf) option" where
  "valid_fill_reply env f bc req vbuf = do {
     let (zdp_ptr, vbuf) = write_header vbuf (of_nat sizeof_ZFTPDataPacket);
     range \<leftarrow> get_available_data_range f req;
     let (zmr, vbuf) = write_header vbuf (of_nat sizeof_ZFTPMerkleRecord * rq_num_tree_locations req);
     vbuf \<leftarrow> fill_merkle_records f req zmr 0 (unat (rq_num_tree_locations req)) vbuf;
     let (padding, vbuf) = write_header vbuf (rq_padding_request req);
     vbuf \<leftarrow> mb_store vbuf padding (replicate (unat (rq_padding_request req)) 0);
     (bc, vbuf) \<leftarrow> write_blocks_to_buf env f bc vbuf 0 (dr_start range) (dr_size range);
     vbuf \<leftarrow> mb_store vbuf zdp_ptr (data_packet_bytes
       \<lparr>zdp_code = z_htons zftp_reply_data, zdp_hash_len = z_htons (of_nat HASH_SIZE),
        zftp_lg_block_size = of_nat ZFTP_LG_BLOCK_SIZE, zftp_tree_degree = z_htons 2,
        zdp_file_hash = file_hash f, zdp_metadata = metadata f,
        zdp_num_merkle_records = z_htons (ucast (rq_num_tree_locations req)),
        zdp_padding_size = z_htonl (rq_padding_request req),
        zdp_compression_context = \<lparr>state_id = z_htonl ZFTP_NO_COMPRESSION, seq_id = z_htonl 0\<rparr>,
        zdp_data_start = z_htonl (dr_start range), zdp_data_end = z_htonl (dr_end range),
        zdp_payload_size = z_htonl (get_payload_len vbuf)\<rparr>);
     Some (bc, vbuf) }"

definition sizeof_ZFTPErrorPacket :: nat where
  "sizeof_ZFTPErrorPacket = 24"

definition error_reply_size :: "bytes \<Rightarrow> u32 option" where
  "error_reply_size msg = map_option (\<lambda>n. of_nat sizeof_ZFTPErrorPacket + of_nat (n + 1)) (lite_strlen msg)"

definition error_fill_reply :: "ZCachedFile \<Rightarrow> u16 \<Rightarrow> bytes \<Rightarrow> MemBuf \<Rightarrow> MemBuf option" where
  "error_fill_reply f code msg vbuf = do {
     n \<leftarrow> lite_strlen msg;
     let str0len = n + 1;
     let (zdp, vbuf) = write_header vbuf (of_nat sizeof_ZFTPErrorPacket);
     vbuf \<leftarrow> mb_store vbuf zdp (le_bytes 2 (z_htons code) @ le_bytes 2 (z_htons (of_nat str0len)) @ hash_bytes (file_hash f));
     let (zdp_msg, vbuf) = write_header vbuf (of_nat str0len);
     mb_store vbuf zdp_msg (take str0len msg) }"

subsection \<open>What is missing\<close>

definition round_up_to_block :: "u32 \<Rightarrow> u32" where
  "round_up_to_block loc =
     (let down = (loc - 1) AND NOT (ZFTP_BLOCK_SIZE - 1) in
      if down + ZFTP_BLOCK_SIZE < down then down else down + ZFTP_BLOCK_SIZE)"

text \<open>
  An origin (\<^verbatim>\<open>ZOrigin::lookup_new\<close>) reads the disk: it either does not know a URL, or has a name record for it
  and, unless the file was not found, the loaded image of the file. \<open>retrieve_name\<close> is the record that the name store has
  for a URL, \<open>origin_validate\<close> whether the origin of that class still finds the seal of a record fresh (\<^const>\<open>None\<close>
  when it asserts).
\<close>

record zconf =
  client_max_payload :: "u32 option"
  client_context :: CompressionContext
  origins :: "(bytes \<Rightarrow> (ZNameRecord \<times> ZCachedFile option) option) list"
  retrieve_name :: "bytes \<Rightarrow> ZNameRecord option"
  origin_validate :: "bytes \<Rightarrow> bytes \<Rightarrow> u32 \<Rightarrow> bool option"

definition has_origins :: "zconf \<Rightarrow> bool" where
  "has_origins conf \<longleftrightarrow> origins conf \<noteq> []"

text \<open>
  The cached name of a URL. Requests to look up a name wait in it too; they are a part of the lookup protocol
  and left out here. Installing a record also writes it to the name store; the store is only read for a
  name that is still \<open>zcs_ignorant\<close>, so that write is never read back through this name.
\<close>

record ZCachedName =
  zcn_znr :: "ZNameRecord option"
  zcn_status :: ZCachedStatus

definition ZCachedName_new :: ZCachedName where
  "ZCachedName_new = \<lparr>zcn_znr = None, zcn_status = zcs_ignorant\<rparr>"

definition zcn_update_status :: "ZCachedStatus \<Rightarrow> ZCachedName \<Rightarrow> ZCachedName" where
  "zcn_update_status new_status zcn =
     (if new_status = zcs_dirty then zcn\<lparr>zcn_status := zcs_clean\<rparr> else zcn\<lparr>zcn_status := new_status\<rparr>)"

definition zcn_install :: "ZNameRecord \<Rightarrow> ZCachedStatus \<Rightarrow> ZCachedName \<Rightarrow> ZCachedName" where
  "zcn_install znr new_status zcn = zcn_update_status new_status (zcn\<lparr>zcn_znr := Some znr\<rparr>)"

definition check_freshness :: "zconf \<Rightarrow> bytes \<Rightarrow> ZCachedName \<Rightarrow> ZCachedName option" where
  "check_freshness conf url zcn = do {
     let zcn = (if zcn_status zcn = zcs_ignorant
                then (case retrieve_name conf url of None \<Rightarrow> zcn | Some znr \<Rightarrow> zcn_install znr zcs_clean zcn)
                else zcn);
     (case zcn_znr zcn of
        None \<Rightarrow> Some zcn
      | Some znr \<Rightarrow> do {
          origin \<leftarrow> znr_origin znr;
          is_fresh \<leftarrow> origin_validate conf origin url (znr_seal znr);
          Some (if is_fresh then zcn else zcn\<lparr>zcn_znr := None\<rparr>) }) }"

definition approx_payload_size :: "ZCachedFile \<Rightarrow> DataRange \<Rightarrow> u32" where
  "approx_payload_size f missing_set =
     (if requesting_data_mode f then dr_size missing_set
      else drop_bit ZFTP_LG_BLOCK_SIZE (dr_size missing_set) * of_nat sizeof_ZFTPMerkleRecord)"

text \<open>One round adds the missing bytes of a block; \<open>None\<close> inside is the \<^verbatim>\<open>break\<close> on noncontiguous sets.\<close>

definition add_missing ::
    "'d zenv \<Rightarrow> ZCachedFile \<Rightarrow> DataRange \<Rightarrow> u32 \<Rightarrow> u32 \<Rightarrow> DataRange \<Rightarrow> 'd ZBlockCache
       \<Rightarrow> (DataRange option \<times> 'd ZBlockCache) option" where
  "add_missing env f eligible_set start blk missing_set bc =
     (let start_blk = push_bit ZFTP_LG_BLOCK_SIZE blk;
          end_blk = push_bit ZFTP_LG_BLOCK_SIZE (blk + 1);
          en = min end_blk (dr_end eligible_set) in do {
        (block, bc) \<leftarrow> lookup_block env f bc blk v_validated;
        (case block of
           None \<Rightarrow> (case maybe_accumulate missing_set start en of (worked, r) \<Rightarrow>
                     Some (if worked then Some r else None, bc))
         | Some h \<Rightarrow> do {
             z \<leftarrow> blocks bc h;
             (if \<not> zbcr_valid z then
                let blk_range = get_missing_range z;
                    shifted_range = DataRange_of (start_blk + dr_start blk_range) (start_blk + dr_end blk_range);
                    pruned_range = intersect shifted_range eligible_set in
                case maybe_accumulate_range missing_set pruned_range of (worked, r) \<Rightarrow>
                  Some (if worked then Some r else None, bc)
              else Some (Some missing_set, bc)) }) })"

primrec missing_set_loop ::
    "nat \<Rightarrow> 'd zenv \<Rightarrow> ZCachedFile \<Rightarrow> u32 \<Rightarrow> DataRange \<Rightarrow> u32 \<Rightarrow> DataRange \<Rightarrow> 'd ZBlockCache
       \<Rightarrow> (DataRange \<times> 'd ZBlockCache) option" where
  "missing_set_loop 0 env f max_payload eligible_set start missing_set bc = None"
| "missing_set_loop (Suc fuel) env f max_payload eligible_set start missing_set bc =
     (if start < dr_end eligible_set then
        let blk = drop_bit ZFTP_LG_BLOCK_SIZE start in
        if blk \<ge> num_blocks f then Some (missing_set, bc)
        else do {
          (added, bc) \<leftarrow> add_missing env f eligible_set start blk missing_set bc;
          (case added of
             None \<Rightarrow> Some (missing_set, bc)
           | Some missing_set \<Rightarrow>
               if approx_payload_size f missing_set \<ge> max_payload then Some (missing_set, bc)
               else missing_set_loop fuel env f max_payload eligible_set
                      (push_bit ZFTP_LG_BLOCK_SIZE (blk + 1)) missing_set bc) }
      else Some (missing_set, bc))"

definition eligible_range :: "ZCachedFile \<Rightarrow> DataRange \<Rightarrow> DataRange option" where
  "eligible_range f requested_range = do {
     r \<leftarrow> get_file_data_range f;
     Some (intersect (DataRange_of (dr_start requested_range AND NOT (ZFTP_BLOCK_SIZE - 1))
                        (round_up_to_block (dr_end requested_range))) r) }"

definition compute_missing_set ::
    "'d zenv \<Rightarrow> zconf \<Rightarrow> ZCachedFile \<Rightarrow> 'd ZBlockCache \<Rightarrow> DataRange \<Rightarrow> (DataRange \<times> 'd ZBlockCache) option" where
  "compute_missing_set env conf f bc requested_range = do {
     let max_payload = (case client_max_payload conf of None \<Rightarrow> 1 | Some m \<Rightarrow> m);
     eligible_set \<leftarrow> eligible_range f requested_range;
     missing_set_loop 65537 env f max_payload eligible_set (dr_start eligible_set) DataRange_empty bc }"

subsection \<open>Requests and their answers\<close>

record 'd service =
  svc_file :: ZCachedFile
  svc_blocks :: "'d ZBlockCache"
  svc_fileDB :: "'d option"
  svc_issued :: "OutboundRequest list"
  svc_delivered :: "(request_ptr \<times> InternalFileResult) list"
  svc_names :: "bytes \<Rightarrow> ZCachedName"

type_synonym waiter = "request_ptr \<times> ZFileRequest"

definition cstr :: "string \<Rightarrow> bytes" where
  "cstr s = map (\<lambda>c. of_nat (of_char c)) s @ [0]"

definition deliver_result :: "waiter \<Rightarrow> InternalFileResult \<Rightarrow> 'd service \<Rightarrow> 'd service" where
  "deliver_result req result s = s\<lparr>svc_delivered := svc_delivered s @ [(fst req, result)]\<rparr>"

definition error_reply :: "waiter \<Rightarrow> u16 \<Rightarrow> bytes \<Rightarrow> 'd service \<Rightarrow> 'd service" where
  "error_reply req code msg s = deliver_result req (ErrorFileResult code msg) s"

definition insert_waiter :: "waiter \<Rightarrow> 'd service \<Rightarrow> 'd service" where
  "insert_waiter req s = s\<lparr>svc_file := (svc_file s)\<lparr>waiters := waiters (svc_file s) @ [req]\<rparr>\<rparr>"

definition update_status ::
    "'d zenv \<Rightarrow> (nat \<Rightarrow> bytes) \<Rightarrow> ZCachedStatus \<Rightarrow> 'd service \<Rightarrow> 'd service option" where
  "update_status env fresh new_status s =
     (if new_status = zcs_dirty then do {
        db \<leftarrow> store_file env fresh (svc_fileDB s) (svc_file s);
        Some (s\<lparr>svc_fileDB := db, svc_file := (svc_file s)\<lparr>status := zcs_clean\<rparr>\<rparr>) }
      else Some (s\<lparr>svc_file := (svc_file s)\<lparr>status := new_status\<rparr>\<rparr>))"

fun consider_each :: "(waiter \<Rightarrow> 'd service \<Rightarrow> 'd service option) \<Rightarrow> waiter list \<Rightarrow> 'd service \<Rightarrow> 'd service option" where
  "consider_each consider [] s = Some s"
| "consider_each consider (req # reqs) s = do { s \<leftarrow> consider req s; consider_each consider reqs s }"

text \<open>\<open>consider\<close> stands for \<^verbatim>\<open>_consider_request_nolock\<close>, which is called back from here.\<close>

definition signal_waiters ::
    "(waiter \<Rightarrow> 'd service \<Rightarrow> 'd service option) \<Rightarrow> 'd service \<Rightarrow> 'd service option" where
  "signal_waiters consider s =
     consider_each consider (waiters (svc_file s)) (s\<lparr>svc_file := (svc_file s)\<lparr>waiters := []\<rparr>\<rparr>)"

definition install_image ::
    "'d zenv \<Rightarrow> (nat \<Rightarrow> bytes) \<Rightarrow> (waiter \<Rightarrow> 'd service \<Rightarrow> 'd service option)
       \<Rightarrow> ZCachedFile \<Rightarrow> ZCachedStatus \<Rightarrow> 'd service \<Rightarrow> 'd service option" where
  "install_image env fresh consider img new_status s =
     (let f = svc_file s in
      if metadata_state f = v_validated then do {
        lite_assert (cmp_hash (file_hash f) (file_hash img) = 0);
        lite_assert (tree_size f = tree_size img);
        d \<leftarrow> lite_memcmp (tree_bytes_from 0 (tree f)) (tree_bytes_from 0 (tree img)) (28 * unat (tree_size f));
        lite_assert (d = 0);
        Some s }
      else do {
        lite_assert (metadata_state f = v_unknown);
        lite_assert (tree f = []);
        let f = configure_from_metadata (f\<lparr>file_hash := file_hash img, metadata := metadata img\<rparr>);
        lite_assert (unat (tree_size f) \<le> length (tree img));
        s \<leftarrow> update_status env fresh new_status (s\<lparr>svc_file := f\<lparr>tree := take (unat (tree_size f)) (tree img)\<rparr>\<rparr>);
        signal_waiters consider s })"

definition install_into ::
    "'d zenv \<Rightarrow> (nat \<Rightarrow> bytes) \<Rightarrow> (waiter \<Rightarrow> 'd service \<Rightarrow> 'd service option)
       \<Rightarrow> ZCachedFile \<Rightarrow> 'd service \<Rightarrow> 'd service option" where
  "install_into env fresh consider origin_file target = install_image env fresh consider origin_file zcs_dirty target"

subsection \<open>Probing the origins\<close>

definition known_validated_hash :: "zconf \<Rightarrow> bytes \<Rightarrow> 'd service \<Rightarrow> (hash_t option \<times> 'd service) option" where
  "known_validated_hash conf url s = do {
     zcn \<leftarrow> check_freshness conf url (svc_names s url);
     Some (map_option znr_file_hash (zcn_znr zcn), s\<lparr>svc_names := (svc_names s)(url := zcn)\<rparr>) }"

definition insert_name :: "bytes \<Rightarrow> ZNameRecord \<Rightarrow> 'd service \<Rightarrow> 'd service" where
  "insert_name url znr s = s\<lparr>svc_names := (svc_names s)(url := zcn_install znr zcs_dirty (svc_names s url))\<rparr>"

text \<open>
  An origin loads the file first, installs it into the cached file with its hash, and then enters the name. Only an
  image with this file's hash comes to this file.
\<close>

primrec probe_origins_loop ::
    "'d zenv \<Rightarrow> (nat \<Rightarrow> bytes) \<Rightarrow> (waiter \<Rightarrow> 'd service \<Rightarrow> 'd service option)
       \<Rightarrow> bytes \<Rightarrow> (bytes \<Rightarrow> (ZNameRecord \<times> ZCachedFile option) option) list \<Rightarrow> 'd service \<Rightarrow> 'd service option" where
  "probe_origins_loop env fresh consider url [] s = Some s"
| "probe_origins_loop env fresh consider url (lookup_new # rest) s =
     (case lookup_new url of
        None \<Rightarrow> probe_origins_loop env fresh consider url rest s
      | Some (znr, img) \<Rightarrow> do {
          s \<leftarrow> (case img of
                  None \<Rightarrow> Some s
                | Some origin_file \<Rightarrow>
                    if cmp_hash (file_hash origin_file) (file_hash (svc_file s)) = 0
                    then install_into env fresh consider origin_file s else Some s);
          Some (insert_name url znr s) })"

definition probe_origins ::
    "'d zenv \<Rightarrow> (nat \<Rightarrow> bytes) \<Rightarrow> zconf \<Rightarrow> (waiter \<Rightarrow> 'd service \<Rightarrow> 'd service option)
       \<Rightarrow> bytes \<Rightarrow> 'd service \<Rightarrow> 'd service option" where
  "probe_origins env fresh conf consider url s = probe_origins_loop env fresh consider url (origins conf) s"

definition probe_origins_for_hash ::
    "'d zenv \<Rightarrow> (nat \<Rightarrow> bytes) \<Rightarrow> zconf \<Rightarrow> (waiter \<Rightarrow> 'd service \<Rightarrow> 'd service option)
       \<Rightarrow> bytes \<Rightarrow> hash_t \<Rightarrow> 'd service \<Rightarrow> (bool \<times> 'd service) option" where
  "probe_origins_for_hash env fresh conf consider url h s = do {
     (known_hash, s) \<leftarrow> known_validated_hash conf url s;
     (if (case known_hash of None \<Rightarrow> False | Some k \<Rightarrow> cmp_hash k h \<noteq> 0) then Some (False, s)
      else do {
        s \<leftarrow> probe_origins env fresh conf consider url s;
        (known_hash, s) \<leftarrow> known_validated_hash conf url s;
        k \<leftarrow> known_hash;
        Some (cmp_hash k h = 0, s) }) }"

definition build_server_request ::
    "zconf \<Rightarrow> u32 \<Rightarrow> ZCachedFile \<Rightarrow> DataRange \<Rightarrow> ZFileRequest \<Rightarrow> (OutboundRequest \<times> ZCachedFile) option" where
  "build_server_request conf max_payload f missing_set req =
     (if metadata_state f \<noteq> v_validated then do {
        obr \<leftarrow> OutboundRequest_new (client_context conf) (get_hash req) (rq_url_hint req) 1 0 DataRange_empty;
        obr \<leftarrow> set_location obr 0 0;
        Some (obr, f) }
      else do {
        lite_assert (dr_size missing_set > 0);
        builder \<leftarrow> RequestBuilder_new f missing_set max_payload;
        obr \<leftarrow> as_outbound_request f builder (client_context conf);
        _ \<leftarrow> RequestBuilder_delete builder;
        Some (obr, f\<lparr>requesting_data_mode := requested_any_data builder\<rparr>) })"

definition issue_server_request ::
    "'d zenv \<Rightarrow> (nat \<Rightarrow> bytes) \<Rightarrow> zconf \<Rightarrow> (waiter \<Rightarrow> 'd service \<Rightarrow> 'd service option)
       \<Rightarrow> DataRange \<Rightarrow> waiter \<Rightarrow> 'd service \<Rightarrow> 'd service option" where
  "issue_server_request env fresh conf consider missing_set waiting_req s =
     (let req = snd waiting_req in
      if cmp_hash (get_hash req) get_zero_hash = 0 then
        Some (error_reply waiting_req zftp_reply_error_yeah_that_is_zero
          (cstr ''Request asks to invert the zero hash.'') s)
      else case client_max_payload conf of
        Some max_payload \<Rightarrow> do {
          (obr, f) \<leftarrow> build_server_request conf max_payload (svc_file s) missing_set req;
          Some (insert_waiter waiting_req (s\<lparr>svc_file := f, svc_issued := svc_issued s @ [obr]\<rparr>)) }
      | None \<Rightarrow>
          (case (rq_url_hint req, has_origins conf) of
             (Some url_hint, True) \<Rightarrow> do {
               (hash_match, s) \<leftarrow> probe_origins_for_hash env fresh conf consider url_hint (file_hash (svc_file s)) s;
               Some (if hash_match then s
                     else error_reply waiting_req zftp_reply_error_incorrect_hash_for_url
                            (cstr ''Provided url_hint doesn't map to requested hash.'') s) }
           | _ \<Rightarrow> Some (error_reply waiting_req zftp_reply_hint_required
                          (cstr ''No back-end origin. This message probably not helpful.'') s)))"

definition check_disk ::
    "'d zenv \<Rightarrow> (nat \<Rightarrow> bytes) \<Rightarrow> (waiter \<Rightarrow> 'd service \<Rightarrow> 'd service option) \<Rightarrow> 'd service \<Rightarrow> 'd service option" where
  "check_disk env fresh consider s =
     (if status (svc_file s) = zcs_ignorant then do {
        zcf_image \<leftarrow> retrieve_file env (svc_fileDB s) (file_hash (svc_file s));
        (case zcf_image of
           None \<Rightarrow> Some s
         | Some img \<Rightarrow> install_image env fresh consider img zcs_clean s) }
      else Some s)"

definition look_for_missing ::
    "'d zenv \<Rightarrow> zconf \<Rightarrow> ZFileRequest \<Rightarrow> 'd service \<Rightarrow> (bool \<times> DataRange \<times> 'd service) option" where
  "look_for_missing env conf req s =
     (if metadata_state (svc_file s) = v_validated then do {
        (missing_set, bc) \<leftarrow> compute_missing_set env conf (svc_file s) (svc_blocks s) (rq_data_range req);
        Some (\<not> is_empty missing_set, missing_set, s\<lparr>svc_blocks := bc\<rparr>) }
      else Some (True, DataRange_empty, s))"

text \<open>
  The number bounds the depth of calls back into \<^verbatim>\<open>_consider_request_nolock\<close>; \<open>deeper\<close> stands for what a call
  beyond that depth does.
\<close>

primrec consider_request_nolock ::
    "(waiter \<Rightarrow> 'd service \<Rightarrow> 'd service option) \<Rightarrow> nat \<Rightarrow> 'd zenv \<Rightarrow> (nat \<Rightarrow> bytes) \<Rightarrow> zconf
       \<Rightarrow> waiter \<Rightarrow> 'd service \<Rightarrow> 'd service option" where
  "consider_request_nolock deeper 0 env fresh conf req s = deeper req s"
| "consider_request_nolock deeper (Suc depth) env fresh conf req s = do {
     let consider = consider_request_nolock deeper depth env fresh conf;
     s \<leftarrow> check_disk env fresh consider s;
     (missing_info, missing_set, s) \<leftarrow> look_for_missing env conf (snd req) s;
     (if missing_info then issue_server_request env fresh conf consider missing_set req s
      else Some (deliver_result req ValidFileResult s)) }"

definition consider_request ::
    "'d zenv \<Rightarrow> (nat \<Rightarrow> bytes) \<Rightarrow> zconf \<Rightarrow> waiter \<Rightarrow> 'd service \<Rightarrow> 'd service option" where
  "consider_request env fresh conf req s = consider_request_nolock (\<lambda>req s. None) 2 env fresh conf req s"

fun remove_waiter :: "request_ptr \<Rightarrow> waiter list \<Rightarrow> waiter list" where
  "remove_waiter p [] = []"
| "remove_waiter p (w # ws) = (if fst w = p then ws else w # remove_waiter p ws)"

definition withdraw_request :: "request_ptr \<Rightarrow> 'd service \<Rightarrow> 'd service" where
  "withdraw_request p s =
     (if p \<in> fst ` set (waiters (svc_file s))
      then s\<lparr>svc_file := (svc_file s)\<lparr>waiters := remove_waiter p (waiters (svc_file s))\<rparr>\<rparr>
      else s)"

definition install_reply ::
    "'d zenv \<Rightarrow> (nat \<Rightarrow> bytes) \<Rightarrow> zconf \<Rightarrow> ZFileReplyFromServer \<Rightarrow> 'd service \<Rightarrow> 'd service option" where
  "install_reply env fresh conf reply s = do {
     (outcome, f, bc) \<leftarrow> take_in_reply env (svc_file s) (svc_blocks s) reply;
     let s = s\<lparr>svc_file := f, svc_blocks := bc\<rparr>;
     (case outcome of
        None \<Rightarrow> Some s
      | Some caused_change \<Rightarrow>
          if caused_change then do {
            s \<leftarrow> signal_waiters (consider_request env fresh conf)
                   (s\<lparr>svc_file := f\<lparr>progress_counter := progress_counter f + 1\<rparr>\<rparr>);
            update_status env fresh zcs_dirty s }
          else Some s) }"

section \<open>Every request is accounted for\<close>

text \<open>Taking a reply in leaves the queue alone.\<close>

lemma waiters_tree_set [simp]: "waiters (tree_set f loc v) = waiters f"
  by (simp add: tree_set_def)

lemma waiters_configure [simp]: "waiters (configure_from_metadata f) = waiters f"
  by (simp add: configure_from_metadata_def Let_def)

lemma waiters_track:
  assumes "track_parent_of_tentative_nodes f p = Some f'"
  shows "waiters f' = waiters f"
proof -
  have "f' = f \<or> (\<exists>ht. f' = f\<lparr>parents_of_tentative_nodes := ht\<rparr>)"
    using assms unfolding track_parent_of_tentative_nodes_def
    by (simp add: Option.bind_eq_Some_conv split: if_split_asm) metis+
  then show ?thesis by auto
qed

lemma waiters_mark: "mark_node_tentative env f loc = Some f' \<Longrightarrow> waiters f' = waiters f"
proof (induction "unat loc" arbitrary: f loc rule: less_induct)
  case less
  obtain vmr where vmr: "tree_at f loc = Some vmr" "vmr_state vmr \<noteq> v_validated"
    using less.prems by (auto simp: mark_node_tentative.simps [of env f loc] opt_simps)
  let ?f1 = "tree_set f loc (vmr\<lparr>vmr_state := v_tentative\<rparr>)" and ?p = "parent_location loc"
  show ?case
  proof (cases "loc > 0")
    case True
    have small: "unat ?p < unat loc"
      using True unat_parent_location [of loc] tree_at_less [OF vmr(1)] by (simp add: word_less_nat_alt)
    obtain f2 sib parent and sibling :: ValidatedMerkleRecord where t: "track_parent_of_tentative_nodes ?f1 ?p = Some f2"
        and r: "(if vmr_state parent = v_unknown \<and> vmr_state sibling \<noteq> v_unknown
          then hash_children env f2 loc sib \<bind>
            (\<lambda>h. mark_node_tentative env (tree_set f2 ?p (parent\<lparr>vmr_hash := h\<rparr>)) ?p)
          else Some f2) = Some f'"
      using less.prems vmr True
      by (simp add: mark_node_tentative.simps [of env f loc] Let_def Option.bind_eq_Some_conv) blast
    have "waiters f2 = waiters f" using waiters_track [OF t] by simp
    moreover have "waiters f' = waiters f2"
      using r less.hyps [OF small] by (auto simp: Option.bind_eq_Some_conv split: if_splits)
    ultimately show ?thesis by simp
  next
    case False
    then show ?thesis
      using less.prems vmr by (auto simp: mark_node_tentative.simps [of env f loc] Let_def Option.bind_eq_Some_conv)
  qed
qed

lemma waiters_records: "install_merkle_records_loop env zmrs c f = Some (c', f') \<Longrightarrow> waiters f' = waiters f"
proof (induction zmrs arbitrary: c f)
  case (Cons zmr zmrs)
  obtain vmr where vmr: "tree_at f (z_ntohl (tree_location zmr)) = Some vmr"
    using Cons.prems by (auto simp: Let_def opt_simps)
  then show ?case
    using Cons by (cases "vmr_state vmr") (auto simp: Let_def opt_simps dest!: waiters_mark)
qed simp

lemma waiters_validate_children: "validate_children env f p = Some (r, f') \<Longrightarrow> waiters f' = waiters f"
  by (auto simp: validate_children_def mark_hash_validated_def Let_def opt_simps split: if_splits)

lemma waiters_validate_parents: "validate_parents env ps r f = Some (r', f') \<Longrightarrow> waiters f' = waiters f"
  by (induction ps arbitrary: r f) (auto simp: opt_simps dest!: waiters_validate_children)

lemma waiters_take_in:
  assumes "take_in_reply env f bc reply = Some (r, f', bc')"
  shows "waiters f' = waiters f"
proof -
  obtain ir f1 where m: "install_metadata env f reply = (ir, f1)" by fastforce
  then have "waiters f1 = waiters f"
    by (auto simp: install_metadata_def Let_def split: if_splits option.splits)
  then show ?thesis
    using assms
    by (auto simp: take_in_reply_def m install_merkle_records_def validate_tentative_hashes_def Let_def opt_simps
        dest!: waiters_records waiters_validate_parents split: InstallResult.splits)
qed

text \<open>The requests a service has to answer or has answered.\<close>

definition accounted :: "'d service \<Rightarrow> request_ptr multiset" where
  "accounted s = mset (map fst (waiters (svc_file s))) + mset (map fst (svc_delivered s))"

definition probing :: "zconf \<Rightarrow> bool" where
  "probing conf \<longleftrightarrow> client_max_payload conf = None \<and> has_origins conf"

definition accepts :: "(waiter \<Rightarrow> 'd service \<Rightarrow> 'd service option) \<Rightarrow> bool" where
  "accepts consider \<longleftrightarrow> (\<forall>w s s'. consider w s = Some s' \<longrightarrow> accounted s' = add_mset (fst w) (accounted s))"

lemma accounted_answers [simp]:
  "accounted (deliver_result w r s) = add_mset (fst w) (accounted s)"
  "accounted (error_reply w c m s) = add_mset (fst w) (accounted s)"
  "accounted (insert_waiter w s) = add_mset (fst w) (accounted s)"
  by (simp_all add: accounted_def error_reply_def deliver_result_def insert_waiter_def)

lemma accounted_update_status: "update_status env fresh new_status s = Some s' \<Longrightarrow> accounted s' = accounted s"
  by (auto simp: update_status_def accounted_def opt_simps split: if_splits)

lemma accounted_consider_each:
  "accepts consider \<Longrightarrow> consider_each consider ws s = Some s' \<Longrightarrow> accounted s' = mset (map fst ws) + accounted s"
  by (induction ws arbitrary: s) (auto simp: opt_simps accepts_def)

lemma accounted_signal_waiters:
  assumes "accepts consider" and "signal_waiters consider s = Some s'"
  shows "accounted s' = accounted s"
  using accounted_consider_each [OF assms(1) assms(2) [unfolded signal_waiters_def]] by (simp add: accounted_def)

lemma accounted_install_image:
  assumes "accepts consider" and "install_image env fresh consider img new_status s = Some s'"
  shows "accounted s' = accounted s"
  using assms
  by (auto simp: install_image_def Let_def opt_simps dest!: accounted_signal_waiters accounted_update_status
      split: if_splits) (auto simp: accounted_def)

lemma waiters_build_server_request:
  "build_server_request conf m f missing req = Some (obr, f') \<Longrightarrow> waiters f' = waiters f"
  by (auto simp: build_server_request_def opt_simps split: if_splits)

lemma accounted_issue:
  assumes "\<not> probing conf" and "issue_server_request env fresh conf consider missing w s = Some s'"
  shows "accounted s' = add_mset (fst w) (accounted s)"
  using assms
  by (auto simp: issue_server_request_def probing_def Let_def opt_simps dest!: waiters_build_server_request
      split: if_splits option.splits) (auto simp: accounted_def)

lemma consider_accepts:
  assumes "\<not> probing conf" and "accepts deeper"
  shows "accepts (consider_request_nolock deeper depth env fresh conf)"
proof (induction depth)
  case 0
  then show ?case using assms(2) by (simp add: accepts_def)
next
  case (Suc depth)
  let ?c = "consider_request_nolock deeper depth env fresh conf"
  have "accounted s' = add_mset (fst w) (accounted s)"
    if step: "consider_request_nolock deeper (Suc depth) env fresh conf w s = Some s'" for w s s'
  proof -
    obtain s1 missing_info missing_set s2 where s1: "check_disk env fresh ?c s = Some s1"
        and s2: "look_for_missing env conf (snd w) s1 = Some (missing_info, missing_set, s2)"
        and s': "(if missing_info then issue_server_request env fresh conf ?c missing_set w s2
                  else Some (deliver_result w ValidFileResult s2)) = Some s'"
      using step by (auto simp: opt_simps Let_def)
    have "accounted s1 = accounted s"
      using s1 accounted_install_image [OF Suc.IH]
      by (auto simp: check_disk_def opt_simps split: if_splits option.splits)
    moreover have "accounted s2 = accounted s1"
      using s2 by (auto simp: look_for_missing_def opt_simps accounted_def split: if_splits)
    ultimately show ?thesis
      using s' accounted_issue [OF assms(1), of env fresh ?c missing_set w s2 s'] by (auto split: if_splits)
  qed
  then show ?case by (simp add: accepts_def)
qed

lemma consider_request_accepts: "\<not> probing conf \<Longrightarrow> accepts (consider_request env fresh conf)"
  using consider_accepts [of conf "\<lambda>req s. None" 2 env fresh]
  by (simp add: accepts_def consider_request_def)

section \<open>The depth of calls back\<close>

abbreviation file_known :: "'d service \<Rightarrow> bool" where
  "file_known s \<equiv> metadata_state (svc_file s) = v_validated"

lemma install_image_known:
  "file_known s \<Longrightarrow> install_image env fresh c img new_status s = install_image env fresh c' img new_status s"
  by (simp add: install_image_def)

lemma file_known_install_image:
  "file_known s \<Longrightarrow> install_image env fresh c img new_status s = Some s' \<Longrightarrow> s' = s"
  by (auto simp: install_image_def Let_def opt_simps)

lemma check_disk_known: "file_known s \<Longrightarrow> check_disk env fresh c s = check_disk env fresh c' s"
  unfolding check_disk_def using install_image_known [of s env fresh c _ zcs_clean c'] by simp

lemma file_known_check_disk: "file_known s \<Longrightarrow> check_disk env fresh c s = Some s' \<Longrightarrow> s' = s"
  by (auto simp: check_disk_def opt_simps dest: file_known_install_image split: if_splits option.splits)

lemma look_for_missing_file: "look_for_missing env conf req s = Some (i, m, s') \<Longrightarrow> svc_file s' = svc_file s"
  by (auto simp: look_for_missing_def opt_simps split: if_splits)

lemma probe_cong:
  assumes "\<And>img. install_image env fresh c img zcs_dirty s = install_image env fresh c' img zcs_dirty s"
  shows "probe_origins_loop env fresh c url os s = probe_origins_loop env fresh c' url os s"
  by (induction os) (simp_all add: install_into_def assms split: option.split)

lemma known_validated_hash_file: "known_validated_hash conf url s = Some (k, s') \<Longrightarrow> \<exists>names. s' = s\<lparr>svc_names := names\<rparr>"
  by (auto simp: known_validated_hash_def opt_simps)

lemma issue_cong:
  assumes "\<And>img names. install_image env fresh c img zcs_dirty (s\<lparr>svc_names := names\<rparr>)
      = install_image env fresh c' img zcs_dirty (s\<lparr>svc_names := names\<rparr>)"
  shows "issue_server_request env fresh conf c m w s = issue_server_request env fresh conf c' m w s"
proof -
  have probe: "probe_origins_for_hash env fresh conf c url h s = probe_origins_for_hash env fresh conf c' url h s" for url h
  proof (cases "known_validated_hash conf url s")
    case (Some r)
    obtain k s1 where r: "r = (k, s1)" by (cases r)
    then obtain names where "s1 = s\<lparr>svc_names := names\<rparr>" using Some known_validated_hash_file by blast
    then have "probe_origins env fresh conf c url s1 = probe_origins env fresh conf c' url s1"
      unfolding probe_origins_def using probe_cong assms by blast
    then show ?thesis by (simp add: probe_origins_for_hash_def Some r)
  qed (simp add: probe_origins_for_hash_def)
  show ?thesis unfolding issue_server_request_def probe ..
qed

lemma issue_known:
  "file_known s \<Longrightarrow> issue_server_request env fresh conf c m w s = issue_server_request env fresh conf c' m w s"
  by (rule issue_cong) (rule install_image_known, simp)

lemma file_known_answers [simp]:
  "file_known (deliver_result w r s) = file_known s"
  "file_known (error_reply w e msg s) = file_known s"
  "file_known (insert_waiter w s) = file_known s"
  by (simp_all add: deliver_result_def error_reply_def insert_waiter_def)

lemma file_known_build: "build_server_request conf m f r req = Some (obr, f') \<Longrightarrow> metadata_state f' = metadata_state f"
  by (auto simp: build_server_request_def opt_simps split: if_splits)

lemma file_known_probe_loop:
  assumes "file_known s" and "probe_origins_loop env fresh c url os s = Some s'"
  shows "file_known s'"
proof -
  have "file_known t" if "install_image env fresh c img zcs_dirty s = Some t" for img t
    using file_known_install_image [OF assms(1) that] assms(1) by simp
  then show ?thesis
    using assms
    by (induction os) (auto simp: insert_name_def install_into_def opt_simps split: option.splits if_splits)
qed

lemma file_known_probe:
  assumes "file_known s" and "probe_origins_for_hash env fresh conf c url h s = Some (r, s')"
  shows "file_known s'"
proof -
  have names: "file_known t'" if "known_validated_hash conf url t = Some (k, t')" "file_known t" for k and t t' :: "'a service"
    using known_validated_hash_file [OF that(1)] that(2) by auto
  show ?thesis
    using assms unfolding probe_origins_for_hash_def probe_origins_def
    by (auto simp: opt_simps dest: names file_known_probe_loop split: if_splits)
qed

lemma file_known_issue:
  assumes "file_known s" and "issue_server_request env fresh conf c m w s = Some s'"
  shows "file_known s'"
  using assms
  by (auto simp: issue_server_request_def Let_def opt_simps dest: file_known_build file_known_probe
      split: if_splits option.splits bool.splits)

lemma consider_known:
  assumes "file_known s"
  shows "consider_request_nolock d (Suc n) env fresh conf w s = consider_request_nolock d' (Suc k) env fresh conf w s"
proof (cases "check_disk env fresh (consider_request_nolock d' k env fresh conf) s")
  case None
  then have disk: "check_disk env fresh c s = None" for c using check_disk_known [OF assms, of env fresh] by metis
  show ?thesis by (simp add: Let_def disk)
next
  case (Some s1)
  then have "s1 = s" by (rule file_known_check_disk [OF assms])
  then have disk: "check_disk env fresh c s = Some s" for c using Some check_disk_known [OF assms, of env fresh] by metis
  show ?thesis
  proof (cases "look_for_missing env conf (snd w) s")
    case (Some r)
    obtain i m s2 where r: "r = (i, m, s2)" by (cases r)
    have "file_known s2" using look_for_missing_file [OF Some [unfolded r]] assms by simp
    then show ?thesis
      using Some issue_known [of s2 env fresh conf "consider_request_nolock d n env fresh conf" m w
          "consider_request_nolock d' k env fresh conf"]
      by (simp add: Let_def disk r)
  qed (simp add: Let_def disk)
qed

lemma file_known_consider:
  assumes "file_known s" and "consider_request_nolock d (Suc k) env fresh conf w s = Some s'"
  shows "file_known s'"
proof -
  let ?c = "consider_request_nolock d k env fresh conf"
  obtain s1 i m s2 where "check_disk env fresh ?c s = Some s1" "look_for_missing env conf (snd w) s1 = Some (i, m, s2)"
      and s': "(if i then issue_server_request env fresh conf ?c m w s2
                else Some (deliver_result w ValidFileResult s2)) = Some s'"
    using assms(2) by (auto simp: opt_simps Let_def)
  then have "file_known s2"
    using assms(1) file_known_check_disk [OF assms(1)] look_for_missing_file by metis
  then show ?thesis
    using s' file_known_issue [of s2 env fresh conf ?c m w s'] by (auto split: if_splits)
qed

lemma consider_each_known:
  "file_known s \<Longrightarrow> consider_each (consider_request_nolock d (Suc n) env fresh conf) ws s
     = consider_each (consider_request_nolock d' (Suc k) env fresh conf) ws s"
proof (induction ws arbitrary: s)
  case (Cons w ws)
  show ?case
    using Cons.IH file_known_consider [OF Cons.prems] consider_known [OF Cons.prems, of d n env fresh conf w d' k]
    by (cases "consider_request_nolock d' (Suc k) env fresh conf w s") (simp_all del: consider_request_nolock.simps)
qed simp

lemma install_image_depth:
  "install_image env fresh (consider_request_nolock d (Suc n) env fresh conf) img new_status s
     = install_image env fresh (consider_request_nolock d' (Suc k) env fresh conf) img new_status s"
proof -
  have "signal_waiters (consider_request_nolock d (Suc n) env fresh conf) s2
      = signal_waiters (consider_request_nolock d' (Suc k) env fresh conf) s2"
    if "update_status env fresh new_status s1 = Some s2" and "file_known s1" for s1 s2
    using that unfolding signal_waiters_def
    by (intro consider_each_known) (auto simp: update_status_def opt_simps split: if_splits)
  then show ?thesis
    unfolding install_image_def Let_def
    by (intro if_cong refl Option.bind_cong) (simp add: configure_from_metadata_def Let_def)
qed

text \<open>
  C23: considering a request ends.  Installing an image considers the waiting requests again, from within
  the consideration of a request, but never more than once: below two levels no call is ever made, since the
  outcome is the same whatever such a call would do, and whatever larger number of levels is allowed, for every
  request, state, database and content of the origins.
\<close>

theorem consider_depth_two:
  "consider_request_nolock deeper (Suc (Suc n)) env fresh conf w s = consider_request env fresh conf w s"
proof -
  let ?d = "\<lambda>req s. None"
  let ?c = "consider_request_nolock deeper (Suc n) env fresh conf" and ?e = "consider_request_nolock ?d (Suc 0) env fresh conf"
  have eq: "install_image env fresh ?c img new_status t = install_image env fresh ?e img new_status t" for img new_status t
    by (rule install_image_depth)
  have disk: "check_disk env fresh ?c t = check_disk env fresh ?e t" for t
    unfolding check_disk_def eq ..
  have issue: "issue_server_request env fresh conf ?c m v t = issue_server_request env fresh conf ?e m v t" for m v t
    by (rule issue_cong) (rule eq)
  show ?thesis
    unfolding consider_request_def numeral_2_eq_2 consider_request_nolock.simps(2) [of deeper "Suc n"]
      consider_request_nolock.simps(2) [of ?d "Suc 0"] Let_def disk issue ..
qed

section \<open>Sequences of operations\<close>

datatype service_op = Consider waiter | Withdraw request_ptr | Reply ZFileReplyFromServer

primrec service_step ::
    "'d zenv \<Rightarrow> (nat \<Rightarrow> bytes) \<Rightarrow> zconf \<Rightarrow> service_op \<Rightarrow> 'd service \<Rightarrow> 'd service option" where
  "service_step env fresh conf (Consider w) s = consider_request env fresh conf w s"
| "service_step env fresh conf (Withdraw p) s = Some (withdraw_request p s)"
| "service_step env fresh conf (Reply reply) s = install_reply env fresh conf reply s"

primrec service_run ::
    "'d zenv \<Rightarrow> (nat \<Rightarrow> bytes) \<Rightarrow> zconf \<Rightarrow> service_op list \<Rightarrow> 'd service \<Rightarrow> 'd service option" where
  "service_run env fresh conf [] s = Some s"
| "service_run env fresh conf (a # as) s = do { s \<leftarrow> service_step env fresh conf a s; service_run env fresh conf as s }"

primrec considered :: "service_op \<Rightarrow> request_ptr multiset" where
  "considered (Consider w) = {#fst w#}"
| "considered (Withdraw p) = {#}"
| "considered (Reply reply) = {#}"

lemma mset_remove_waiter: "mset (map fst (remove_waiter p ws)) = mset (map fst ws) - {#p#}"
  by (induction ws) auto

lemma accounted_install_reply:
  assumes "\<not> probing conf" and "install_reply env fresh conf reply s = Some s'"
  shows "accounted s' = accounted s"
proof -
  obtain outcome f bc where t: "take_in_reply env (svc_file s) (svc_blocks s) reply = Some (outcome, f, bc)"
    using assms(2) by (auto simp: install_reply_def opt_simps)
  let ?c = "consider_request env fresh conf" and ?s = "s\<lparr>svc_file := f, svc_blocks := bc\<rparr>"
  have same: "accounted (?s\<lparr>svc_file := f\<lparr>progress_counter := k\<rparr>\<rparr>) = accounted s" "accounted ?s = accounted s" for k
    using waiters_take_in [OF t] by (simp_all add: accounted_def)
  show ?thesis
  proof (cases "outcome = Some True")
    case True
    then obtain s1 where "signal_waiters ?c (?s\<lparr>svc_file := f\<lparr>progress_counter := progress_counter f + 1\<rparr>\<rparr>) = Some s1"
        "update_status env fresh zcs_dirty s1 = Some s'"
      using assms(2) t by (auto simp: install_reply_def opt_simps Let_def)
    then show ?thesis
      using same accounted_signal_waiters [OF consider_request_accepts [OF assms(1)]] accounted_update_status by metis
  next
    case False
    then have "s' = ?s" using assms(2) t by (auto simp: install_reply_def Let_def split: option.splits if_splits)
    then show ?thesis using same(2) by simp
  qed
qed

lemma accounted_step:
  assumes "\<not> probing conf" and "service_step env fresh conf a s = Some s'"
  shows "accounted s' \<subseteq># accounted s + considered a"
    and "a \<noteq> Withdraw p \<Longrightarrow> count (accounted s') p = count (accounted s) p + count (considered a) p"
proof -
  have cases: "accounted s' = accounted s + considered a
      \<or> (\<exists>q. a = Withdraw q \<and> (accounted s' = accounted s \<or> q \<in># accounted s \<and> accounted s' = accounted s - {#q#}))"
  proof (cases a)
    case (Consider w)
    then have "accounted s' = add_mset (fst w) (accounted s)"
      using assms(2) consider_request_accepts [OF assms(1), of env fresh]
      unfolding accepts_def by (metis service_step.simps(1))
    then show ?thesis using Consider by simp
  next
    case (Withdraw q)
    have "accounted (withdraw_request q s) = accounted s \<or> q \<in># accounted s \<and> accounted (withdraw_request q s) = accounted s - {#q#}"
      by (auto simp: withdraw_request_def accounted_def mset_remove_waiter simp flip: mset_map)
    then show ?thesis using assms(2) Withdraw by auto
  next
    case (Reply reply)
    then show ?thesis using assms accounted_install_reply by auto
  qed
  show "accounted s' \<subseteq># accounted s + considered a" using cases by (auto simp: subset_eq_diff_conv)
  show "count (accounted s') p = count (accounted s) p + count (considered a) p" if "a \<noteq> Withdraw p"
    using cases that by (auto split: if_splits)
qed

lemma accounted_run:
  assumes "\<not> probing conf" and "service_run env fresh conf ops s = Some s'"
  shows "accounted s' \<subseteq># accounted s + \<Sum>\<^sub># (mset (map considered ops))
    \<and> (Withdraw p \<notin> set ops \<longrightarrow> count (accounted s') p
         = count (accounted s) p + count (\<Sum>\<^sub># (mset (map considered ops))) p)"
  using assms(2)
proof (induction ops arbitrary: s)
  case (Cons a ops)
  then obtain t where t: "service_step env fresh conf a s = Some t" "service_run env fresh conf ops t = Some s'"
    by (auto simp: opt_simps)
  note step = accounted_step [OF assms(1) t(1)]
  show ?case
    using Cons.IH [OF t(2)] step(1) step(2) [of p] subset_mset.add_right_mono [OF step(1)]
    by (auto simp: ac_simps intro: subset_mset.trans)
qed simp

text \<open>
  C12: no request is lost or answered twice.  When the cache has a server to ask, or no origins, then after
  any sequence of considered and withdrawn requests and replies from the server, every request that was
  considered and not withdrawn is either still waiting or was delivered exactly one result, and nothing
  else waits or is delivered.
\<close>

theorem requests_accounted:
  assumes "\<not> probing conf" and "service_run env fresh conf ops s = Some s'"
  shows "(\<forall>p. Withdraw p \<notin> set ops \<longrightarrow>
        count (mset (map fst (waiters (svc_file s'))) + mset (map fst (svc_delivered s'))) p
      = count (mset (map fst (waiters (svc_file s))) + mset (map fst (svc_delivered s))) p
        + count (\<Sum>\<^sub># (mset (map considered ops))) p)
    \<and> mset (map fst (waiters (svc_file s'))) + mset (map fst (svc_delivered s'))
        \<subseteq># mset (map fst (waiters (svc_file s))) + mset (map fst (svc_delivered s)) + \<Sum>\<^sub># (mset (map considered ops))"
  using accounted_run [OF assms] unfolding accounted_def by blast

definition sample_conf :: zconf where
  "sample_conf = \<lparr>client_max_payload = Some 65400, client_context = \<lparr>state_id = 0, seq_id = 0\<rparr>,
     origins = [], retrieve_name = (\<lambda>url. None), origin_validate = (\<lambda>origin url seal. Some True)\<rparr>"

definition sample_request :: ZFileRequest where
  "sample_request = \<lparr>rq_bytes = [], rq_zrp = ZFTPRequestPacketInit 0 5 0 0 \<lparr>state_id = 0, seq_id = 0\<rparr> 0 65536,
     rq_num_tree_locations = 0, rq_padding_request = 0, rq_compression_context = \<lparr>state_id = 0, seq_id = 0\<rparr>,
     rq_data_range = DataRange_of 0 65536, rq_url_hint = None\<rparr>"

definition sample_service :: "(hash_t \<Rightarrow> bytes option) service" where
  "sample_service = \<lparr>svc_file = ZCachedFile_new 5, svc_blocks = ZBlockCache_init None, svc_fileDB = None,
     svc_issued = [], svc_delivered = [], svc_names = (\<lambda>url. ZCachedName_new)\<rparr>"

lemma consider_request_levels:
  "consider_request env fresh conf w s = consider_request_nolock (\<lambda>req s. None) (Suc (Suc 0)) env fresh conf w s"
  unfolding consider_request_def numeral_2_eq_2 ..

theorem requests_accounted_witness:
  "\<exists>s'. service_run sample_env (\<lambda>n. replicate n 0) sample_conf [Consider (7, sample_request), Withdraw 8] sample_service
       = Some s'
     \<and> count (mset (map fst (waiters (svc_file s'))) + mset (map fst (svc_delivered s'))) 7 = 1"
proof -
  let ?ops = "[Consider (7, sample_request), Withdraw 8]"
  obtain s' where s': "service_run sample_env (\<lambda>n. replicate n 0) sample_conf ?ops sample_service = Some s'"
    by (simp add: consider_request_levels check_disk_def retrieve_file_def look_for_missing_def
        issue_server_request_def build_server_request_def OutboundRequest_new_def set_location_def get_hash_def
        sample_request_def sample_service_def sample_conf_def ZFTPRequestPacketInit_def ZCachedFile_new_def
        zcf_ctor_init_def Let_def)
  have "\<not> probing sample_conf" by (simp add: probing_def sample_conf_def)
  then show ?thesis
    using requests_accounted [OF _ s'] s' by (auto simp: sample_service_def ZCachedFile_new_def zcf_ctor_init_def)
qed

end
