(* ===== verification/File_Answers.thy ===== *)
theory File_Answers
  imports File_Service
begin

text \<open>
  What the answers of the file service hold: the missing set is empty exactly when the blocks of the request
  are there, a reply is then filled without an assertion, and the client that parses it finds the bytes of
  the file and the hashes it asked for.
\<close>

section \<open>Looking blocks up in memory\<close>

text \<open>The block cache without a database behind it.\<close>

definition memory_cache :: "'d zenv \<Rightarrow> 'd ZBlockCache \<Rightarrow> bool" where
  "memory_cache env bc \<longleftrightarrow> bc_ok env bc \<and> zblockDB bc = None"

definition valid_in :: "'d ZBlockCache \<Rightarrow> hash_t \<Rightarrow> bool" where
  "valid_in bc h \<longleftrightarrow> (\<exists>z. blocks bc h = Some z \<and> zbcr_valid z)"

abbreviation leaf_hash :: "ZCachedFile \<Rightarrow> nat \<Rightarrow> hash_t" where
  "leaf_hash f b \<equiv> hs f (pos (tree_depth f) b)"

lemma block_lookup_memory:
  assumes "memory_cache env bc"
  obtains bc' where "block_lookup_nolock env bc h = Some (if blocks bc h = None then None else Some h, bc')"
    and "memory_cache env bc'" and "blocks bc' = blocks bc"
proof -
  obtain r ht where look: "hash_table_lookup (block_ht bc) h = (r, ht)" by (cases "hash_table_lookup (block_ht bc) h")
  have ready: "ht_ready zbcr_hash_func zbcr_cmp_func (block_ht bc)"
    and dom: "\<And>h. h \<in># ht_data (block_ht bc) \<longleftrightarrow> blocks bc h \<noteq> None"
    using assms by (auto simp: memory_cache_def bc_ok_def)
  note l = ht_ready_lookup [OF ready look]
  have "memory_cache env (bc\<lparr>block_ht := ht\<rparr>)" using l assms by (simp add: memory_cache_def bc_ok_def db_ok_def)
  moreover have "block_lookup_nolock env bc h = Some (if blocks bc h = None then None else Some h, bc\<lparr>block_ht := ht\<rparr>)"
    using look l dom [of h] assms
    by (cases r) (auto simp: block_lookup_nolock_def zbcr_cmp_func_def memory_cache_def retrieve_block_def)
  ultimately show thesis using that [of "bc\<lparr>block_ht := ht\<rparr>"] by simp
qed

lemma block_insert_memory:
  assumes "memory_cache env bc" and "zbcr_ok env z" and "zbcr_hash z = h" and "blocks bc h = None"
  obtains bc' where "block_insert env bc z = Some (True, bc')" and "memory_cache env bc'" and "blocks bc' = (blocks bc)(h \<mapsto> z)"
proof -
  obtain bc1 where bc1: "block_lookup_nolock env bc h = Some (None, bc1)" "memory_cache env bc1" "blocks bc1 = blocks bc"
    using block_lookup_memory [OF assms(1), of h] assms(4) by auto
  have ready: "ht_ready zbcr_hash_func zbcr_cmp_func (block_ht bc1)" "h \<notin># ht_data (block_ht bc1)"
    using bc1(2,3) assms(4) by (auto simp: memory_cache_def bc_ok_def)
  obtain ht where ht: "hash_table_insert (block_ht bc1) h = Some ht" "ht_ready zbcr_hash_func zbcr_cmp_func ht"
      "ht_data ht = add_mset h (ht_data (block_ht bc1))"
    by (rule ht_insert_hash [OF ready])
  let ?bc = "bc1\<lparr>block_ht := ht, blocks := (blocks bc1)(h \<mapsto> z), zblockDB := None\<rparr>"
  have "block_insert env bc z = Some (True, ?bc)"
    using bc1 ht(1) assms(3) by (simp add: block_insert_def store_block_def memory_cache_def)
  moreover have "memory_cache env ?bc"
    using bc1(2) ht(2,3) assms(2,3) by (auto simp: memory_cache_def bc_ok_def db_ok_def)
  ultimately show thesis using that [of ?bc] bc1(3) by simp
qed

lemma block_expect_memory:
  assumes "env_ok env" and "memory_cache env bc" and "blocks bc h = None"
  obtains bc' where "block_insert env bc (zbcr_expected env h) = Some (True, bc')" and "memory_cache env bc'"
    and "blocks bc' = (blocks bc)(h \<mapsto> zbcr_expected env h)"
  using block_insert_memory [OF assms(2) conjunct1 [OF zbcr_expected_ok [OF assms(1)]] conjunct2 [OF zbcr_expected_ok [OF assms(1)]] assms(3)] .

text \<open>A file whose tree is set up and has no margin nodes, and its layout.\<close>

definition servable :: "ZCachedFile \<Rightarrow> bool" where
  "servable f \<longleftrightarrow> tree_sized f \<and> metadata_state f = v_validated \<and> (\<forall>n < nodes f. st f n \<noteq> v_margin)
     \<and> unat (get_filelen f) \<le> 65536 * 65535 \<and> unat (get_filelen f) \<le> 65536 * unat (num_blocks f)
     \<and> unat (num_blocks f) \<le> 2 ^ tree_depth f"

lemma servable_file_ok:
  assumes "file_ok env f" and "metadata_state f = v_validated" and "get_filelen f \<le> 0xffff0000"
  shows "servable f"
proof -
  have inv: "merkle_inv env None f" and nb: "num_blocks f = compute_num_blocks (get_filelen f)"
    and d: "tree_depth f = compute_tree_depth (num_blocks f)"
    using assms(1,2) by (auto simp: file_ok_def)
  have len: "unat (get_filelen f) \<le> 65536 * 65535" using assms(3) by (simp add: word_le_nat_alt)
  then have blocks: "unat (num_blocks f) = (unat (get_filelen f) + 65535) div 65536"
    unfolding nb by (intro compute_num_blocks_unat) simp
  have "unat (num_blocks f) \<le> 2 ^ tree_depth f"
    unfolding d using compute_tree_depth_least(1) [of "num_blocks f"] by (cases "unat (num_blocks f) = 0") simp_all
  moreover have "unat (get_filelen f) \<le> 65536 * unat (num_blocks f)"
    unfolding blocks using dividend_less_times_div [of 65536 "unat (get_filelen f) + 65535"] by simp
  ultimately show ?thesis using inv assms(2) len by (auto simp: servable_def merkle_inv_def)
qed

lemma find_leaf_hash:
  assumes "servable f" and "b < unat (num_blocks f)"
  shows "find_block_hash f (of_nat b) v_validated = Some (if leaf_known f b then Some (leaf_hash f b) else None)"
proof -
  have sized: "tree_sized f" and lim: "b < 2 ^ tree_depth f" using assms by (auto simp: servable_def)
  have "(2::nat) ^ tree_depth f \<le> 2 ^ 16" using sized by (intro power_increasing) (auto simp: tree_sized_def)
  then have ub: "unat (of_nat b :: u32) = b" using lim by (intro unat_of_nat_u32) simp
  obtain loc where loc: "tree_index (tree_depth f) (sint (of_nat b :: u32)) (tree_size f) = Some loc"
      "tree_at f loc = Some (tree f ! pos (tree_depth f) b)"
    using leaf_at [OF sized, of "of_nat b"] ub lim by auto
  have "pos (tree_depth f) b < nodes f"
    using pos_in_nodes [OF order_refl lim] tree_sized_nodes(1) [OF sized] by simp
  then have "st f (pos (tree_depth f) b) \<noteq> v_margin" using assms(1) by (simp add: servable_def)
  then have "st f (pos (tree_depth f) b) < v_validated \<longleftrightarrow> \<not> leaf_known f b"
    by (cases "st f (pos (tree_depth f) b)") (simp_all add: leaf_known_def less_ValidityState_def)
  then show ?thesis by (simp add: find_block_hash_def loc)
qed

text \<open>A known leaf names a block, which the cache starts to expect when it has none.\<close>

definition expected_in :: "'d zenv \<Rightarrow> 'd ZBlockCache \<Rightarrow> hash_t \<Rightarrow> ZBlockCacheRecord" where
  "expected_in env bc h = (case blocks bc h of Some z \<Rightarrow> z | None \<Rightarrow> zbcr_expected env h)"

lemma lookup_block_memory:
  assumes "env_ok env" and "memory_cache env bc" and "servable f" and "b < unat (num_blocks f)"
  shows "\<not> leaf_known f b \<Longrightarrow> lookup_block env f bc (of_nat b) v_validated = Some (None, bc)"
    and "leaf_known f b \<Longrightarrow> \<exists>bc'. lookup_block env f bc (of_nat b) v_validated = Some (Some (leaf_hash f b), bc')
      \<and> memory_cache env bc' \<and> blocks bc' = (blocks bc)(leaf_hash f b \<mapsto> expected_in env bc (leaf_hash f b))"
proof -
  note leaf = find_leaf_hash [OF assms(3,4)]
  show "\<not> leaf_known f b \<Longrightarrow> lookup_block env f bc (of_nat b) v_validated = Some (None, bc)"
    by (simp add: lookup_block_def leaf)
  assume known: "leaf_known f b"
  let ?h = "leaf_hash f b"
  obtain bc1 where bc1: "block_lookup_nolock env bc ?h = Some (if blocks bc ?h = None then None else Some ?h, bc1)"
      "memory_cache env bc1" "blocks bc1 = blocks bc"
    by (rule block_lookup_memory [OF assms(2)])
  show "\<exists>bc'. lookup_block env f bc (of_nat b) v_validated = Some (Some ?h, bc')
      \<and> memory_cache env bc' \<and> blocks bc' = (blocks bc)(?h \<mapsto> expected_in env bc ?h)"
  proof (cases "blocks bc ?h")
    case (Some z)
    then show ?thesis
      using bc1 known by (auto simp: lookup_block_def leaf block_lookup_def expected_in_def)
  next
    case None
    then obtain bc' where "block_insert env bc1 (zbcr_expected env ?h) = Some (True, bc')" "memory_cache env bc'"
        "blocks bc' = (blocks bc)(?h \<mapsto> zbcr_expected env ?h)"
      using block_expect_memory [OF assms(1) bc1(2), of ?h] bc1(3) by metis
    then show ?thesis using None bc1(1) known by (auto simp: lookup_block_def leaf block_lookup_def expected_in_def)
  qed
qed

lemma valid_in_expected: "valid_in bc' k = valid_in bc k"
  if "blocks bc' = (blocks bc)(h \<mapsto> expected_in env bc h)"
  using that by (auto simp: valid_in_def expected_in_def zbcr_expected_def zbcr_common_init_def split: option.splits)

section \<open>The missing set\<close>

definition block_ready :: "ZCachedFile \<Rightarrow> 'd ZBlockCache \<Rightarrow> nat \<Rightarrow> bool" where
  "block_ready f bc b \<longleftrightarrow> leaf_known f b \<and> valid_in bc (leaf_hash f b)"

text \<open>
  A block that is not valid has a gap before the end of the range.  It may fail for a block that another
  file shares and has partly filled.
\<close>

definition gaps_inside :: "ZCachedFile \<Rightarrow> 'd ZBlockCache \<Rightarrow> DataRange \<Rightarrow> bool" where
  "gaps_inside f bc e \<longleftrightarrow> (\<forall>b z. 65536 * b < unat (dr_end e) \<and> leaf_known f b
     \<and> blocks bc (leaf_hash f b) = Some z \<and> \<not> zbcr_valid z
     \<longrightarrow> next_gap z < ZFTP_BLOCK_SIZE \<and> 65536 * b + unat (next_gap z) < unat (dr_end e))"

lemma gaps_inside_expected:
  assumes "gaps_inside f bc e" and "blocks bc' = (blocks bc)(h \<mapsto> expected_in env bc h)"
  shows "gaps_inside f bc' e"
  using assms
  by (auto simp: gaps_inside_def expected_in_def zbcr_expected_def zbcr_common_init_def ZFTP_BLOCK_SIZE_def
      split: option.splits if_splits)

text \<open>The missing bytes collected so far: bytes of the range, of blocks that are not there.\<close>

definition missing_so_far :: "ZCachedFile \<Rightarrow> 'd ZBlockCache \<Rightarrow> DataRange \<Rightarrow> DataRange \<Rightarrow> bool" where
  "missing_so_far f bc e m \<longleftrightarrow> proper m
     \<and> (\<forall>x \<in> dr_set m. x \<in> dr_set e \<and> \<not> block_ready f bc (block_of x))"

lemma missing_so_far_cong:
  "(\<And>h. valid_in bc' h = valid_in bc h) \<Longrightarrow> missing_so_far f bc' e m = missing_so_far f bc e m"
  by (simp add: missing_so_far_def block_ready_def)

lemma accumulate_missing:
  assumes "missing_so_far f bc e m" and "s \<le> t" and "\<forall>x \<in> {s..<t}. x \<in> dr_set e \<and> \<not> block_ready f bc (block_of x)"
    and "maybe_accumulate m s t = (worked, m')"
  shows "missing_so_far f bc e m'"
    and "worked \<Longrightarrow> is_empty m' \<longleftrightarrow> is_empty m \<and> s = t" and "is_empty m \<Longrightarrow> worked"
    and "\<not> worked \<Longrightarrow> m' = m"
proof -
  show "\<not> worked \<Longrightarrow> m' = m" using assms(4) maybe_accumulate_False by auto
  show "is_empty m \<Longrightarrow> worked" using assms(4) by (auto simp: maybe_accumulate_def)
  have p: "proper m" using assms(1) by (simp add: missing_so_far_def)
  have union: "proper m' \<and> dr_set m' = dr_set m \<union> {s..<t}" if worked
    using maybe_accumulate_True [of m s t m'] assms(2,4) p that by simp
  show "missing_so_far f bc e m'"
    using union assms(1,3) \<open>\<not> worked \<Longrightarrow> m' = m\<close> by (cases worked) (auto simp: missing_so_far_def)
  show "is_empty m' \<longleftrightarrow> is_empty m \<and> s = t" if worked
    using union [OF that] p assms(2) dr_set_empty_iff [of m] dr_set_empty_iff [of m'] by auto
qed

text \<open>The words of one round, for a block inside a range that ends within the file.\<close>

lemma round_words:
  fixes start :: u32
  assumes "unat start = 65536 * b" and "b < 65535"
  shows "drop_bit ZFTP_LG_BLOCK_SIZE start = of_nat b" and "push_bit ZFTP_LG_BLOCK_SIZE (of_nat b) = start"
    and "unat (push_bit ZFTP_LG_BLOCK_SIZE (of_nat b + 1) :: u32) = 65536 * (b + 1)"
    and "\<And>x. start \<le> x \<Longrightarrow> unat x < 65536 * (b + 1) \<Longrightarrow> block_of x = b"
proof -
  have ub: "unat (of_nat b :: u32) = b" using assms(2) by (intro unat_of_nat_u32) simp
  have ub1: "unat (of_nat b + 1 :: u32) = b + 1" using ub assms(2) by (subst unat_add_one_no_wrap) simp_all
  show "drop_bit ZFTP_LG_BLOCK_SIZE start = of_nat b"
    using ub block_of_eq [of start] assms(1) by (simp add: word_unat_eq_iff)
  show "push_bit ZFTP_LG_BLOCK_SIZE (of_nat b) = start"
    using unat_push_bit_no_wrap [of "of_nat b" ZFTP_LG_BLOCK_SIZE] ub assms
    by (simp add: word_unat_eq_iff ZFTP_LG_BLOCK_SIZE_def)
  show "unat (push_bit ZFTP_LG_BLOCK_SIZE (of_nat b + 1) :: u32) = 65536 * (b + 1)"
    using unat_push_bit_no_wrap [of "of_nat b + 1" ZFTP_LG_BLOCK_SIZE] ub1 assms(2) by (simp add: ZFTP_LG_BLOCK_SIZE_def)
  show "block_of x = b" if "start \<le> x" "unat x < 65536 * (b + 1)" for x
    unfolding block_of_eq using that assms(1) by (intro div_nat_eqI) (simp_all add: word_le_nat_alt)
qed

definition in_round :: "ZCachedFile \<Rightarrow> DataRange \<Rightarrow> u32 \<Rightarrow> nat \<Rightarrow> bool" where
  "in_round f e start b \<longleftrightarrow> dr_end e \<le> get_filelen f \<and> dr_start e \<le> start \<and> start < dr_end e \<and> unat start = 65536 * b"

lemma in_round_block:
  assumes "servable f" and "in_round f e start b"
  shows "b < unat (num_blocks f)" and "b < 65535" and "65536 * b < unat (dr_end e)"
proof -
  have "65536 * b < unat (dr_end e)" "unat (dr_end e) \<le> unat (get_filelen f)"
    using assms(2) by (simp_all add: in_round_def word_less_nat_alt word_le_nat_alt)
  then show "b < unat (num_blocks f)" "b < 65535" "65536 * b < unat (dr_end e)"
    using assms(1) by (auto simp: servable_def)
qed

lemma pruned_gap:
  assumes "servable f" and "in_round f e start b" and "gap < ZFTP_BLOCK_SIZE"
    and "65536 * b + unat gap < unat (dr_end e)"
  defines "r \<equiv> intersect (DataRange_of (start + gap) (start + ZFTP_BLOCK_SIZE)) e"
  shows "proper r" and "\<not> is_empty r" and "\<forall>x \<in> dr_set r. x \<in> dr_set e \<and> block_of x = b"
proof -
  note b = in_round_block [OF assms(1,2)]
  have us: "unat start = 65536 * b" using assms(2) by (simp add: in_round_def)
  have g: "unat gap < 65536" using assms(3) by (simp add: word_less_nat_alt)
  have ug: "unat (start + gap) = 65536 * b + unat gap" using us g b(2) by (subst unat_add_no_wrap) simp_all
  have ue: "unat (start + ZFTP_BLOCK_SIZE) = 65536 * (b + 1)" using us b(2) by (subst unat_add_no_wrap) simp_all
  have set_r: "dr_set r = {start + gap..<start + ZFTP_BLOCK_SIZE} \<inter> dr_set e"
    unfolding r_def by (simp only: intersect_set) (simp add: dr_set_def DataRange_of_def)
  show "proper r" by (simp add: r_def)
  have "unat (dr_start e) \<le> 65536 * b" using assms(2) us by (simp add: in_round_def word_le_nat_alt)
  then have "start + gap \<in> dr_set r"
    unfolding set_r using assms(4) ug ue g by (simp add: dr_set_def word_less_nat_alt word_le_nat_alt)
  then show "\<not> is_empty r" by (auto simp: is_empty_def dr_set_def)
  have "start \<le> start + gap" using us ug by (simp add: word_le_nat_alt)
  then show "\<forall>x \<in> dr_set r. x \<in> dr_set e \<and> block_of x = b"
    unfolding set_r using round_words(4) [OF us b(2)] ue by (auto simp: word_less_nat_alt intro: order_trans)
qed

text \<open>What a round does to the missing set and the cache.\<close>

definition round_result ::
    "'d zenv \<Rightarrow> ZCachedFile \<Rightarrow> DataRange \<Rightarrow> nat \<Rightarrow> DataRange \<Rightarrow> 'd ZBlockCache \<Rightarrow> DataRange option \<Rightarrow> 'd ZBlockCache \<Rightarrow> bool" where
  "round_result env f e b m bc added bc' \<longleftrightarrow> memory_cache env bc' \<and> gaps_inside f bc' e
     \<and> (\<forall>h. valid_in bc' h = valid_in bc h)
     \<and> (case added of None \<Rightarrow> \<not> is_empty m
        | Some m' \<Rightarrow> missing_so_far f bc e m' \<and> (is_empty m' \<longleftrightarrow> is_empty m \<and> block_ready f bc b))"

lemma add_missing_unknown:
  assumes "env_ok env" and "memory_cache env bc" and "servable f" and "in_round f e start b"
    and "gaps_inside f bc e" and "missing_so_far f bc e m" and "\<not> leaf_known f b"
  shows "\<exists>added bc'. add_missing env f e start (of_nat b) m bc = Some (added, bc') \<and> round_result env f e b m bc added bc'"
proof -
  note b = in_round_block [OF assms(3,4)]
  have us: "unat start = 65536 * b" and e: "dr_start e \<le> start" "start < dr_end e"
    using assms(4) by (simp_all add: in_round_def)
  define x where "x = (push_bit ZFTP_LG_BLOCK_SIZE (of_nat b + 1) :: u32)"
  define en where "en = min x (dr_end e)"
  have ux: "unat x = 65536 * (b + 1)" unfolding x_def by (rule round_words(3) [OF us b(2)])
  have "start < x" using us ux by (simp add: word_less_nat_alt)
  then have en: "start < en" "en \<le> dr_end e" "en \<le> x" using e(2) by (auto simp: en_def)
  obtain worked m' where acc: "maybe_accumulate m start en = (worked, m')" by fastforce
  have "block_of y = b" if "start \<le> y" "y < en" for y
    using round_words(4) [OF us b(2) that(1)] that(2) en(3) ux by (simp add: word_less_nat_alt word_le_nat_alt)
  then have in_b: "\<forall>y \<in> {start..<en}. y \<in> dr_set e \<and> \<not> block_ready f bc (block_of y)"
    using e(1) en(2) assms(7) by (auto simp: dr_set_def block_ready_def)
  note add = accumulate_missing [OF assms(6) less_imp_le [OF en(1)] in_b acc]
  have "add_missing env f e start (of_nat b) m bc = Some (if worked then Some m' else None, bc)"
    using lookup_block_memory(1) [OF assms(1-3) b(1) assms(7)] acc
    by (simp add: add_missing_def Let_def en_def x_def)
  moreover have "round_result env f e b m bc (if worked then Some m' else None) bc"
    using assms(2,5,7) add less_imp_neq [OF en(1)] by (auto simp: round_result_def block_ready_def)
  ultimately show ?thesis by blast
qed

lemma add_missing_known:
  assumes "env_ok env" and "memory_cache env bc" and "servable f" and "in_round f e start b"
    and "gaps_inside f bc e" and "missing_so_far f bc e m" and "leaf_known f b"
  shows "\<exists>added bc'. add_missing env f e start (of_nat b) m bc = Some (added, bc') \<and> round_result env f e b m bc added bc'"
proof -
  note b = in_round_block [OF assms(3,4)]
  have us: "unat start = 65536 * b" using assms(4) by (simp add: in_round_def)
  define h z where "h = leaf_hash f b" and "z = expected_in env bc h"
  obtain bc' where look: "lookup_block env f bc (of_nat b) v_validated = Some (Some h, bc')" "memory_cache env bc'"
      "blocks bc' = (blocks bc)(h \<mapsto> z)"
    using lookup_block_memory(2) [OF assms(1-3) b(1) assms(7)] unfolding h_def z_def by blast
  have same: "valid_in bc' k = valid_in bc k" for k using valid_in_expected [OF look(3) [unfolded z_def]] .
  have gaps: "gaps_inside f bc' e" using gaps_inside_expected [OF assms(5) look(3) [unfolded z_def]] .
  have z: "blocks bc' h = Some z" using look(3) by simp
  have ready: "block_ready f bc b \<longleftrightarrow> zbcr_valid z"
    using same [of h] z assms(7) by (auto simp: block_ready_def valid_in_def h_def)
  show ?thesis
  proof (cases "zbcr_valid z")
    case True
    then have "add_missing env f e start (of_nat b) m bc = Some (Some m, bc')"
      using look(1) z by (simp add: add_missing_def Let_def)
    then show ?thesis using look(2) gaps same assms(6) ready True by (auto simp: round_result_def)
  next
    case False
    have gap: "next_gap z < ZFTP_BLOCK_SIZE" "65536 * b + unat (next_gap z) < unat (dr_end e)"
      using gaps b(3) assms(7) z False by (auto simp: gaps_inside_def h_def)
    let ?r = "intersect (DataRange_of (start + next_gap z) (start + ZFTP_BLOCK_SIZE)) e"
    note r = pruned_gap [OF assms(3,4) gap]
    obtain worked m' where acc: "maybe_accumulate m (dr_start ?r) (dr_end ?r) = (worked, m')" by fastforce
    have "\<forall>x \<in> {dr_start ?r..<dr_end ?r}. x \<in> dr_set e \<and> \<not> block_ready f bc (block_of x)"
      using r(3) ready False by (auto simp: dr_set_def)
    note add = accumulate_missing [OF assms(6) r(1) [unfolded proper_def] this acc]
    have "add_missing env f e start (of_nat b) m bc = Some (if worked then Some m' else None, bc')"
      using look(1) z False acc round_words(2) [OF us b(2)]
      by (simp add: add_missing_def Let_def get_missing_range_def maybe_accumulate_range_def DataRange_of_def)
    moreover have "round_result env f e b m bc (if worked then Some m' else None) bc'"
      using look(2) gaps same add r(2) ready False by (auto simp: round_result_def is_empty_def)
    ultimately show ?thesis by blast
  qed
qed

lemmas add_missing_ok = add_missing_unknown add_missing_known

lemma missing_loop_ok:
  assumes "env_ok env" and "servable f" and "dr_end e \<le> get_filelen f" and "0 < max_payload"
    and "memory_cache env bc" and "gaps_inside f bc e" and "missing_so_far f bc e m"
    and "start < dr_end e \<Longrightarrow> in_round f e start b" and "0 < fuel" and "start < dr_end e \<Longrightarrow> 65536 < fuel + b"
  shows "\<exists>m' bc'. missing_set_loop fuel env f max_payload e start m bc = Some (m', bc')
    \<and> missing_so_far f bc e m' \<and> memory_cache env bc' \<and> (\<forall>h. valid_in bc' h = valid_in bc h)
    \<and> (is_empty m' \<longleftrightarrow> is_empty m \<and> (start < dr_end e \<longrightarrow> (\<forall>k \<ge> b. 65536 * k < unat (dr_end e) \<longrightarrow> block_ready f bc k)))"
  using assms(5-)
proof (induction fuel arbitrary: bc m start b)
  case 0
  then show ?case by simp
next
  case (Suc fuel)
  show ?case
  proof (cases "start < dr_end e")
    case False
    then show ?thesis using Suc.prems by simp
  next
    case True
    note round = Suc.prems(4) [OF True]
    note b = in_round_block [OF assms(2) round]
    have us: "unat start = 65536 * b" using round by (simp add: in_round_def)
    note w = round_words [OF us b(2)]
    have nb: "\<not> num_blocks f \<le> of_nat b"
      using b(1,2) unat_of_nat_u32 [of b] by (simp add: word_le_nat_alt)
    obtain added bc1 where add: "add_missing env f e start (of_nat b) m bc = Some (added, bc1)"
        and res: "round_result env f e b m bc added bc1"
      using add_missing_ok [OF assms(1) Suc.prems(1) assms(2) round Suc.prems(2,3)] by blast
    have mem: "memory_cache env bc1" "gaps_inside f bc1 e" "\<And>h. valid_in bc1 h = valid_in bc h"
      using res by (simp_all add: round_result_def)
    have ready1: "block_ready f bc1 k = block_ready f bc k" for k by (simp add: block_ready_def mem(3))
    have unfold: "missing_set_loop (Suc fuel) env f max_payload e start m bc
        = (case added of None \<Rightarrow> Some (m, bc1)
           | Some m1 \<Rightarrow> if approx_payload_size f m1 \<ge> max_payload then Some (m1, bc1)
                        else missing_set_loop fuel env f max_payload e (push_bit ZFTP_LG_BLOCK_SIZE (of_nat b + 1)) m1 bc1)"
      using True nb add by (simp add: w(1))
    show ?thesis
    proof (cases "\<exists>m1. added = Some m1 \<and> \<not> approx_payload_size f m1 \<ge> max_payload")
      case False
      have payload: "approx_payload_size f m1 \<ge> max_payload \<Longrightarrow> \<not> is_empty m1" for m1
        using assms(4) by (auto simp: approx_payload_size_def is_empty_def dr_size_def split: if_splits)
      have "(\<forall>k \<ge> b. 65536 * k < unat (dr_end e) \<longrightarrow> block_ready f bc k) \<Longrightarrow> block_ready f bc b" using b(3) by blast
      then show ?thesis
        using False res unfold mem True payload Suc.prems(3)
        by (cases added) (auto simp: round_result_def)
    next
      case go_on: True
      then obtain m1 where m1: "added = Some m1" "\<not> approx_payload_size f m1 \<ge> max_payload" by blast
      let ?next = "push_bit ZFTP_LG_BLOCK_SIZE (of_nat b + 1) :: u32"
      have nx: "in_round f e ?next (b + 1)" if "?next < dr_end e"
        using that round w(3) us by (simp add: in_round_def word_le_nat_alt)
      have m1_ok: "missing_so_far f bc1 e m1" "is_empty m1 \<longleftrightarrow> is_empty m \<and> block_ready f bc b"
        using res m1(1) by (simp_all add: round_result_def missing_so_far_cong [OF mem(3)])
      have fuel: "0 < fuel" "65536 < fuel + (b + 1)" using Suc.prems(6) True b(2) by auto
      obtain m' bc' where loop: "missing_set_loop fuel env f max_payload e ?next m1 bc1 = Some (m', bc')"
          "missing_so_far f bc1 e m'" "memory_cache env bc'" "\<forall>h. valid_in bc' h = valid_in bc1 h"
          "is_empty m' \<longleftrightarrow> is_empty m1 \<and> (?next < dr_end e \<longrightarrow>
             (\<forall>k \<ge> b + 1. 65536 * k < unat (dr_end e) \<longrightarrow> block_ready f bc1 k))"
        using Suc.IH [OF mem(1,2) m1_ok(1) nx fuel] by blast
      have "(?next < dr_end e \<longrightarrow> (\<forall>k \<ge> b + 1. 65536 * k < unat (dr_end e) \<longrightarrow> block_ready f bc k))
          \<longleftrightarrow> (\<forall>k \<ge> b + 1. 65536 * k < unat (dr_end e) \<longrightarrow> block_ready f bc k)"
        using w(3) by (auto simp: word_less_nat_alt)
      moreover have "(\<forall>k \<ge> b. 65536 * k < unat (dr_end e) \<longrightarrow> block_ready f bc k)
          \<longleftrightarrow> block_ready f bc b \<and> (\<forall>k \<ge> b + 1. 65536 * k < unat (dr_end e) \<longrightarrow> block_ready f bc k)"
        using b(3) by (metis Suc_eq_plus1 Suc_le_eq le_eq_less_or_eq)
      ultimately show ?thesis
        using loop m1 m1_ok(2) unfold mem(3) True by (auto simp: ready1 missing_so_far_cong [OF mem(3)])
    qed
  qed
qed

lemma round_down_word: "(x AND NOT (ZFTP_BLOCK_SIZE - 1)) = push_bit ZFTP_LG_BLOCK_SIZE (drop_bit ZFTP_LG_BLOCK_SIZE x :: u32)"
proof -
  have "ZFTP_BLOCK_SIZE - 1 = (mask 16 :: u32)" by (simp add: ZFTP_BLOCK_SIZE_def ZFTP_LG_BLOCK_SIZE_def mask_eq_exp_minus_1)
  then show ?thesis by (auto simp: bit_eq_iff bit_simps ZFTP_LG_BLOCK_SIZE_def)
qed

lemma unat_round_down: "unat (x AND NOT (ZFTP_BLOCK_SIZE - 1) :: u32) = 65536 * (unat x div 65536)"
proof -
  have "unat x div 65536 * 65536 < 4294967296"
    using unat_u32_bound [of x] div_times_less_eq_dividend [of "unat x" 65536] by linarith
  then show ?thesis
    unfolding round_down_word using unat_push_bit_no_wrap [of "drop_bit 16 x" 16]
    by (simp add: ZFTP_LG_BLOCK_SIZE_def unat_drop_bit mult.commute)
qed

lemma round_up_covers:
  assumes "unat x < 65536 * 65535" and "x < p"
  shows "x < round_up_to_block p"
proof -
  define d where "d = (p - 1) AND NOT (ZFTP_BLOCK_SIZE - 1)"
  have up: "unat (p - 1) = unat p - 1" using assms(2) by (subst unat_sub_no_wrap) (auto simp: word_less_nat_alt)
  have d: "unat d = 65536 * ((unat p - 1) div 65536)" unfolding d_def unat_round_down up ..
  have x: "unat x \<le> unat p - 1" using assms(2) by (simp add: word_less_nat_alt)
  have p: "unat p - 1 < 65536 * ((unat p - 1) div 65536) + 65536"
    using dividend_less_times_div [of 65536 "unat p - 1"] by simp
  show ?thesis
  proof (cases "(unat p - 1) div 65536 < 65535")
    case True
    then have "unat (d + ZFTP_BLOCK_SIZE) = unat d + 65536" using d by (subst unat_add_no_wrap) simp_all
    moreover from this have "\<not> d + ZFTP_BLOCK_SIZE < d" by (simp add: word_less_nat_alt)
    ultimately show ?thesis using x p d by (simp add: round_up_to_block_def d_def Let_def word_less_nat_alt)
  next
    case False
    then have "65536 * 65535 \<le> unat d" using d by simp
    moreover have "d \<le> round_up_to_block p" by (auto simp: round_up_to_block_def d_def Let_def not_less)
    ultimately show ?thesis using assms(1) by (simp add: word_less_nat_alt word_le_nat_alt)
  qed
qed

text \<open>The range that is looked at: whole blocks from the start of the request, up to the end of the file.\<close>

lemma eligible_range_facts:
  assumes "servable f" and "eligible_range f r = Some e"
  shows "proper e" and "dr_end e \<le> get_filelen f" and "dr_set r \<inter> {..<get_filelen f} \<subseteq> dr_set e"
    and "unat (dr_start e) = 65536 * block_of (dr_start e)"
proof -
  let ?r = "DataRange_of (dr_start r AND NOT (ZFTP_BLOCK_SIZE - 1)) (round_up_to_block (dr_end r))"
  have e: "e = intersect ?r (DataRange_of 0 (get_filelen f))"
    using assms by (auto simp: eligible_range_def get_file_data_range_def servable_def)
  show "proper e" by (simp add: e)
  show "dr_end e \<le> get_filelen f"
    by (auto simp: e intersect_def DataRange_of_def DataRange_empty_def Let_def min_def)
  have "unat (dr_start r AND NOT (ZFTP_BLOCK_SIZE - 1)) \<le> unat (dr_start r)" unfolding unat_round_down by simp
  then have "dr_start r AND NOT (ZFTP_BLOCK_SIZE - 1) \<le> dr_start r" by (simp add: word_le_nat_alt)
  moreover have "x < round_up_to_block (dr_end r)" if "x < dr_end r" "x < get_filelen f" for x
    using round_up_covers [OF _ that(1)] that(2) assms(1) by (auto simp: servable_def word_less_nat_alt)
  ultimately show "dr_set r \<inter> {..<get_filelen f} \<subseteq> dr_set e"
    unfolding e intersect_set by (auto simp: dr_set_def DataRange_of_def)
  have "dr_start e = 0 \<or> dr_start e = dr_start r AND NOT (ZFTP_BLOCK_SIZE - 1)"
    by (auto simp: e intersect_def DataRange_of_def DataRange_empty_def Let_def max_def)
  moreover have "unat (dr_start r AND NOT (ZFTP_BLOCK_SIZE - 1)) mod 65536 = 0" unfolding unat_round_down by simp
  ultimately show "unat (dr_start e) = 65536 * block_of (dr_start e)" unfolding block_of_eq by auto
qed

lemma blocks_of_range:
  assumes "proper e" and "unat (dr_start e) = 65536 * b"
  shows "(dr_start e < dr_end e \<longrightarrow> (\<forall>k \<ge> b. 65536 * k < unat (dr_end e) \<longrightarrow> P k)) \<longleftrightarrow> (\<forall>x \<in> dr_set e. P (block_of x))"
proof (intro iffI impI allI ballI)
  fix x assume h: "dr_start e < dr_end e \<longrightarrow> (\<forall>k \<ge> b. 65536 * k < unat (dr_end e) \<longrightarrow> P k)" and x: "x \<in> dr_set e"
  have "b \<le> block_of x" unfolding block_of_eq
    using x assms(2) by (simp add: dr_set_def word_le_nat_alt less_eq_div_iff_mult_less_eq)
  moreover have "65536 * block_of x < unat (dr_end e)"
    using x block_start [of x] by (simp add: dr_set_def word_less_nat_alt)
  ultimately show "P (block_of x)" using h x by (auto simp: dr_set_def)
next
  fix k assume h: "\<forall>x \<in> dr_set e. P (block_of x)" and k: "b \<le> k" "65536 * k < unat (dr_end e)"
  have "65536 * k < 4294967296" using k(2) unat_u32_bound [of "dr_end e"] by linarith
  then have u: "unat (of_nat (65536 * k) :: u32) = 65536 * k" by (intro unat_of_nat_u32) simp
  then have "(of_nat (65536 * k) :: u32) \<in> dr_set e"
    using k assms(2) by (simp add: dr_set_def word_le_nat_alt word_less_nat_alt del: of_nat_mult)
  then have "P (block_of (of_nat (65536 * k) :: u32))" using h by blast
  then show "P k" unfolding block_of_eq u by simp
qed

lemma compute_missing_ok:
  assumes "env_ok env" and "servable f" and "memory_cache env bc" and "client_max_payload conf \<noteq> Some 0"
    and "eligible_range f r = Some e" and "gaps_inside f bc e"
  shows "\<exists>m bc'. compute_missing_set env conf f bc r = Some (m, bc') \<and> memory_cache env bc'
    \<and> (\<forall>h. valid_in bc' h = valid_in bc h) \<and> missing_so_far f bc e m
    \<and> (is_empty m \<longleftrightarrow> (\<forall>x \<in> dr_set e. block_ready f bc (block_of x)))"
proof -
  note e = eligible_range_facts [OF assms(2,5)]
  define p where "p = (case client_max_payload conf of None \<Rightarrow> 1 | Some m \<Rightarrow> m)"
  have "0 < p" using assms(4) by (auto simp: p_def word_gt_0 split: option.splits)
  moreover have "missing_so_far f bc e DataRange_empty"
    by (simp add: missing_so_far_def proper_def dr_set_def DataRange_empty_def)
  moreover have "in_round f e (dr_start e) (block_of (dr_start e))" if "dr_start e < dr_end e"
    using that e(2,4) by (simp add: in_round_def)
  ultimately obtain m bc' where "missing_set_loop 65537 env f p e (dr_start e) DataRange_empty bc = Some (m, bc')"
      "missing_so_far f bc e m" "memory_cache env bc'" "\<forall>h. valid_in bc' h = valid_in bc h"
      "is_empty m \<longleftrightarrow> is_empty DataRange_empty \<and> (dr_start e < dr_end e \<longrightarrow>
         (\<forall>k \<ge> block_of (dr_start e). 65536 * k < unat (dr_end e) \<longrightarrow> block_ready f bc k))"
    using missing_loop_ok [OF assms(1,2) e(2) _ assms(3,6), of p DataRange_empty "dr_start e" "block_of (dr_start e)" 65537]
    by auto
  then show ?thesis
    unfolding blocks_of_range [OF e(1,4)]
    using assms(5) by (auto simp: compute_missing_set_def p_def is_empty_def DataRange_empty_def)
qed

section \<open>Writing the blocks of a file\<close>

text \<open>The bytes of the file as the cache holds them.\<close>

definition file_slice :: "ZCachedFile \<Rightarrow> 'd ZBlockCache \<Rightarrow> nat \<Rightarrow> nat \<Rightarrow> bytes" where
  "file_slice f bc start n = map (\<lambda>x. zbcr_data (the (blocks bc (leaf_hash f (x div 65536)))) ! (x mod 65536)) [start..<start + n]"

lemma length_file_slice [simp]: "length (file_slice f bc start n) = n"
  by (simp add: file_slice_def)

lemma file_slice_0 [simp]: "file_slice f bc start 0 = []"
  by (simp add: file_slice_def)

lemma file_slice_cong: "blocks bc' = blocks bc \<Longrightarrow> file_slice f bc' start n = file_slice f bc start n"
  by (simp add: file_slice_def)

lemma file_slice_append: "file_slice f bc start (m + n) = file_slice f bc start m @ file_slice f bc (start + m) n"
  unfolding file_slice_def map_append [symmetric]
  by (subst upt_add_eq_append [symmetric]) (simp_all add: add.assoc)

lemma file_slice_block:
  assumes "blocks bc (leaf_hash f b) = Some z" and "length (zbcr_data z) = 65536" and "k + l \<le> 65536"
  shows "file_slice f bc (65536 * b + k) l = take l (drop k (zbcr_data z))"
proof (rule nth_equalityI)
  show "length (file_slice f bc (65536 * b + k) l) = length (take l (drop k (zbcr_data z)))" using assms(2,3) by simp
  fix i assume "i < length (file_slice f bc (65536 * b + k) l)"
  then have i: "i < l" by simp
  have "k + i < 65536" using i assms(3) by simp
  then have "(65536 * b + (k + i)) div 65536 = b" "(65536 * b + (k + i)) mod 65536 = k + i"
    by (simp_all add: div_mult_self4)
  then have "(65536 * b + k + i) div 65536 = b" "(65536 * b + k + i) mod 65536 = k + i" by (simp_all only: add.assoc)
  then show "file_slice f bc (65536 * b + k) l ! i = take l (drop k (zbcr_data z)) ! i"
    using i assms by (simp add: file_slice_def)
qed

lemma u32_of_nat_order:
  assumes "a < 4294967296" and "b < 4294967296"
  shows "(of_nat a :: u32) < of_nat b \<longleftrightarrow> a < b" and "(of_nat a :: u32) \<le> of_nat b \<longleftrightarrow> a \<le> b"
    and "(of_nat a :: u32) = of_nat b \<longleftrightarrow> a = b"
  using assms by (simp_all add: word_less_nat_alt word_le_nat_alt word_unat_eq_iff unat_of_nat_u32)

lemma mb_store_segment:
  assumes "mb_buffer mb = A @ Y @ C" and "length A = unat ptr" and "length Y = length bs"
  shows "mb_store mb ptr bs = Some (mb\<lparr>mb_buffer := A @ bs @ C\<rparr>)"
  using assms by (simp add: mb_store_def)

lemma zbcr_read_ok:
  assumes "zbcr_valid z" and "length (zbcr_data z) = 65536" and "k + l \<le> 65536"
  shows "zbcr_read z (of_nat k) (of_nat l) = Some (take l (drop k (zbcr_data z)))"
proof -
  have u: "unat (of_nat k :: u32) = k" "unat (of_nat l :: u32) = l" "unat (of_nat (k + l) :: u32) = k + l"
    using assms(3) by (intro unat_of_nat_u32; simp)+
  have "(of_nat k + of_nat l :: u32) = of_nat (k + l)" by simp
  then have "(of_nat k + of_nat l :: u32) \<le> ZFTP_BLOCK_SIZE" using u(3) assms(3) by (simp only: word_le_nat_alt) simp
  then show ?thesis using assms u(1,2) by (simp add: zbcr_read_def lite_memcpy_eq)
qed

text \<open>One round writes what the request wants of the block and leaves the position at the next block.\<close>

lemma write_round:
  assumes "mb_buffer mb = A @ Y @ C" and "length A = h + j" and "length Y = l" and "header_offset mb = of_nat h"
    and "h + j + l < 4294967296" and "blocks bc (leaf_hash f b) = Some z" and "zbcr_valid z"
    and "length (zbcr_data z) = 65536" and "k + l \<le> 65536"
  shows "write_data mb z (of_nat j + 0) (of_nat k) (of_nat l)
    = Some (mb\<lparr>mb_buffer := A @ file_slice f bc (65536 * b + k) l @ C, max_data_len := of_nat (j + l)\<rparr>)"
proof -
  have "unat (header_offset mb + (of_nat j + 0)) = length A"
    using assms(2,4,5) by (simp add: unat_of_nat_u32 flip: of_nat_add)
  then have "mb_store mb (header_offset mb + (of_nat j + 0)) (take l (drop k (zbcr_data z)))
      = Some (mb\<lparr>mb_buffer := A @ take l (drop k (zbcr_data z)) @ C\<rparr>)"
    using assms(3,8,9) by (intro mb_store_segment [OF assms(1)]) simp_all
  then show ?thesis
    using zbcr_read_ok [OF assms(7-9)] file_slice_block [OF assms(6,8,9)] by (simp add: write_data_def)
qed

text \<open>The words a round computes, in terms of the offset \<open>start\<close>, the size \<open>n\<close> and the bytes \<open>j\<close> written before it.\<close>

lemma write_round_words:
  fixes start n j b :: nat
  assumes "start + n < 4294967296" and "j < n" and "65536 * b \<le> start + j" and "start + j < 65536 * (b + 1)"
    and "j = 0 \<or> start + j = 65536 * b"
  defines "k \<equiv> start + j - 65536 * b" and "s \<equiv> push_bit ZFTP_LG_BLOCK_SIZE (of_nat b) :: u32"
  shows "(if of_nat start > s then of_nat start - s else 0) = of_nat k"
    and "min (of_nat start + of_nat n - s - of_nat k) (ZFTP_BLOCK_SIZE - of_nat k) = of_nat (min (n - j) (65536 - k))"
    and "s + of_nat k = of_nat (start + j)" and "k < 65536"
proof -
  have s: "s = of_nat (65536 * b)" by (simp add: s_def push_bit_eq_mult ZFTP_LG_BLOCK_SIZE_def mult.commute)
  have lim: "65536 * b < 4294967296" "start < 4294967296" using assms(1-3) by linarith+
  show k: "k < 65536" using assms(3,4) by (simp add: k_def)
  have sum: "65536 * b + k = start + j" using assms(3) by (simp add: k_def)
  then show "s + of_nat k = of_nat (start + j)" unfolding s by (metis of_nat_add)
  show "(if of_nat start > s then of_nat start - s else 0) = of_nat k"
  proof (cases "65536 * b < start")
    case True
    then have "j = 0" "k = start - 65536 * b" using assms(5) by (auto simp: k_def)
    then show ?thesis unfolding s using u32_of_nat_order(1) [OF lim] True by (simp add: of_nat_diff del: of_nat_mult)
  next
    case False
    then have "k = 0" using assms(3,5) by (auto simp: k_def)
    then show ?thesis unfolding s using u32_of_nat_order(1) [OF lim] False by (simp del: of_nat_mult)
  qed
  have "of_nat start + of_nat n - s - of_nat k = (of_nat (start + n) - of_nat (65536 * b + k) :: u32)" by (simp add: s)
  also have "\<dots> = of_nat (start + n - (start + j))" unfolding sum using assms(2) by (intro of_nat_diff [symmetric]) simp
  finally have a: "of_nat start + of_nat n - s - of_nat k = (of_nat (n - j) :: u32)" by (simp only: diff_cancel add_diff_cancel_left)
  have c: "ZFTP_BLOCK_SIZE - of_nat k = (of_nat (65536 - k) :: u32)"
    using k by (simp add: ZFTP_BLOCK_SIZE_eq of_nat_diff)
  have "n - j < 4294967296" "65536 - k < 4294967296" using assms(1) by auto
  then show "min (of_nat start + of_nat n - s - of_nat k) (ZFTP_BLOCK_SIZE - of_nat k) = of_nat (min (n - j) (65536 - k))"
    unfolding a c by (auto simp: min_def u32_of_nat_order(2))
qed

lemma write_blocks_step:
  assumes "buf_off < sz" and "lookup_block env f bc blk v_validated = Some (Some k, bc1)" and "blocks bc1 k = Some z"
    and "zbcr_valid z" and "(if file_offset > push_bit ZFTP_LG_BLOCK_SIZE blk then file_offset - push_bit ZFTP_LG_BLOCK_SIZE blk else 0) = blk_off"
    and "min (file_offset + sz - push_bit ZFTP_LG_BLOCK_SIZE blk - blk_off) (ZFTP_BLOCK_SIZE - blk_off) = blk_len"
    and "write_data mb z (buf_off + p) blk_off blk_len = Some mb1" and "push_bit ZFTP_LG_BLOCK_SIZE blk + blk_off = dbg"
  shows "write_blocks_loop (Suc fuel) env f p file_offset sz blk buf_off dbg bc mb
    = write_blocks_loop fuel env f p file_offset sz (blk + 1) (buf_off + blk_len) (dbg + blk_len) bc1 mb1"
  unfolding write_blocks_loop.simps(2) Let_def assms(5) assms(6) assms(8) using assms(1-4,7) by simp

lemma write_blocks_loop_ok:
  assumes "env_ok env" and "servable f" and "memory_cache env bc" and "start + n \<le> unat (get_filelen f)"
    and "\<And>x. start \<le> x \<Longrightarrow> x < start + n \<Longrightarrow> block_ready f bc (x div 65536)"
    and "mb_buffer mb = A @ Y @ C" and "length A = h + j" and "length Y = n - j" and "header_offset mb = of_nat h"
    and "h + n < 4294967296" and "j \<le> n" and "j < n \<Longrightarrow> b = (start + j) div 65536" and "j = 0 \<or> j = n \<or> start + j = 65536 * b"
    and "0 < fuel" and "j < n \<Longrightarrow> 65536 < fuel + b"
  shows "\<exists>bc'. write_blocks_loop fuel env f 0 (of_nat start) (of_nat n) (of_nat b) (of_nat j) (of_nat (start + j)) bc mb
      = Some (bc', mb\<lparr>mb_buffer := A @ file_slice f bc (start + j) (n - j) @ C,
                     max_data_len := (if j < n then of_nat n else max_data_len mb)\<rparr>)
    \<and> memory_cache env bc' \<and> blocks bc' = blocks bc"
  using assms(3,5-9,11-)
proof (induction fuel arbitrary: bc mb A Y j b)
  case (Suc fuel)
  have lim: "start + n \<le> 65536 * 65535" using assms(2,4) by (simp add: servable_def)
  have u: "(of_nat j :: u32) < of_nat n \<longleftrightarrow> j < n" using lim Suc.prems(7) by (intro u32_of_nat_order) simp_all
  show ?case
  proof (cases "j < n")
    case False
    then have "j = n" using Suc.prems(7) by simp
    then show ?thesis using Suc.prems(1,3,5) u by simp
  next
    case True
    have b: "b = (start + j) div 65536" by (rule Suc.prems(8) [OF True])
    define k where "k = start + j - 65536 * b"
    define l where "l = min (n - j) (65536 - k)"
    have sj: "65536 * b \<le> start + j" "start + j < 65536 * (b + 1)" unfolding b
      using dividend_less_times_div [of 65536 "start + j"] by simp_all
    have "start + n < 4294967296" "j = 0 \<or> start + j = 65536 * b" using Suc.prems(9) True lim by auto
    note w = write_round_words [OF this(1) True sj this(2), folded k_def, folded l_def]
    have kl: "k < 65536" "k + l \<le> 65536" "0 < l" "l \<le> n - j" "65536 * b + k = start + j"
      using sj True by (auto simp: l_def k_def)
    have "block_ready f bc b" using Suc.prems(2) [of "start + j"] True b by simp
    then obtain z where known: "leaf_known f b" and z: "blocks bc (leaf_hash f b) = Some z" "zbcr_valid z"
      by (auto simp: block_ready_def valid_in_def)
    have zl: "length (zbcr_data z) = 65536" using Suc.prems(1) z(1) by (auto simp: memory_cache_def bc_ok_def zbcr_ok_def)
    have "65536 * b < unat (get_filelen f)" using sj(1) True assms(4) by linarith
    then have "b < unat (num_blocks f)" using assms(2) by (auto simp: servable_def)
    then obtain bc1 where look: "lookup_block env f bc (of_nat b) v_validated = Some (Some (leaf_hash f b), bc1)"
        "memory_cache env bc1" "blocks bc1 = blocks bc"
      using lookup_block_memory(2) [OF assms(1) Suc.prems(1) assms(2) _ known] z(1)
      by (auto simp: expected_in_def fun_upd_idem)
    obtain Y1 Y2 where Y: "Y = Y1 @ Y2" "length Y1 = l" "length Y2 = n - (j + l)"
      using that [of "take l Y" "drop l Y"] Suc.prems(5) kl(4) by simp
    let ?mb = "mb\<lparr>mb_buffer := A @ file_slice f bc (start + j) l @ (Y2 @ C), max_data_len := of_nat (j + l)\<rparr>"
    have wd: "write_data mb z (of_nat j + 0) (of_nat k) (of_nat l) = Some ?mb"
      using write_round [of mb A Y1 "Y2 @ C" h j l bc f b z k] Suc.prems(3,4,6) Y assms(10) z zl kl by simp
    have z1: "blocks bc1 (leaf_hash f b) = Some z" using z(1) look(3) by simp
    have step: "write_blocks_loop (Suc fuel) env f 0 (of_nat start) (of_nat n) (of_nat b) (of_nat j) (of_nat (start + j)) bc mb
        = write_blocks_loop fuel env f 0 (of_nat start) (of_nat n) (of_nat (b + 1)) (of_nat (j + l)) (of_nat (start + (j + l))) bc1 ?mb"
      unfolding write_blocks_step [OF u [THEN iffD2, OF True] look(1) z1 z(2) w(1,2) wd w(3)]
      by (simp add: ac_simps)
    have next_b: "b + 1 = (start + (j + l)) div 65536" "start + (j + l) = 65536 * (b + 1)" if "j + l < n"
    proof -
      have "l = 65536 - k" using that by (auto simp: l_def)
      then show "start + (j + l) = 65536 * (b + 1)" using kl by simp
      then show "b + 1 = (start + (j + l)) div 65536" by simp
    qed
    have "\<exists>bc'. write_blocks_loop fuel env f 0 (of_nat start) (of_nat n) (of_nat (b + 1)) (of_nat (j + l)) (of_nat (start + (j + l))) bc1 ?mb
        = Some (bc', ?mb\<lparr>mb_buffer := (A @ file_slice f bc (start + j) l) @ file_slice f bc1 (start + (j + l)) (n - (j + l)) @ C,
             max_data_len := (if j + l < n then of_nat n else max_data_len ?mb)\<rparr>)
      \<and> memory_cache env bc' \<and> blocks bc' = blocks bc1"
    proof (rule Suc.IH)
      show "j + l = 0 \<or> j + l = n \<or> start + (j + l) = 65536 * (b + 1)" using next_b(2) kl(4) True by (cases "j + l < n") auto
      show "0 < fuel" using Suc.prems(11) True sj(1) lim by linarith
      show "65536 < fuel + (b + 1)" if "j + l < n" using Suc.prems(11) True by simp
      show "block_ready f bc1 (x div 65536)" if "start \<le> x" "x < start + n" for x
        using Suc.prems(2) [OF that] look(3) by (simp add: block_ready_def valid_in_def)
    qed (use look(2) Suc.prems(4,6) Y(3) next_b(1) kl(4) True in simp_all)
    moreover have "file_slice f bc (start + j) (n - j) = file_slice f bc (start + j) l @ file_slice f bc1 (start + (j + l)) (n - (j + l))"
    proof -
      have "n - j = l + (n - (j + l))" using kl(4) True by simp
      then show ?thesis
        using file_slice_append [of f bc "start + j" l "n - (j + l)"] file_slice_cong [OF look(3)] by (simp add: add.assoc)
    qed
    moreover have "j + l < n \<or> j + l = n" using kl(4) True by linarith
    ultimately show ?thesis unfolding step using look(3) True by auto
  qed
qed simp

lemma write_blocks_to_buf_ok:
  assumes "env_ok env" and "servable f" and "memory_cache env bc" and "start + n \<le> unat (get_filelen f)"
    and "\<And>x. start \<le> x \<Longrightarrow> x < start + n \<Longrightarrow> block_ready f bc (x div 65536)"
    and "mb_buffer mb = A @ Y @ C" and "length A = h" and "length Y = n" and "header_offset mb = of_nat h"
    and "h + n < 4294967296"
  shows "\<exists>bc'. write_blocks_to_buf env f bc mb 0 (of_nat start) (of_nat n)
      = Some (bc', mb\<lparr>mb_buffer := A @ file_slice f bc start n @ C,
                     max_data_len := (if 0 < n then of_nat n else max_data_len mb)\<rparr>)
    \<and> memory_cache env bc' \<and> blocks bc' = blocks bc"
proof -
  have lim: "start + n < 4294967296" using assms(4) unat_u32_bound [of "get_filelen f"] by linarith
  then have us: "unat (of_nat start :: u32) = start" "unat (of_nat (start + n) :: u32) = start + n"
    by (intro unat_of_nat_u32; simp)+
  have blk: "drop_bit ZFTP_LG_BLOCK_SIZE (of_nat start :: u32) = of_nat (start div 65536)"
  proof -
    have "start div 65536 < 2 ^ 32" using lim by simp
    then show ?thesis using us(1) by (simp add: word_unat_eq_iff block_of_eq unat_of_nat_u32)
  qed
  have "(of_nat start + of_nat n :: u32) \<le> get_filelen f"
    using us(2) assms(4) by (simp only: word_le_nat_alt of_nat_add [symmetric])
  moreover have "\<exists>bc'. write_blocks_loop 65537 env f 0 (of_nat start) (of_nat n) (of_nat (start div 65536)) (of_nat 0) (of_nat (start + 0)) bc mb
      = Some (bc', mb\<lparr>mb_buffer := A @ file_slice f bc (start + 0) (n - 0) @ C,
                     max_data_len := (if 0 < n then of_nat n else max_data_len mb)\<rparr>)
    \<and> memory_cache env bc' \<and> blocks bc' = blocks bc"
    by (rule write_blocks_loop_ok [OF assms(1-6)]) (use assms(7-10) in simp_all)
  ultimately show ?thesis by (simp add: write_blocks_to_buf_def blk)
qed

section \<open>Filling the reply\<close>

definition reply_record :: "ZCachedFile \<Rightarrow> u32 \<Rightarrow> ZFTPMerkleRecord" where
  "reply_record f loc = \<lparr>tree_location = z_htonl loc, zmr_hash = hs f (unat loc)\<rparr>"

abbreviation record_images :: "ZCachedFile \<Rightarrow> u32 list \<Rightarrow> bytes" where
  "record_images f locs \<equiv> concat (map (\<lambda>loc. merkle_record_bytes (reply_record f loc)) locs)"

lemma length_record_images [simp]: "length (record_images f locs) = 24 * length locs"
  by (induction locs) simp_all

lemma drop_record_images:
  "i < length locs \<Longrightarrow> \<exists>rest. drop (24 * i) (record_images f locs @ t) = merkle_record_bytes (reply_record f (locs ! i)) @ rest"
proof (induction locs arbitrary: i)
  case (Cons loc locs)
  show ?case
  proof (cases i)
    case (Suc k)
    then show ?thesis using Cons by simp
  qed (auto intro: exI [of _ "record_images f locs @ t"])
qed simp

lemma fill_merkle_records_ok:
  assumes "tree_sized f" and "\<And>loc. loc \<in> set locs \<Longrightarrow> unat loc < nodes f \<and> st f (unat loc) = v_validated"
    and "\<And>i. i < length locs \<Longrightarrow> get_tree_location req (of_nat (k + i)) = Some (locs ! i)"
    and "mb_buffer mb = A @ Y @ C" and "length A = unat zmr + 24 * k" and "length Y = 24 * length locs"
    and "unat zmr + 24 * (k + length locs) < 4294967296"
  shows "fill_merkle_records f req zmr (of_nat k) (length locs) mb
    = Some (mb\<lparr>mb_buffer := A @ record_images f locs @ C\<rparr>)"
  using assms(2-)
proof (induction locs arbitrary: k A Y mb)
  case Nil
  then show ?case by simp
next
  case (Cons loc locs)
  have loc: "get_tree_location req (of_nat k) = Some loc" using Cons.prems(2) [of 0] by simp
  have val: "get_validated_merkle_record f loc = Some (tree f ! unat loc)"
    using Cons.prems(1) [of loc] tree_at_in [OF assms(1)] by (simp add: get_validated_merkle_record_def)
  obtain Y1 Y2 where Y: "Y = Y1 @ Y2" "length Y1 = 24" "length Y2 = 24 * length locs"
    using that [of "take 24 Y" "drop 24 Y"] Cons.prems(5) by simp
  have "unat (of_nat (24 * k) :: u32) = 24 * k" using Cons.prems(6) by (intro unat_of_nat_u32) simp
  then have ptr: "unat (zmr + of_nat sizeof_ZFTPMerkleRecord * of_nat k) = unat zmr + 24 * k"
    using Cons.prems(6) unat_add_no_wrap [of zmr "of_nat (24 * k)"] by simp
  let ?mb = "mb\<lparr>mb_buffer := A @ merkle_record_bytes (reply_record f loc) @ (Y2 @ C)\<rparr>"
  have store: "mb_store mb (zmr + of_nat sizeof_ZFTPMerkleRecord * of_nat k) (merkle_record_bytes (reply_record f loc)) = Some ?mb"
    by (rule mb_store_segment [where Y = Y1]) (use Cons.prems(3,4) ptr Y in simp_all)
  have "fill_merkle_records f req zmr (of_nat (Suc k)) (length locs) ?mb
      = Some (?mb\<lparr>mb_buffer := (A @ merkle_record_bytes (reply_record f loc)) @ record_images f locs @ C\<rparr>)"
  proof (rule Cons.IH)
    show "get_tree_location req (of_nat (Suc k + i)) = Some (locs ! i)" if "i < length locs" for i
      using Cons.prems(2) [of "Suc i"] that by simp
  qed (use Cons.prems Y in auto)
  then show ?case
    using store loc val by (simp add: reply_record_def add.commute)
qed

definition reply_packet :: "ZCachedFile \<Rightarrow> nat \<Rightarrow> nat \<Rightarrow> DataRange \<Rightarrow> ZFTPDataPacket" where
  "reply_packet f m pad rg =
     \<lparr>zdp_code = z_htons zftp_reply_data, zdp_hash_len = z_htons (of_nat HASH_SIZE),
      zftp_lg_block_size = of_nat ZFTP_LG_BLOCK_SIZE, zftp_tree_degree = z_htons 2,
      zdp_file_hash = file_hash f, zdp_metadata = metadata f, zdp_num_merkle_records = z_htons (of_nat m),
      zdp_padding_size = z_htonl (of_nat pad),
      zdp_compression_context = \<lparr>state_id = z_htonl ZFTP_NO_COMPRESSION, seq_id = z_htonl 0\<rparr>,
      zdp_data_start = z_htonl (dr_start rg), zdp_data_end = z_htonl (dr_end rg),
      zdp_payload_size = z_htonl (dr_size rg)\<rparr>"

text \<open>What a request may ask: known hashes of the tree, and bytes of blocks that are there.\<close>

definition answerable :: "ZCachedFile \<Rightarrow> 'd ZBlockCache \<Rightarrow> ZFileRequest \<Rightarrow> u32 list \<Rightarrow> DataRange \<Rightarrow> bool" where
  "answerable f bc req locs rg \<longleftrightarrow> get_available_data_range f req = Some rg
     \<and> (\<forall>x \<in> dr_set rg. block_ready f bc (block_of x))
     \<and> rq_num_tree_locations req = of_nat (length locs) \<and> length locs < 65536
     \<and> (\<forall>i < length locs. get_tree_location req (of_nat i) = Some (locs ! i))
     \<and> (\<forall>loc \<in> set locs. unat loc < nodes f \<and> st f (unat loc) = v_validated)"

lemma available_range_facts:
  assumes "servable f" and "get_available_data_range f req = Some rg"
  shows "proper rg" and "unat (dr_start rg) + unat (dr_size rg) \<le> unat (get_filelen f)"
    and "dr_set rg = dr_set (rq_data_range req) \<inter> {..<get_filelen f}"
proof -
  have r: "rg = intersect (rq_data_range req) (DataRange_of 0 (get_filelen f))"
    using assms by (auto simp: get_available_data_range_def get_file_data_range_def servable_def)
  show p: "proper rg" by (simp add: r)
  have "dr_end rg \<le> get_filelen f"
    by (auto simp: r intersect_def DataRange_of_def DataRange_empty_def Let_def min_def)
  then show "unat (dr_start rg) + unat (dr_size rg) \<le> unat (get_filelen f)"
    using unat_dr_size [OF p] p by (simp add: proper_def word_le_nat_alt)
  show "dr_set rg = dr_set (rq_data_range req) \<inter> {..<get_filelen f}"
    unfolding r intersect_set by (auto simp: dr_set_def DataRange_of_def)
qed

text \<open>The states the buffer goes through, and what each step of the filling does to them.\<close>

definition vbuf :: "bytes \<Rightarrow> nat \<Rightarrow> nat \<Rightarrow> MemBuf" where
  "vbuf B h d = \<lparr>mb_buffer = B, header_offset = of_nat h, max_data_len = of_nat d\<rparr>"

lemma vbuf_header: "write_header (vbuf B h d) (of_nat k) = (of_nat h, vbuf B (h + k) d)"
  by (simp add: write_header_def vbuf_def)

lemma vbuf_store:
  assumes "length A = p" and "p < 4294967296" and "length Y = length bs"
  shows "mb_store (vbuf (A @ Y @ C) h d) (of_nat p) bs = Some (vbuf (A @ bs @ C) h d)"
  using assms by (simp add: mb_store_def vbuf_def unat_of_nat_u32)

lemma vbuf_blocks:
  assumes "env_ok env" and "servable f" and "memory_cache env bc" and "answerable f bc req locs rg"
    and "length A = h" and "length Y = unat (dr_size rg)" and "h + unat (dr_size rg) < 4294967296"
  shows "\<exists>bc'. write_blocks_to_buf env f bc (vbuf (A @ Y) h 0) 0 (dr_start rg) (dr_size rg)
      = Some (bc', vbuf (A @ file_slice f bc (unat (dr_start rg)) (unat (dr_size rg))) h (unat (dr_size rg)))
    \<and> blocks bc' = blocks bc"
proof -
  have avail: "get_available_data_range f req = Some rg" and ready: "\<forall>x \<in> dr_set rg. block_ready f bc (block_of x)"
    using assms(4) by (auto simp: answerable_def)
  note r = available_range_facts [OF assms(2) avail]
  let ?s = "unat (dr_start rg)" and ?n = "unat (dr_size rg)"
  have inside: "block_ready f bc (x div 65536)" if "?s \<le> x" "x < ?s + ?n" for x
  proof -
    have "x < 4294967296" using that(2) r(2) unat_u32_bound [of "get_filelen f"] by linarith
    then have ux: "unat (of_nat x :: u32) = x" by (intro unat_of_nat_u32) simp
    then have "(of_nat x :: u32) \<in> dr_set rg"
      using that unat_dr_size [OF r(1)] r(1) by (auto simp: dr_set_def proper_def word_le_nat_alt word_less_nat_alt)
    then show ?thesis using ready ux by (auto simp: block_of_eq)
  qed
  have "\<exists>bc'. write_blocks_to_buf env f bc (vbuf (A @ Y) h 0) 0 (of_nat ?s) (of_nat ?n)
      = Some (bc', (vbuf (A @ Y) h 0)\<lparr>mb_buffer := A @ file_slice f bc ?s ?n @ [],
                     max_data_len := (if 0 < ?n then of_nat ?n else max_data_len (vbuf (A @ Y) h 0))\<rparr>)
    \<and> memory_cache env bc' \<and> blocks bc' = blocks bc"
    by (rule write_blocks_to_buf_ok [OF assms(1-3) r(2) inside]) (use assms(5-7) in \<open>simp_all add: vbuf_def\<close>)
  then show ?thesis by (auto simp: vbuf_def unat_eq_zero)
qed

lemma valid_fill_reply_steps:
  assumes "write_header v0 (of_nat sizeof_ZFTPDataPacket) = (zdp_ptr, v1)" and "get_available_data_range f req = Some rg"
    and "write_header v1 (of_nat sizeof_ZFTPMerkleRecord * rq_num_tree_locations req) = (zmr, v2)"
    and "fill_merkle_records f req zmr 0 (unat (rq_num_tree_locations req)) v2 = Some v3"
    and "write_header v3 (rq_padding_request req) = (padding, v4)"
    and "mb_store v4 padding (replicate (unat (rq_padding_request req)) 0) = Some v5"
    and "write_blocks_to_buf env f bc v5 0 (dr_start rg) (dr_size rg) = Some (bc', v6)"
    and "get_payload_len v6 = dr_size rg" and "ucast (rq_num_tree_locations req) = (of_nat m :: u16)"
    and "mb_store v6 zdp_ptr (data_packet_bytes (reply_packet f m (unat (rq_padding_request req)) rg)) = Some v7"
  shows "valid_fill_reply env f bc req v0 = Some (bc', v7)"
  using assms by (simp add: valid_fill_reply_def reply_packet_def)

lemma valid_fill_reply_ok:
  assumes "env_ok env" and "servable f" and "memory_cache env bc" and "answerable f bc req locs rg"
    and "length buf = 61 + 24 * length locs + unat (rq_padding_request req) + unat (dr_size rg)"
    and "length buf < 4294967296"
  defines "m \<equiv> length locs" and "pad \<equiv> unat (rq_padding_request req)" and "n \<equiv> unat (dr_size rg)"
  shows "\<exists>bc'. valid_fill_reply env f bc req (MemBuf_new buf)
      = Some (bc', vbuf (data_packet_bytes (reply_packet f m pad rg) @ record_images f locs @ replicate pad 0
                         @ file_slice f bc (unat (dr_start rg)) n) (61 + 24 * m + pad) n)
    \<and> blocks bc' = blocks bc"
proof -
  have avail: "get_available_data_range f req = Some rg" and num: "rq_num_tree_locations req = of_nat m"
    and m: "m < 65536" and locs: "\<And>i. i < length locs \<Longrightarrow> get_tree_location req (of_nat i) = Some (locs ! i)"
    and known: "\<And>loc. loc \<in> set locs \<Longrightarrow> unat loc < nodes f \<and> st f (unat loc) = v_validated"
    using assms(4) by (auto simp: answerable_def m_def)
  have len: "length buf = 61 + 24 * m + pad + n" "61 + 24 * m + pad + n < 4294967296"
    using assms(5,6) by (simp_all add: m_def pad_def n_def)
  obtain Z R P D where buf: "buf = Z @ R @ P @ D" and lens: "length Z = 61" "length R = 24 * m" "length P = pad" "length D = n"
  proof (rule that)
    show "buf = take 61 buf @ take (24 * m) (drop 61 buf) @ take pad (drop (24 * m) (drop 61 buf)) @ drop pad (drop (24 * m) (drop 61 buf))"
      by (simp only: append_take_drop_id)
  qed (use len(1) in simp_all)
  have um: "unat (of_nat m :: u32) = m" using m by (intro unat_of_nat_u32) simp
  let ?rec = "record_images f locs" and ?slice = "file_slice f bc (unat (dr_start rg)) n"
  have records: "fill_merkle_records f req (of_nat 61) 0 m (vbuf (Z @ R @ (P @ D)) (61 + 24 * m) 0) = Some (vbuf (Z @ ?rec @ (P @ D)) (61 + 24 * m) 0)"
    using fill_merkle_records_ok [OF _ known, of locs req 0 "vbuf (Z @ R @ (P @ D)) (61 + 24 * m) 0" Z R "P @ D" 61] assms(2) locs lens len(2)
    by (simp add: servable_def m_def vbuf_def)
  have padding: "mb_store (vbuf ((Z @ ?rec) @ P @ D) (61 + 24 * m + pad) 0) (of_nat (61 + 24 * m)) (replicate pad 0)
      = Some (vbuf ((Z @ ?rec) @ replicate pad 0 @ D) (61 + 24 * m + pad) 0)"
    by (rule vbuf_store) (use lens len(2) in \<open>simp_all add: m_def\<close>)
  obtain bc' where blocks: "write_blocks_to_buf env f bc (vbuf (((Z @ ?rec) @ replicate pad 0) @ D) (61 + 24 * m + pad) 0) 0 (dr_start rg) (dr_size rg)
      = Some (bc', vbuf (((Z @ ?rec) @ replicate pad 0) @ ?slice) (61 + 24 * m + pad) n)" "blocks bc' = blocks bc"
    using vbuf_blocks [OF assms(1-4), of "(Z @ ?rec) @ replicate pad 0" "61 + 24 * m + pad" D] lens len(2)
    by (auto simp: n_def m_def)
  let ?p = "data_packet_bytes (reply_packet f m pad rg)"
  have store: "mb_store (vbuf ([] @ Z @ (?rec @ replicate pad 0 @ ?slice)) (61 + 24 * m + pad) n) (of_nat 0) ?p
      = Some (vbuf ([] @ ?p @ (?rec @ replicate pad 0 @ ?slice)) (61 + 24 * m + pad) n)"
    by (rule vbuf_store) (use lens(1) in simp_all)
  have start: "MemBuf_new buf = vbuf (Z @ R @ (P @ D)) 0 0" by (simp add: MemBuf_new_def vbuf_def buf)
  have "valid_fill_reply env f bc req (MemBuf_new buf) = Some (bc', vbuf (?p @ ?rec @ replicate pad 0 @ ?slice) (61 + 24 * m + pad) n)"
    unfolding start
  proof (rule valid_fill_reply_steps [OF vbuf_header avail])
    show "write_header (vbuf (Z @ R @ (P @ D)) (0 + sizeof_ZFTPDataPacket) 0) (of_nat sizeof_ZFTPMerkleRecord * rq_num_tree_locations req)
        = (of_nat 61, vbuf (Z @ R @ (P @ D)) (61 + 24 * m) 0)"
      using vbuf_header [of "Z @ R @ (P @ D)" 61 0 "24 * m"] by (simp add: num)
    show "fill_merkle_records f req (of_nat 61) 0 (unat (rq_num_tree_locations req)) (vbuf (Z @ R @ (P @ D)) (61 + 24 * m) 0)
        = Some (vbuf (Z @ ?rec @ (P @ D)) (61 + 24 * m) 0)"
      using records by (simp only: num um)
    show "write_header (vbuf (Z @ ?rec @ (P @ D)) (61 + 24 * m) 0) (rq_padding_request req)
        = (of_nat (61 + 24 * m), vbuf (Z @ ?rec @ (P @ D)) (61 + 24 * m + pad) 0)"
      using vbuf_header [of "Z @ ?rec @ (P @ D)" "61 + 24 * m" 0 pad] by (simp add: pad_def)
    show "ucast (rq_num_tree_locations req) = (of_nat m :: u16)" by (simp add: num ucast_of_nat_down)
    show "get_payload_len (vbuf (((Z @ ?rec) @ replicate pad 0) @ ?slice) (61 + 24 * m + pad) n) = dr_size rg"
      by (simp add: get_payload_len_def vbuf_def n_def)
  qed (use padding blocks(1) store in \<open>simp_all add: pad_def\<close>)
  then show ?thesis using blocks(2) by blast
qed

lemma reply_packet_fields [simp]:
  "z_ntohs (zdp_code (reply_packet f m pad rg)) = zftp_reply_data"
  "z_ntohs (zdp_num_merkle_records (reply_packet f m pad rg)) = of_nat m"
  "z_ntohl (zdp_padding_size (reply_packet f m pad rg)) = of_nat pad"
  "z_ntohl (state_id (zdp_compression_context (reply_packet f m pad rg))) = ZFTP_NO_COMPRESSION"
  "z_ntohl (zdp_data_start (reply_packet f m pad rg)) = dr_start rg"
  "z_ntohl (zdp_data_end (reply_packet f m pad rg)) = dr_end rg"
  by (simp_all add: reply_packet_def z_ntohs_def z_ntohl_def)

lemma parse_filled_reply:
  assumes "m = length locs" and "m < 65536" and "61 + 24 * m + pad + length payload < 4294967296"
    and bs_def: "bs = data_packet_bytes (reply_packet f m pad rg) @ record_images f locs @ replicate pad 0 @ payload"
  shows "parse_reply zl zc bs = Some (Some \<lparr>rp_zdp = reply_packet f m pad rg,
    rp_raw_records = map (reply_record f) locs, rp_payload = payload, rp_data_range = rg\<rparr>, zc)"
proof -
  have zdp: "data_packet_of bs = reply_packet f m pad rg" unfolding bs_def by simp
  have code: "field 0 2 bs = zdp_code (data_packet_of bs)" by (simp add: data_packet_of_def)
  have len: "length bs = 61 + 24 * m + pad + length payload" using assms(1) by (simp add: bs_def)
  have um: "unat (of_nat m :: u16) = m" using assms(2) by (simp add: unat_of_nat)
  have ulen: "unat (of_nat (length bs) :: u32) = length bs" using len assms(3) by (intro unat_of_nat_u32) simp
  have prefix: "of_nat (61 + 24 * m) + of_nat pad = (of_nat (61 + 24 * m + pad) :: u32)" by simp
  have upre: "unat (of_nat (61 + 24 * m + pad) :: u32) = 61 + 24 * m + pad" using assms(3) by (intro unat_of_nat_u32) simp
  have "merkle_record_of (drop (61 + 24 * i) bs) = reply_record f (locs ! i)" if "i < m" for i
  proof -
    have i: "i < length locs" using \<open>i < m\<close> assms(1) by simp
    obtain rest where "drop (24 * i) (record_images f locs @ replicate pad 0 @ payload) = merkle_record_bytes (reply_record f (locs ! i)) @ rest"
      using drop_record_images [OF i, of f "replicate pad 0 @ payload"] by blast
    then have "drop (61 + 24 * i) bs = merkle_record_bytes (reply_record f (locs ! i)) @ rest"
      by (simp add: bs_def drop_drop [symmetric] add.commute [of 61] del: drop_drop drop_append) simp
    then show ?thesis by simp
  qed
  then have records: "map (\<lambda>i. merkle_record_of (drop (61 + 24 * i) bs)) [0..<m] = map (reply_record f) locs"
    by (intro nth_equalityI) (simp_all add: assms(1))
  have payload: "drop (61 + 24 * m + pad) bs = payload" using assms(1) by (simp add: bs_def)
  have "records_end = 61 + 24 * m \<Longrightarrow> of_nat records_end + of_nat pad = (of_nat (61 + 24 * m + pad) :: u32)" for records_end
    by simp
  then show ?thesis
    unfolding parse_reply_def reply_context_def Let_def code zdp reply_packet_fields um sizeof_simps records prefix upre payload
    using len ulen upre by (simp add: word_less_nat_alt DataRange_of_def)
qed

section \<open>A small file\<close>

text \<open>A file of five bytes: its only block is the root of its tree.\<close>

definition small_metadata :: ZFTPFileMetadata where
  "small_metadata = \<lparr>file_len_network_order = z_htonl 5, flags = 0\<rparr>"

definition small_file :: ZCachedFile where
  "small_file = tree_set (configure_from_metadata
       ((ZCachedFile_new (compute_file_hash sample_env small_metadata 65536))\<lparr>metadata := small_metadata\<rparr>)) 0
     \<lparr>vmr_hash = 65536, vmr_state = v_validated\<rparr>"

lemma small_file_facts:
  shows "file_ok sample_env small_file" and "metadata_state small_file = v_validated" and "get_filelen small_file = 5"
    and "leaf_known small_file 0" and "leaf_hash small_file 0 = 65536" and "nodes small_file = 1" and "num_blocks small_file = 1"
proof -
  let ?f = "(ZCachedFile_new (compute_file_hash sample_env small_metadata 65536))\<lparr>metadata := small_metadata\<rparr>"
  have base: "\<not> is_origin ?f" "ht_ready vmr_hash_func vmr_cmp_func (parents_of_tentative_nodes ?f)"
    "ht_data (parents_of_tentative_nodes ?f) = {#}"
    using file_ok_new [of sample_env] by (simp_all add: file_ok_def)
  note conf = configured_tree(1) [OF base, where env = sample_env and root = 65536, folded small_file_def]
    configured_tree(2-) [OF base, where root = 65536, folded small_file_def]
  have "metadata small_file = small_metadata" using conf(6) by simp
  then show len: "get_filelen small_file = 5" by (simp add: get_filelen_def small_metadata_def z_ntohl_def)
  show "metadata_state small_file = v_validated" by (rule conf(4))
  have "file_hash small_file = compute_file_hash sample_env (metadata small_file) (hs small_file 0)"
    using conf(2,5) \<open>metadata small_file = small_metadata\<close> by (simp add: ZCachedFile_new_def zcf_ctor_init_def)
  then show "file_ok sample_env small_file"
    using conf base unfolding file_ok_def by simp
  have "compute_num_blocks 5 = 1" by code_simp
  then show nb: "num_blocks small_file = 1" using conf(7) len by simp
  have "compute_tree_depth 1 = 0" by code_simp
  then have d: "tree_depth small_file = 0" using conf(8) nb by simp
  have "tree_sized small_file" using conf(1) by (simp add: merkle_inv_def)
  then show "nodes small_file = 1" using tree_sized_nodes(1) [of small_file] d by simp
  show "leaf_known small_file 0" using conf(1) d by (simp add: leaf_known_def merkle_inv_def pos_def)
  show "leaf_hash small_file 0 = 65536" using conf(2) d by (simp add: pos_def)
qed

lemma small_servable: "servable small_file"
  using servable_file_ok [OF small_file_facts(1,2)] small_file_facts(3) by simp

lemma memory_cache_init: "memory_cache env (ZBlockCache_init None)"
  using ZBlockCache_init_ok [of env None] by (simp add: memory_cache_def db_ok_def ZBlockCache_init_def)

lemma small_cache:
  obtains bc where "memory_cache sample_env bc" and "block_ready small_file bc 0"
proof -
  obtain z where z: "zbcr_hash z = block_hash sample_env [1, 2, 3, 4, 5]" "zbcr_valid z" "zbcr_ok sample_env z"
    using zbcr_from_data_hash [OF sample_env_ok, of "[1, 2, 3, 4, 5]"] by auto
  have "block_hash sample_env [1, 2, 3, 4, 5] = 65536" by (simp add: block_hash_def sample_env_def)
  then obtain bc where "memory_cache sample_env bc" "blocks bc = (blocks (ZBlockCache_init None))(65536 \<mapsto> z)"
    using block_insert_memory [OF memory_cache_init z(3), of 65536] z(1) by (auto simp: ZBlockCache_init_def)
  then show thesis
    using that [of bc] z(2) small_file_facts(4,5) by (auto simp: block_ready_def valid_in_def)
qed

definition small_request :: ZFileRequest where
  "small_request = \<lparr>rq_bytes = replicate 52 0, rq_zrp = ZFTPRequestPacketInit 0 5 1 3 \<lparr>state_id = 0, seq_id = 0\<rparr> 0 5,
     rq_num_tree_locations = 1, rq_padding_request = 3, rq_compression_context = \<lparr>state_id = 0, seq_id = 0\<rparr>,
     rq_data_range = DataRange_of 0 5, rq_url_hint = None\<rparr>"

lemma small_answerable:
  assumes "block_ready small_file bc 0"
  shows "answerable small_file bc small_request [0] (DataRange_of 0 5)"
proof -
  have "get_available_data_range small_file small_request = Some (DataRange_of 0 5)"
    using small_file_facts(2,3)
    by (simp add: get_available_data_range_def get_file_data_range_def small_request_def intersect_def DataRange_of_def
        is_empty_def Let_def)
  moreover have "block_of x = 0" if "x \<in> dr_set (DataRange_of 0 5)" for x
    using that by (auto simp: block_of_eq dr_set_def DataRange_of_def word_less_nat_alt)
  moreover have "get_tree_location small_request 0 = Some 0" by code_simp
  moreover have "st small_file 0 = v_validated"
    using small_file_facts(1,2) by (auto simp: file_ok_def merkle_inv_def)
  ultimately show ?thesis using assms small_file_facts(6) by (simp add: answerable_def small_request_def)
qed

section \<open>Properties\<close>

text \<open>
  C11: the missing set of a request.  Take a validated file of at most 0xffff0000 bytes, a block cache without a
  database behind it, and a packet limit that is not zero, and let every known block of the range that is not valid
  have its gap before the end of the range (\<open>gaps_inside\<close>): no other file has filled a shared block up to or beyond
  that end without completing it.  Then the computation ends without an assertion; the result is empty exactly when
  every block of the range, rounded to blocks and cut at the end of the file, is known and valid, and it holds only
  bytes of the range whose blocks are not there.  The bytes of the request that the file has all lie in that range.
\<close>

theorem missing_set_exact:
  assumes "env_ok env" and "file_ok env f" and "metadata_state f = v_validated" and "get_filelen f \<le> 0xffff0000"
    and "bc_ok env bc" and "zblockDB bc = None" and "client_max_payload conf \<noteq> Some 0"
    and "eligible_range f r = Some e" and "gaps_inside f bc e"
  shows "\<exists>m bc'. compute_missing_set env conf f bc r = Some (m, bc')
    \<and> (is_empty m \<longleftrightarrow> (\<forall>x \<in> dr_set e. block_ready f bc (block_of x)))
    \<and> (\<forall>x \<in> dr_set m. x \<in> dr_set e \<and> \<not> block_ready f bc (block_of x))
    \<and> dr_set r \<inter> {..<get_filelen f} \<subseteq> dr_set e"
proof -
  have "servable f" by (rule servable_file_ok [OF assms(2-4)])
  moreover have "memory_cache env bc" using assms(5,6) by (simp add: memory_cache_def)
  ultimately show ?thesis
    using compute_missing_ok [OF assms(1) _ _ assms(7-9)] eligible_range_facts(3) [OF _ assms(8)]
    unfolding missing_so_far_def by blast
qed

theorem missing_set_exact_witness:
  "\<exists>e m bc'. eligible_range small_file (DataRange_of 0 5) = Some e
    \<and> compute_missing_set sample_env sample_conf small_file (ZBlockCache_init None) (DataRange_of 0 5) = Some (m, bc')
    \<and> \<not> is_empty m"
proof -
  obtain e where e: "eligible_range small_file (DataRange_of 0 5) = Some e"
    using small_file_facts(2) by (simp add: eligible_range_def get_file_data_range_def)
  have bc: "bc_ok sample_env (ZBlockCache_init None)" using memory_cache_init [of sample_env] by (simp add: memory_cache_def)
  have gaps: "gaps_inside small_file (ZBlockCache_init None) e" by (simp add: gaps_inside_def ZBlockCache_init_def)
  have conf: "client_max_payload sample_conf \<noteq> Some 0" by (simp add: sample_conf_def)
  obtain m bc' where m: "compute_missing_set sample_env sample_conf small_file (ZBlockCache_init None) (DataRange_of 0 5) = Some (m, bc')"
      "is_empty m \<longleftrightarrow> (\<forall>x \<in> dr_set e. block_ready small_file (ZBlockCache_init None :: (hash_t \<Rightarrow> bytes option) ZBlockCache) (block_of x))"
      "dr_set (DataRange_of 0 5) \<inter> {..<5} \<subseteq> dr_set e"
    using missing_set_exact [OF sample_env_ok small_file_facts(1,2) _ bc _ conf e gaps] small_file_facts(3)
    by (auto simp: ZBlockCache_init_def)
  have "0 \<in> dr_set (DataRange_of 0 5) \<inter> {..<5}" by (simp add: dr_set_def DataRange_of_def)
  then have "0 \<in> dr_set e" using m(3) by blast
  then have "\<not> is_empty m" unfolding m(2) by (auto simp: block_ready_def valid_in_def ZBlockCache_init_def)
  then show ?thesis using e m(1) by blast
qed

text \<open>
  C4: a reply carries what was asked for.  When the hashes a request names are validated and the blocks of
  its bytes are there, the server fills a buffer of the size it computed, to the last byte and without an
  assertion, and the client that parses the packet gets the metadata and the hash of the file, the named
  hashes in order, and exactly the requested bytes that the file has.
\<close>

theorem reply_carries_file:
  assumes "env_ok env" and "file_ok env f" and "metadata_state f = v_validated" and "get_filelen f \<le> 0xffff0000"
    and "bc_ok env bc" and "zblockDB bc = None" and "answerable f bc req locs rg"
    and "length buf = 61 + 24 * length locs + unat (rq_padding_request req) + unat (dr_size rg)" and "length buf < 2 ^ 32"
  shows "\<exists>bc' vb reply. valid_fill_reply env f bc req (MemBuf_new buf) = Some (bc', vb)
    \<and> valid_reply_size f req = Some (get_packet_len vb) \<and> length (mb_buffer vb) = unat (get_packet_len vb)
    \<and> parse_reply zl zc (mb_buffer vb) = Some (Some reply, zc)
    \<and> rp_metadata reply = metadata f \<and> rp_filehash reply = file_hash f
    \<and> rp_raw_records reply = map (\<lambda>loc. \<lparr>tree_location = z_htonl loc, zmr_hash = hs f (unat loc)\<rparr>) locs
    \<and> rp_data_range reply = rg \<and> dr_set rg = dr_set (rq_data_range req) \<inter> {..<get_filelen f}
    \<and> rp_payload reply = file_slice f bc (unat (dr_start rg)) (unat (dr_size rg))"
proof -
  have serv: "servable f" by (rule servable_file_ok [OF assms(2-4)])
  have mem: "memory_cache env bc" using assms(5,6) by (simp add: memory_cache_def)
  have avail: "get_available_data_range f req = Some rg" and num: "rq_num_tree_locations req = of_nat (length locs)"
    and m: "length locs < 65536" using assms(7) by (simp_all add: answerable_def)
  have lim: "length buf < 4294967296" using assms(9) by simp
  let ?n = "unat (dr_size rg)" and ?pad = "unat (rq_padding_request req)"
  let ?slice = "file_slice f bc (unat (dr_start rg)) ?n"
  let ?bs = "data_packet_bytes (reply_packet f (length locs) ?pad rg) @ record_images f locs @ replicate ?pad 0 @ ?slice"
  let ?vb = "vbuf ?bs (61 + 24 * length locs + ?pad) ?n"
  obtain bc' where fill: "valid_fill_reply env f bc req (MemBuf_new buf) = Some (bc', ?vb)"
    using valid_fill_reply_ok [OF assms(1) serv mem assms(7,8) lim] by blast
  have packet: "get_packet_len ?vb = of_nat (length buf)"
    using assms(8) by (simp add: get_packet_len_def get_payload_len_def vbuf_def)
  have "valid_reply_size f req = Some (of_nat (length buf))"
    using assms(8) avail num by (simp add: valid_reply_size_def)
  moreover have "length (mb_buffer ?vb) = length buf" using assms(8) by (simp add: vbuf_def)
  moreover have "unat (of_nat (length buf) :: u32) = length buf" by (rule unat_of_nat_u32 [OF assms(9)])
  moreover have "parse_reply zl zc (mb_buffer ?vb) = Some (Some \<lparr>rp_zdp = reply_packet f (length locs) ?pad rg,
      rp_raw_records = map (reply_record f) locs, rp_payload = ?slice, rp_data_range = rg\<rparr>, zc)"
    using parse_filled_reply [OF refl m, of ?pad ?slice ?bs f rg] lim assms(8) by (simp add: vbuf_def)
  ultimately show ?thesis
    using fill packet available_range_facts(3) [OF serv avail]
    by (auto simp: rp_metadata_def rp_filehash_def reply_packet_def reply_record_def)
qed

theorem reply_carries_file_witness:
  "\<exists>bc vb reply. bc_ok sample_env bc
    \<and> map_option snd (valid_fill_reply sample_env small_file bc small_request (MemBuf_new (replicate 93 9))) = Some vb
    \<and> parse_reply sample_zlib sample_compression (mb_buffer vb) = Some (Some reply, sample_compression)
    \<and> rp_raw_records reply = [\<lparr>tree_location = z_htonl 0, zmr_hash = 65536\<rparr>]
    \<and> rp_payload reply = file_slice small_file bc 0 5"
proof -
  obtain bc where bc: "memory_cache sample_env bc" "block_ready small_file bc 0" by (rule small_cache)
  have ok: "bc_ok sample_env bc" "zblockDB bc = None" using bc(1) by (simp_all add: memory_cache_def)
  have sizes: "dr_size (DataRange_of 0 5) = 5" "dr_start (DataRange_of 0 5) = 0" "rq_padding_request small_request = 3"
    by (simp_all add: dr_size_def DataRange_of_def small_request_def)
  have hash0: "hs small_file 0 = 65536"
    using small_file_facts(5,6) pos_in_nodes [of 0 "tree_depth small_file" 0] by (simp add: small_file_def tree_set_def)
  have "\<exists>bc' vb reply. valid_fill_reply sample_env small_file bc small_request (MemBuf_new (replicate 93 9)) = Some (bc', vb)
    \<and> valid_reply_size small_file small_request = Some (get_packet_len vb) \<and> length (mb_buffer vb) = unat (get_packet_len vb)
    \<and> parse_reply sample_zlib sample_compression (mb_buffer vb) = Some (Some reply, sample_compression)
    \<and> rp_metadata reply = metadata small_file \<and> rp_filehash reply = file_hash small_file
    \<and> rp_raw_records reply = map (\<lambda>loc. \<lparr>tree_location = z_htonl loc, zmr_hash = hs small_file (unat loc)\<rparr>) [0]
    \<and> rp_data_range reply = DataRange_of 0 5
    \<and> dr_set (DataRange_of 0 5) = dr_set (rq_data_range small_request) \<inter> {..<get_filelen small_file}
    \<and> rp_payload reply = file_slice small_file bc (unat (dr_start (DataRange_of 0 5))) (unat (dr_size (DataRange_of 0 5)))"
    by (rule reply_carries_file [OF sample_env_ok small_file_facts(1,2) _ ok small_answerable [OF bc(2)]])
       (simp_all add: small_file_facts(3) sizes)
  then show ?thesis using ok(1) hash0 by (auto simp: sizes)
qed

section \<open>A block that two files share\<close>

lemma small_gap_pruned:
  assumes "dr_end e \<le> gap"
  shows "is_empty (intersect (DataRange_of gap ZFTP_BLOCK_SIZE) e)"
  using assms by (auto simp: intersect_def is_empty_def DataRange_of_def DataRange_empty_def Let_def min_def max_def)

lemma shared_block_missing:
  assumes "env_ok env" and "servable f" and "memory_cache env bc" and "get_filelen f \<le> ZFTP_BLOCK_SIZE"
    and "leaf_known f 0" and "blocks bc (leaf_hash f 0) = Some z" and "\<not> zbcr_valid z" and "get_filelen f \<le> next_gap z"
    and "eligible_range f r = Some e"
  shows "\<exists>m bc'. compute_missing_set env conf f bc r = Some (m, bc') \<and> is_empty m \<and> memory_cache env bc' \<and> blocks bc' = blocks bc"
proof (cases "dr_start e < dr_end e")
  case False
  then have "missing_set_loop (Suc n) env f maxp e (dr_start e) DataRange_empty bc = Some (DataRange_empty, bc)" for n maxp
    by simp
  from this [of 65536] show ?thesis
    using assms(3,9) by (simp add: compute_missing_set_def is_empty_def DataRange_empty_def Let_def)
next
  case True
  note e = eligible_range_facts [OF assms(2,9)]
  have "unat (dr_end e) \<le> 65536" using e(2) assms(4) by (simp add: word_le_nat_alt)
  then have "unat (dr_start e) < 65536" using True by (simp add: word_less_nat_alt)
  then have "unat (dr_start e) = 0" using e(4) unfolding block_of_eq by simp
  then have s: "dr_start e = 0" by (simp only: unat_eq_0)
  have round: "in_round f e 0 0" using True e(2) s by (simp add: in_round_def)
  note b = in_round_block [OF assms(2) round]
  obtain bc' where look: "lookup_block env f bc 0 v_validated = Some (Some (leaf_hash f 0), bc')" "memory_cache env bc'"
      "blocks bc' = blocks bc"
    using lookup_block_memory(2) [OF assms(1,3,2) b(1) assms(5)] assms(6) by (auto simp: expected_in_def fun_upd_idem)
  let ?r = "intersect (DataRange_of (next_gap z) ZFTP_BLOCK_SIZE) e"
  have empty: "is_empty ?r" using small_gap_pruned [of e "next_gap z"] e(2) assms(8) by simp
  have add: "add_missing env f e 0 0 DataRange_empty bc = Some (Some ?r, bc')"
    using look(1,3) assms(6,7)
    by (simp add: add_missing_def Let_def get_missing_range_def maybe_accumulate_range_def maybe_accumulate_def
        DataRange_of_def DataRange_empty_def is_empty_def)
  have "\<not> ZFTP_BLOCK_SIZE < dr_end e" using e(2) assms(4) by simp
  then have stop: "missing_set_loop (Suc n) env f maxp e ZFTP_BLOCK_SIZE ?r bc' = Some (?r, bc')" for n maxp by simp
  have "missing_set_loop (Suc (Suc n)) env f maxp e 0 DataRange_empty bc = Some (?r, bc')" for n maxp
    using True b(1) add s stop
    by (subst missing_set_loop.simps(2))
       (simp add: word_le_nat_alt ZFTP_BLOCK_SIZE_def ZFTP_LG_BLOCK_SIZE_def del: missing_set_loop.simps)
  from this [of 65535] show ?thesis using empty look(2,3) assms(9) s by (simp add: compute_missing_set_def Let_def)
qed

text \<open>
  C34: a partly filled block that another file shares.  Blocks are found by their hash, so the only block of
  a short file may be one that a longer file has begun to fill.  If that filling already reaches past the end
  of the short file, the missing set of every request is empty although the block is not valid: nothing is
  requested from the server, the request counts as complete, and filling its reply fails the assertion that
  the block is valid, whatever the buffer.
\<close>

theorem shared_block_unanswerable:
  assumes "env_ok env" and "file_ok env f" and "metadata_state f = v_validated"
    and "0 < get_filelen f" and "get_filelen f \<le> ZFTP_BLOCK_SIZE" and "bc_ok env bc" and "zblockDB bc = None"
    and "leaf_known f 0" and "blocks bc (leaf_hash f 0) = Some z" and "\<not> zbcr_valid z" and "get_filelen f \<le> next_gap z"
  shows "\<exists>m bc'. compute_missing_set env conf f bc r = Some (m, bc') \<and> is_empty m
    \<and> (\<forall>mb packet_data_offset. write_blocks_to_buf env f bc' mb packet_data_offset 0 (get_filelen f) = None)"
proof -
  have "get_filelen f \<le> 0xffff0000" using assms(5) by (simp add: word_le_nat_alt)
  then have serv: "servable f" by (rule servable_file_ok [OF assms(2,3)])
  have mem: "memory_cache env bc" using assms(6,7) by (simp add: memory_cache_def)
  obtain e where e: "eligible_range f r = Some e"
    using assms(3) by (simp add: eligible_range_def get_file_data_range_def)
  obtain m bc1 where m: "compute_missing_set env conf f bc r = Some (m, bc1)" "is_empty m" "memory_cache env bc1"
      "blocks bc1 = blocks bc"
    using shared_block_missing [OF assms(1) serv mem assms(5,8-11) e] by blast
  have "0 < unat (num_blocks f)" using serv assms(4) by (auto simp: servable_def word_less_nat_alt intro!: gr0I)
  then obtain bc2 where "lookup_block env f bc1 0 v_validated = Some (Some (leaf_hash f 0), bc2)" "blocks bc2 = blocks bc"
    using lookup_block_memory(2) [OF assms(1) m(3) serv _ assms(8)] assms(9) m(4) by (auto simp: expected_in_def fun_upd_idem)
  then have "write_blocks_loop (Suc n) env f off 0 (get_filelen f) 0 0 0 bc1 mb = None" for n mb off
    using assms(4,9,10) by simp
  from this [of 65536] have "write_blocks_to_buf env f bc1 mb off 0 (get_filelen f) = None" for mb off
    by (simp add: write_blocks_to_buf_def)
  then show ?thesis using m(1,2) by blast
qed

theorem shared_block_unanswerable_witness:
  "\<exists>bc m bc'. bc_ok sample_env bc
    \<and> compute_missing_set sample_env sample_conf small_file bc (DataRange_of 0 5) = Some (m, bc') \<and> is_empty m
    \<and> write_blocks_to_buf sample_env small_file bc' (MemBuf_new (replicate 93 9)) 88 0 5 = None"
proof -
  let ?z = "(zbcr_expected sample_env 65536)\<lparr>next_gap := 10\<rparr>"
  have z: "zbcr_ok sample_env ?z" "zbcr_hash ?z = 65536" "\<not> zbcr_valid ?z"
    using zbcr_expected_ok [OF sample_env_ok, of 65536]
    by (simp_all add: zbcr_ok_def zbcr_expected_def zbcr_common_init_def ZFTP_BLOCK_SIZE_def ZFTP_LG_BLOCK_SIZE_def)
  obtain bc where bc: "memory_cache sample_env bc" "blocks bc = (blocks (ZBlockCache_init None))(65536 \<mapsto> ?z)"
    using block_insert_memory [OF memory_cache_init z(1,2)] by (auto simp: ZBlockCache_init_def)
  have ok: "bc_ok sample_env bc" "zblockDB bc = None" using bc(1) by (simp_all add: memory_cache_def)
  have len: "0 < get_filelen small_file" "get_filelen small_file \<le> ZFTP_BLOCK_SIZE" "get_filelen small_file \<le> next_gap ?z"
    by (simp_all add: small_file_facts(3) ZFTP_BLOCK_SIZE_def ZFTP_LG_BLOCK_SIZE_def)
  have "blocks bc (leaf_hash small_file 0) = Some ?z" using bc(2) small_file_facts(5) by simp
  from shared_block_unanswerable [OF sample_env_ok small_file_facts(1,2) len(1,2) ok small_file_facts(4) this z(3) len(3),
      of sample_conf "DataRange_of 0 5"]
  show ?thesis using ok(1) by (auto simp: small_file_facts(3))
qed

end
