(* ===== verification/Linked_List.thy ===== *)
theory Linked_List
  imports Zoog_Prelude
begin

text \<open>
  The doubly linked list of \<^verbatim>\<open>common/utils/linked_list.c\<close> and the iterator of \<^verbatim>\<open>linked_list.h\<close>, on an explicit
  store: memory is a partial map from addresses to links, and \<^const>\<open>None\<close> as an address is \<^verbatim>\<open>NULL\<close>.  Following
  an address at which there is no link is \<^const>\<open>None\<close>, and so is a loop that does not end.  \<^verbatim>\<open>mf_malloc\<close> is the
  argument \<open>mf\<close>, which yields an address for a new link; the allocated memory is used for this list and
  others alike, so the results also say what happens to the rest of the memory.
\<close>

section \<open>Definitions\<close>

type_synonym addr = nat

record 'a LinkedListLink =
  datum :: 'a
  link_next :: "addr option"
  link_prev :: "addr option"

type_synonym 'a memory = "addr \<rightharpoonup> 'a LinkedListLink"
type_synonym 'a malloc_factory = "'a memory \<Rightarrow> addr"

record LinkedList =
  ll_head :: "addr option"
  ll_tail :: "addr option"
  ll_count :: int

definition linked_list_init :: LinkedList where
  "linked_list_init = \<lparr>ll_head = None, ll_tail = None, ll_count = 0\<rparr>"

definition linked_list_insert_head ::
    "'a malloc_factory \<Rightarrow> LinkedList \<Rightarrow> 'a memory \<Rightarrow> 'a \<Rightarrow> (LinkedList \<times> 'a memory) option" where
  "linked_list_insert_head mf ll h d =
     (let link = mf h;
          nxt = ll_head ll;
          h = h(link \<mapsto> \<lparr>datum = d, link_next = nxt, link_prev = None\<rparr>);
          ll = ll\<lparr>ll_head := Some link\<rparr> in do {
        (ll, h) \<leftarrow> (case nxt of
             None \<Rightarrow> Some (ll\<lparr>ll_tail := Some link\<rparr>, h)
           | Some b \<Rightarrow> do { l \<leftarrow> h b; Some (ll, h(b \<mapsto> l\<lparr>link_prev := Some link\<rparr>)) });
        Some (ll\<lparr>ll_count := ll_count ll + 1\<rparr>, h) })"

definition linked_list_insert_tail ::
    "'a malloc_factory \<Rightarrow> LinkedList \<Rightarrow> 'a memory \<Rightarrow> 'a \<Rightarrow> (LinkedList \<times> 'a memory) option" where
  "linked_list_insert_tail mf ll h d =
     (let link = mf h;
          prv = ll_tail ll;
          h = h(link \<mapsto> \<lparr>datum = d, link_next = None, link_prev = prv\<rparr>);
          ll = ll\<lparr>ll_tail := Some link\<rparr> in do {
        (ll, h) \<leftarrow> (case prv of
             None \<Rightarrow> Some (ll\<lparr>ll_head := Some link\<rparr>, h)
           | Some b \<Rightarrow> do { l \<leftarrow> h b; Some (ll, h(b \<mapsto> l\<lparr>link_next := Some link\<rparr>)) });
        Some (ll\<lparr>ll_count := ll_count ll + 1\<rparr>, h) })"

definition linked_list_remove_head ::
    "LinkedList \<Rightarrow> 'a memory \<Rightarrow> ('a option \<times> LinkedList \<times> 'a memory) option" where
  "linked_list_remove_head ll h =
     (case ll_head ll of
        None \<Rightarrow> do { lite_assert (ll_tail ll = None); Some (None, ll, h) }
      | Some link \<Rightarrow> do {
          l \<leftarrow> h link;
          let ll = ll\<lparr>ll_head := link_next l\<rparr>;
          (ll, h) \<leftarrow> (case link_next l of
               None \<Rightarrow> do { lite_assert (ll_tail ll = Some link); Some (ll\<lparr>ll_tail := None\<rparr>, h) }
             | Some b \<Rightarrow> do { n \<leftarrow> h b; Some (ll, h(b \<mapsto> n\<lparr>link_prev := None\<rparr>)) });
          l \<leftarrow> h link;
          Some (Some (datum l), ll\<lparr>ll_count := ll_count ll - 1\<rparr>, h(link := None)) })"

definition linked_list_remove_tail ::
    "LinkedList \<Rightarrow> 'a memory \<Rightarrow> ('a option \<times> LinkedList \<times> 'a memory) option" where
  "linked_list_remove_tail ll h =
     (case ll_tail ll of
        None \<Rightarrow> do { lite_assert (ll_head ll = None); Some (None, ll, h) }
      | Some link \<Rightarrow> do {
          l \<leftarrow> h link;
          let ll = ll\<lparr>ll_tail := link_prev l\<rparr>;
          (ll, h) \<leftarrow> (case link_prev l of
               None \<Rightarrow> do { lite_assert (ll_head ll = Some link); Some (ll\<lparr>ll_head := None\<rparr>, h) }
             | Some b \<Rightarrow> do { n \<leftarrow> h b; Some (ll, h(b \<mapsto> n\<lparr>link_next := None\<rparr>)) });
          l \<leftarrow> h link;
          Some (Some (datum l), ll\<lparr>ll_count := ll_count ll - 1\<rparr>, h(link := None)) })"

definition linked_list_remove_middle ::
    "LinkedList \<Rightarrow> 'a memory \<Rightarrow> addr \<Rightarrow> (LinkedList \<times> 'a memory) option" where
  "linked_list_remove_middle ll h link = do {
     l \<leftarrow> h link;
     (ll, h) \<leftarrow> (if ll_head ll = Some link then do {
                  lite_assert (link_prev l = None);
                  Some (ll\<lparr>ll_head := link_next l\<rparr>, h) }
                else do {
                  b \<leftarrow> link_prev l;
                  p \<leftarrow> h b;
                  Some (ll, h(b \<mapsto> p\<lparr>link_next := link_next l\<rparr>)) });
     l \<leftarrow> h link;
     (ll, h) \<leftarrow> (if ll_tail ll = Some link then do {
                  lite_assert (link_next l = None);
                  Some (ll\<lparr>ll_tail := link_prev l\<rparr>, h) }
                else do {
                  b \<leftarrow> link_next l;
                  n \<leftarrow> h b;
                  Some (ll, h(b \<mapsto> n\<lparr>link_prev := link_prev l\<rparr>)) });
     Some (ll\<lparr>ll_count := ll_count ll - 1\<rparr>, h(link := None)) }"

text \<open>The iterator: a position is the address of a link, or \<^verbatim>\<open>NULL\<close> at the end.\<close>

definition ll_advance :: "'a memory \<Rightarrow> addr \<Rightarrow> addr option option" where
  "ll_advance h li = map_option link_next (h li)"

definition ll_read :: "'a memory \<Rightarrow> addr \<Rightarrow> 'a option" where
  "ll_read h li = map_option datum (h li)"

definition ll_remove :: "LinkedList \<Rightarrow> 'a memory \<Rightarrow> addr \<Rightarrow> (addr option \<times> LinkedList \<times> 'a memory) option" where
  "ll_remove ll h li = do {
     nxt \<leftarrow> ll_advance h li;
     (ll, h) \<leftarrow> linked_list_remove_middle ll h li;
     Some (nxt, ll, h) }"

partial_function (option) find_from :: "'a memory \<Rightarrow> 'a \<Rightarrow> addr option \<Rightarrow> addr option option" where
  "find_from h d link =
     (case link of
        None \<Rightarrow> Some None
      | Some li \<Rightarrow> do {
          e \<leftarrow> ll_read h li;
          if e = d then Some (Some li)
          else do { nxt \<leftarrow> ll_advance h li; find_from h d nxt } })"

definition linked_list_find :: "LinkedList \<Rightarrow> 'a memory \<Rightarrow> 'a \<Rightarrow> addr option option" where
  "linked_list_find ll h d = find_from h d (ll_head ll)"

definition linked_list_remove :: "LinkedList \<Rightarrow> 'a memory \<Rightarrow> 'a \<Rightarrow> (LinkedList \<times> 'a memory) option" where
  "linked_list_remove ll h d = do {
     found \<leftarrow> find_from h d (ll_head ll);
     lli \<leftarrow> found;
     linked_list_remove_middle ll h lli }"

partial_function (option) visit_from ::
    "('a \<Rightarrow> 's \<Rightarrow> bool \<times> 's) \<Rightarrow> 'a memory \<Rightarrow> addr option \<Rightarrow> 's \<Rightarrow> 's option" where
  "visit_from visit h link s =
     (case link of
        None \<Rightarrow> Some s
      | Some li \<Rightarrow> do {
          l \<leftarrow> h li;
          (case visit (datum l) s of (carry_on, s) \<Rightarrow>
             if carry_on then visit_from visit h (link_next l) s else Some s) })"

definition linked_list_visit_all :: "LinkedList \<Rightarrow> 'a memory \<Rightarrow> ('a \<Rightarrow> 's \<Rightarrow> bool \<times> 's) \<Rightarrow> 's \<Rightarrow> 's option" where
  "linked_list_visit_all ll h visit s = visit_from visit h (ll_head ll) s"

section \<open>Chains of links\<close>

text \<open>The cells of a list, each an address with its datum, lie in memory linked in both directions.\<close>

fun first_cell :: "(addr \<times> 'a) list \<Rightarrow> addr option \<Rightarrow> addr option" where
  "first_cell [] n = n"
| "first_cell (c # cs) n = Some (fst c)"

fun last_cell :: "addr option \<Rightarrow> (addr \<times> 'a) list \<Rightarrow> addr option" where
  "last_cell p [] = p"
| "last_cell p (c # cs) = last_cell (Some (fst c)) cs"

fun chain :: "'a memory \<Rightarrow> addr option \<Rightarrow> (addr \<times> 'a) list \<Rightarrow> addr option \<Rightarrow> bool" where
  "chain h p [] n \<longleftrightarrow> True"
| "chain h p (c # cs) n \<longleftrightarrow> h (fst c) = Some \<lparr>datum = snd c, link_next = first_cell cs n, link_prev = p\<rparr>
     \<and> chain h (Some (fst c)) cs n"

definition holds :: "'a memory \<Rightarrow> LinkedList \<Rightarrow> (addr \<times> 'a) list \<Rightarrow> bool" where
  "holds h ll cs \<longleftrightarrow> distinct (map fst cs) \<and> chain h None cs None
     \<and> ll_head ll = first_cell cs None \<and> ll_tail ll = last_cell None cs \<and> ll_count ll = int (length cs)"

lemma first_cell_append [simp]: "first_cell (xs @ ys) n = first_cell xs (first_cell ys n)"
  by (cases xs) simp_all

lemma last_cell_append [simp]: "last_cell p (xs @ ys) = last_cell (last_cell p xs) ys"
  by (induction xs arbitrary: p) simp_all

lemma chain_append [simp]: "chain h p (xs @ ys) n \<longleftrightarrow> chain h p xs (first_cell ys n) \<and> chain h (last_cell p xs) ys n"
  by (induction xs arbitrary: p) auto

lemma chain_frame [simp]: "a \<notin> fst ` set cs \<Longrightarrow> chain (h(a := v)) p cs n = chain h p cs n"
  by (induction cs arbitrary: p) auto

lemma last_cell_None: "last_cell None cs = None \<longleftrightarrow> cs = []"
  by (cases cs rule: rev_cases) simp_all

lemma first_cell_None: "first_cell cs None = None \<longleftrightarrow> cs = []"
  by (cases cs) simp_all

text \<open>Relinking the end or the beginning of a chain.\<close>

lemma chain_relink_next:
  assumes "chain h p (cs @ [c]) n" and "distinct (map fst (cs @ [c]))"
  obtains l where "h (fst c) = Some l" and "chain (h(fst c \<mapsto> l\<lparr>link_next := n'\<rparr>)) p (cs @ [c]) n'"
  using assms by auto

lemma chain_relink_prev:
  assumes "chain h p (c # cs) n" and "distinct (map fst (c # cs))"
  obtains l where "h (fst c) = Some l" and "chain (h(fst c \<mapsto> l\<lparr>link_prev := p'\<rparr>)) p' (c # cs) n"
  using assms by auto

section \<open>Operations on the chain\<close>

text \<open>The list has its cells in memory, apart from the memory \<open>h0\<close> that was there before.\<close>

definition owns :: "'a memory \<Rightarrow> 'a memory \<Rightarrow> LinkedList \<Rightarrow> (addr \<times> 'a) list \<Rightarrow> bool" where
  "owns h0 h ll cs \<longleftrightarrow> holds h ll cs \<and> dom h = dom h0 \<union> fst ` set cs \<and> dom h0 \<inter> fst ` set cs = {}
     \<and> (\<forall>a \<in> dom h0. h a = h0 a)"

lemma owns_init: "owns h h linked_list_init []"
  by (simp add: owns_def holds_def linked_list_init_def)

lemma insert_head_ok:
  assumes "owns h0 h ll cs" and "mf h \<notin> dom h"
  obtains ll' h' where "linked_list_insert_head mf ll h d = Some (ll', h')" and "owns h0 h' ll' ((mf h, d) # cs)"
proof (cases cs)
  case Nil
  then show thesis
    using assms that [of "\<lparr>ll_head = Some (mf h), ll_tail = Some (mf h), ll_count = 1\<rparr>" "h(mf h \<mapsto> \<lparr>datum = d, link_next = None, link_prev = None\<rparr>)"]
    by (cases ll) (auto simp: linked_list_insert_head_def owns_def holds_def Let_def)
next
  case (Cons c rest)
  have new: "mf h \<noteq> fst c" "mf h \<notin> fst ` set rest" "mf h \<notin> dom h0" using assms Cons by (auto simp: owns_def)
  obtain l where l: "h (fst c) = Some l" "chain (h(fst c \<mapsto> l\<lparr>link_prev := Some (mf h)\<rparr>)) (Some (mf h)) cs None"
    using chain_relink_prev [of h None c rest None] assms(1) Cons by (auto simp: owns_def holds_def)
  let ?h = "h(fst c \<mapsto> l\<lparr>link_prev := Some (mf h)\<rparr>)"
  let ?h' = "?h(mf h \<mapsto> \<lparr>datum = d, link_next = Some (fst c), link_prev = None\<rparr>)"
  have "linked_list_insert_head mf ll h d = Some (ll\<lparr>ll_head := Some (mf h), ll_count := ll_count ll + 1\<rparr>, ?h')"
    using assms(1) Cons l(1) new(1)
    by (simp add: linked_list_insert_head_def owns_def holds_def Let_def fun_upd_twist)
  moreover have "owns h0 ?h' (ll\<lparr>ll_head := Some (mf h), ll_count := ll_count ll + 1\<rparr>) ((mf h, d) # cs)"
    using assms l(2) new Cons by (auto simp: owns_def holds_def)
  ultimately show thesis by (rule that)
qed

lemma insert_tail_ok:
  assumes "owns h0 h ll cs" and "mf h \<notin> dom h"
  obtains ll' h' where "linked_list_insert_tail mf ll h d = Some (ll', h')" and "owns h0 h' ll' (cs @ [(mf h, d)])"
proof (cases cs rule: rev_cases)
  case Nil
  then show thesis
    using assms that [of "\<lparr>ll_head = Some (mf h), ll_tail = Some (mf h), ll_count = 1\<rparr>" "h(mf h \<mapsto> \<lparr>datum = d, link_next = None, link_prev = None\<rparr>)"]
    by (cases ll) (auto simp: linked_list_insert_tail_def owns_def holds_def Let_def)
next
  case (snoc rest c)
  have new: "mf h \<noteq> fst c" "mf h \<notin> fst ` set rest" "mf h \<notin> dom h0" using assms snoc by (auto simp: owns_def)
  obtain l where l: "h (fst c) = Some l" "chain (h(fst c \<mapsto> l\<lparr>link_next := Some (mf h)\<rparr>)) None cs (Some (mf h))"
    using chain_relink_next [of h None rest c None] assms(1) snoc by (auto simp: owns_def holds_def)
  let ?h = "h(fst c \<mapsto> l\<lparr>link_next := Some (mf h)\<rparr>)"
  let ?h' = "?h(mf h \<mapsto> \<lparr>datum = d, link_next = None, link_prev = Some (fst c)\<rparr>)"
  have "linked_list_insert_tail mf ll h d = Some (ll\<lparr>ll_tail := Some (mf h), ll_count := ll_count ll + 1\<rparr>, ?h')"
    using assms(1) snoc l(1) new(1)
    by (simp add: linked_list_insert_tail_def owns_def holds_def Let_def fun_upd_twist)
  moreover have "owns h0 ?h' (ll\<lparr>ll_tail := Some (mf h), ll_count := ll_count ll + 1\<rparr>) (cs @ [(mf h, d)])"
    using assms l(2) new snoc by (auto simp: owns_def holds_def)
  ultimately show thesis by (rule that)
qed

lemma remove_middle_ok:
  assumes "owns h0 h ll (xs @ c # ys)"
  obtains ll' h' where "linked_list_remove_middle ll h (fst c) = Some (ll', h')" and "owns h0 h' ll' (xs @ ys)"
proof -
  have dist: "distinct (map fst (xs @ c # ys))" and ch: "chain h None (xs @ c # ys) None"
    using assms by (simp_all add: owns_def holds_def)
  have c: "h (fst c) = Some \<lparr>datum = snd c, link_next = first_cell ys None, link_prev = last_cell None xs\<rparr>" using ch by simp
  have head: "ll_head ll = Some (fst c) \<longleftrightarrow> xs = []" and tail: "ll_tail ll = Some (fst c) \<longleftrightarrow> ys = []"
    using assms dist by (cases xs; cases ys rule: rev_cases; auto simp: owns_def holds_def)+
  obtain h1 where h1: "(if xs = [] then h1 = h else (\<exists>b p. last_cell None xs = Some b \<and> h b = Some p
        \<and> h1 = h(b \<mapsto> p\<lparr>link_next := first_cell ys None\<rparr>)))" "chain h1 None xs (first_cell ys None)"
      "chain h1 (Some (fst c)) ys None" "\<forall>a. a \<notin> fst ` set xs \<longrightarrow> h1 a = h a" "dom h1 = dom h"
  proof (cases xs rule: rev_cases)
    case Nil
    then show thesis using that [of h] ch by simp
  next
    case (snoc us u)
    obtain l where "h (fst u) = Some l" "chain (h(fst u \<mapsto> l\<lparr>link_next := first_cell ys None\<rparr>)) None xs (first_cell ys None)"
      using chain_relink_next [of h None us u "Some (fst c)" "first_cell ys None"] ch dist snoc by auto
    then show thesis
      using that [of "h(fst u \<mapsto> l\<lparr>link_next := first_cell ys None\<rparr>)"] ch dist snoc by auto
  qed
  obtain h2 where h2: "(if ys = [] then h2 = h1 else (\<exists>b p. first_cell ys None = Some b \<and> h1 b = Some p
        \<and> h2 = h1(b \<mapsto> p\<lparr>link_prev := last_cell None xs\<rparr>)))" "chain h2 None xs (first_cell ys None)"
      "chain h2 (last_cell None xs) ys None" "\<forall>a. a \<notin> fst ` set ys \<longrightarrow> h2 a = h1 a" "dom h2 = dom h1"
  proof (cases ys)
    case Nil
    then show thesis using that [of h1] h1(2) by simp
  next
    case (Cons v vs)
    obtain l where "h1 (fst v) = Some l" "chain (h1(fst v \<mapsto> l\<lparr>link_prev := last_cell None xs\<rparr>)) (last_cell None xs) ys None"
      using chain_relink_prev [of h1 "Some (fst c)" v vs None "last_cell None xs"] h1(3) dist Cons by auto
    then show thesis
      using that [of "h1(fst v \<mapsto> l\<lparr>link_prev := last_cell None xs\<rparr>)"] h1(2) dist Cons by auto
  qed
  let ?ll = "ll\<lparr>ll_head := if xs = [] then first_cell ys None else ll_head ll,
      ll_tail := if ys = [] then last_cell None xs else ll_tail ll, ll_count := ll_count ll - 1\<rparr>"
  have "h1 (fst c) = h (fst c)" using h1(4) dist by auto
  then have "linked_list_remove_middle ll h (fst c) = Some (?ll, h2(fst c := None))"
    using h1(1) h2(1) c head tail
    by (auto simp: linked_list_remove_middle_def split: if_splits)
  moreover have "owns h0 (h2(fst c := None)) ?ll (xs @ ys)"
  proof -
    have "a \<notin> fst ` set xs \<and> a \<notin> fst ` set ys" if "a \<in> dom h0" for a
      using that assms unfolding owns_def by (simp add: image_Un) blast
    then have "h2 a = h a" if "a \<in> dom h0" for a using that h1(4) h2(4) by metis
    then show ?thesis
      using assms h1(5) h2 dist
      by (cases xs; cases ys rule: rev_cases; auto simp: owns_def holds_def)
  qed
  ultimately show thesis by (rule that)
qed

lemma remove_head_ok:
  assumes "owns h0 h ll cs"
  obtains ll' h' where "linked_list_remove_head ll h = Some (case cs of [] \<Rightarrow> None | c # _ \<Rightarrow> Some (snd c), ll', h')"
    and "owns h0 h' ll' (tl cs)"
proof (cases cs)
  case Nil
  then show thesis using assms that [of ll h] by (simp add: linked_list_remove_head_def owns_def holds_def)
next
  case (Cons c ys)
  obtain ll' h' where m: "linked_list_remove_middle ll h (fst c) = Some (ll', h')" "owns h0 h' ll' ys"
    using remove_middle_ok [of h0 h ll "[]" c ys] assms Cons by auto
  have "linked_list_remove_head ll h = Some (Some (snd c), ll', h')"
    using m(1) assms Cons
    by (cases ys) (auto simp: linked_list_remove_head_def linked_list_remove_middle_def owns_def holds_def split: if_splits)
  then show thesis using that m(2) Cons by simp
qed

lemma remove_tail_ok:
  assumes "owns h0 h ll cs"
  obtains ll' h' where "linked_list_remove_tail ll h = Some (if cs = [] then None else Some (snd (last cs)), ll', h')"
    and "owns h0 h' ll' (butlast cs)"
proof (cases cs rule: rev_cases)
  case Nil
  then show thesis using assms that [of ll h] by (simp add: linked_list_remove_tail_def owns_def holds_def)
next
  case (snoc xs c)
  obtain ll' h' where m: "linked_list_remove_middle ll h (fst c) = Some (ll', h')" "owns h0 h' ll' xs"
    using remove_middle_ok [of h0 h ll xs c "[]"] assms snoc by auto
  have "linked_list_remove_tail ll h = Some (Some (snd c), ll', h')"
    using m(1) assms snoc
    by (cases xs rule: rev_cases)
       (auto simp: linked_list_remove_tail_def linked_list_remove_middle_def owns_def holds_def split: if_splits)
  then show thesis using that m(2) snoc by simp
qed

section \<open>Walks\<close>

lemma find_from_ok:
  "chain h p cs None \<Longrightarrow> find_from h d (first_cell cs None) = Some (map_option fst (find (\<lambda>c. snd c = d) cs))"
  by (induction cs arbitrary: p) (subst find_from.simps; auto simp: ll_read_def ll_advance_def)+

primrec visit_list :: "('a \<Rightarrow> 's \<Rightarrow> bool \<times> 's) \<Rightarrow> 'a list \<Rightarrow> 's \<Rightarrow> 's" where
  "visit_list visit [] s = s"
| "visit_list visit (x # xs) s = (case visit x s of (carry_on, s) \<Rightarrow> if carry_on then visit_list visit xs s else s)"

lemma visit_from_ok:
  "chain h p cs None \<Longrightarrow> visit_from visit h (first_cell cs None) s = Some (visit_list visit (map snd cs) s)"
  by (induction cs arbitrary: p s) (subst visit_from.simps; auto split: prod.splits)+

lemma remove_ok:
  assumes "owns h0 h ll cs"
  shows "d \<notin> snd ` set cs \<Longrightarrow> linked_list_remove ll h d = None"
    and "d \<in> snd ` set cs \<Longrightarrow> \<exists>ll' h' cs'. linked_list_remove ll h d = Some (ll', h') \<and> owns h0 h' ll' cs'
      \<and> map snd cs' = remove1 d (map snd cs)"
proof -
  have ch: "chain h None cs None" and head: "ll_head ll = first_cell cs None" using assms by (simp_all add: owns_def holds_def)
  note found = find_from_ok [OF ch, of d, folded head]
  show "linked_list_remove ll h d = None" if "d \<notin> snd ` set cs"
  proof -
    have "find (\<lambda>c. snd c = d) cs = None" using that by (force simp: find_None_iff)
    then show ?thesis by (simp add: linked_list_remove_def found)
  qed
  assume "d \<in> snd ` set cs"
  then have "\<exists>c \<in> set cs. snd c = d" by force
  then obtain xs c ys where cs: "cs = xs @ c # ys" "snd c = d" "\<forall>x \<in> set xs. snd x \<noteq> d"
    by (rule split_list_first_propE)
  have "find (\<lambda>c. snd c = d) cs = Some c" using cs by (induction xs arbitrary: cs) auto
  moreover obtain ll' h' where "linked_list_remove_middle ll h (fst c) = Some (ll', h')" "owns h0 h' ll' (xs @ ys)"
    using remove_middle_ok [of h0 h ll xs c ys] assms cs(1) by auto
  moreover have "map snd (xs @ ys) = remove1 d (map snd cs)" using cs by (auto simp: remove1_append)
  ultimately show "\<exists>ll' h' cs'. linked_list_remove ll h d = Some (ll', h') \<and> owns h0 h' ll' cs'
      \<and> map snd cs' = remove1 d (map snd cs)"
    by (auto simp: linked_list_remove_def found)
qed

section \<open>Sequences of operations\<close>

datatype 'a ll_op = Insert_Head 'a | Insert_Tail 'a | Remove_Head | Remove_Tail | Remove 'a

primrec ll_step ::
    "'a malloc_factory \<Rightarrow> 'a ll_op \<Rightarrow> LinkedList \<Rightarrow> 'a memory \<Rightarrow> ('a option \<times> LinkedList \<times> 'a memory) option" where
  "ll_step mf (Insert_Head d) ll h = map_option (Pair None) (linked_list_insert_head mf ll h d)"
| "ll_step mf (Insert_Tail d) ll h = map_option (Pair None) (linked_list_insert_tail mf ll h d)"
| "ll_step mf Remove_Head ll h = linked_list_remove_head ll h"
| "ll_step mf Remove_Tail ll h = linked_list_remove_tail ll h"
| "ll_step mf (Remove d) ll h = map_option (Pair None) (linked_list_remove ll h d)"

primrec ll_run ::
    "'a malloc_factory \<Rightarrow> 'a ll_op list \<Rightarrow> LinkedList \<Rightarrow> 'a memory \<Rightarrow> ('a option list \<times> LinkedList \<times> 'a memory) option" where
  "ll_run mf [] ll h = Some ([], ll, h)"
| "ll_run mf (a # as) ll h = do {
     (r, ll, h) \<leftarrow> ll_step mf a ll h;
     (rs, ll, h) \<leftarrow> ll_run mf as ll h;
     Some (r # rs, ll, h) }"

text \<open>The same operations on a list of data.\<close>

primrec list_step :: "'a ll_op \<Rightarrow> 'a list \<Rightarrow> ('a option \<times> 'a list) option" where
  "list_step (Insert_Head d) xs = Some (None, d # xs)"
| "list_step (Insert_Tail d) xs = Some (None, xs @ [d])"
| "list_step Remove_Head xs = Some (case xs of [] \<Rightarrow> None | x # _ \<Rightarrow> Some x, tl xs)"
| "list_step Remove_Tail xs = Some (if xs = [] then None else Some (last xs), butlast xs)"
| "list_step (Remove d) xs = (if d \<in> set xs then Some (None, remove1 d xs) else None)"

primrec list_run :: "'a ll_op list \<Rightarrow> 'a list \<Rightarrow> ('a option list \<times> 'a list) option" where
  "list_run [] xs = Some ([], xs)"
| "list_run (a # as) xs = do {
     (r, xs) \<leftarrow> list_step a xs;
     (rs, xs) \<leftarrow> list_run as xs;
     Some (r # rs, xs) }"

definition fresh_addresses :: "'a malloc_factory \<Rightarrow> bool" where
  "fresh_addresses mf \<longleftrightarrow> (\<forall>h. finite (dom h) \<longrightarrow> mf h \<notin> dom h)"

lemma owns_finite: "owns h0 h ll cs \<Longrightarrow> finite (dom h0) \<Longrightarrow> finite (dom h)"
  by (simp add: owns_def)

lemma ll_step_ok:
  assumes "fresh_addresses mf" and "finite (dom h0)" and "owns h0 h ll cs"
  shows "case list_step a (map snd cs) of None \<Rightarrow> ll_step mf a ll h = None
    | Some (r, xs) \<Rightarrow> \<exists>ll' h' cs'. ll_step mf a ll h = Some (r, ll', h') \<and> owns h0 h' ll' cs' \<and> map snd cs' = xs"
proof -
  have "finite (dom h)" by (rule owns_finite [OF assms(3,2)])
  then have mf: "mf h \<notin> dom h" using assms(1) by (simp add: fresh_addresses_def)
  show ?thesis
  proof (cases a)
    case (Insert_Head d)
    obtain ll' h' where "linked_list_insert_head mf ll h d = Some (ll', h')" "owns h0 h' ll' ((mf h, d) # cs)"
      using insert_head_ok [where mf = mf, OF assms(3) mf] by blast
    then show ?thesis using Insert_Head by force
  next
    case (Insert_Tail d)
    obtain ll' h' where "linked_list_insert_tail mf ll h d = Some (ll', h')" "owns h0 h' ll' (cs @ [(mf h, d)])"
      using insert_tail_ok [where mf = mf, OF assms(3) mf] by blast
    then show ?thesis using Insert_Tail by force
  next
    case Remove_Head
    obtain ll' h' where "linked_list_remove_head ll h = Some (case cs of [] \<Rightarrow> None | c # _ \<Rightarrow> Some (snd c), ll', h')"
        "owns h0 h' ll' (tl cs)"
      by (rule remove_head_ok [OF assms(3)])
    then show ?thesis using Remove_Head by (cases cs) auto
  next
    case Remove_Tail
    obtain ll' h' where "linked_list_remove_tail ll h = Some (if cs = [] then None else Some (snd (last cs)), ll', h')"
        "owns h0 h' ll' (butlast cs)"
      by (rule remove_tail_ok [OF assms(3)])
    then show ?thesis using Remove_Tail by (auto simp: last_map map_butlast)
  next
    case (Remove d)
    then show ?thesis using remove_ok [OF assms(3), of d] by auto
  qed
qed

lemma ll_run_ok:
  assumes "fresh_addresses mf" and "finite (dom h0)" and "owns h0 h ll cs"
  shows "case list_run as (map snd cs) of None \<Rightarrow> ll_run mf as ll h = None
    | Some (rs, xs) \<Rightarrow> \<exists>ll' h' cs'. ll_run mf as ll h = Some (rs, ll', h') \<and> owns h0 h' ll' cs' \<and> map snd cs' = xs"
  using assms(3)
proof (induction as arbitrary: ll h cs)
  case Nil
  then show ?case by auto
next
  case (Cons a as)
  show ?case
  proof (cases "list_step a (map snd cs)")
    case None
    then show ?thesis using ll_step_ok [OF assms(1,2) Cons.prems, of a] by simp
  next
    case (Some rx)
    then obtain r ll' h' cs' where step: "rx = (r, map snd cs')" "ll_step mf a ll h = Some (r, ll', h')" "owns h0 h' ll' cs'"
      using ll_step_ok [OF assms(1,2) Cons.prems, of a] by (cases rx) auto
    then show ?thesis using Cons.IH [OF step(3)] Some by (fastforce split: option.splits)
  qed
qed

definition append_visit :: "'a \<Rightarrow> 'a list \<Rightarrow> bool \<times> 'a list" where
  "append_visit d acc = (True, acc @ [d])"

lemma visit_list_append: "visit_list append_visit xs acc = acc @ xs"
  by (induction xs arbitrary: acc) (simp_all add: append_visit_def)

text \<open>
  Searching and visiting.  On a list that holds given data, a search returns the link of the first
  occurrence of a datum, or nothing when there is none, and a visit applies the visitor to the data in order
  until it says to stop; both end.
\<close>

lemma linked_list_walks:
  assumes "fresh_addresses mf" and "finite (dom h0)" and "ll_run mf ops linked_list_init h0 = Some (rs, ll, h)"
  shows "\<exists>cs. map snd cs = the (linked_list_visit_all ll h append_visit [])
    \<and> linked_list_find ll h d = Some (map_option fst (find (\<lambda>c. snd c = d) cs)) \<and> (\<forall>c \<in> set cs. ll_read h (fst c) = Some (snd c))
    \<and> linked_list_visit_all ll h visit s = Some (visit_list visit (map snd cs) s)"
proof -
  obtain cs where own: "owns h0 h ll cs"
    using ll_run_ok [OF assms(1,2) owns_init, of ops] assms(3) by (auto split: option.splits)
  then have ch: "chain h None cs None" and head: "ll_head ll = first_cell cs None" by (simp_all add: owns_def holds_def)
  have "\<forall>c \<in> set cs. ll_read h (fst c) = Some (snd c)" if "chain h p cs None" for p
    using that by (induction cs arbitrary: p) (auto simp: ll_read_def)
  then show ?thesis
    using ch find_from_ok [OF ch, of d] visit_from_ok [OF ch, of visit s] visit_from_ok [OF ch, of append_visit "[]"]
    by (intro exI [of _ cs]) (simp add: linked_list_find_def linked_list_visit_all_def head visit_list_append)
qed

section \<open>Properties\<close>

text \<open>
  C15: the linked list refines a list.  Any sequence of insertions and removals at the head, the tail
  or in the middle, on a fresh list in a memory that holds other things, returns what it returns on a
  list of data, and trips an assertion or follows a dangling pointer only where it removes a datum that is not
  there.  Visiting the links then gives the contents, the counter their number; the links take exactly that much
  memory, and what was in memory before is unchanged.
\<close>

theorem linked_list_refines_list:
  assumes "fresh_addresses mf" and "finite (dom h0)"
  shows "case list_run ops [] of
      None \<Rightarrow> ll_run mf ops linked_list_init h0 = None
    | Some (rs, xs) \<Rightarrow> \<exists>ll h. ll_run mf ops linked_list_init h0 = Some (rs, ll, h)
        \<and> linked_list_visit_all ll h append_visit [] = Some xs \<and> ll_count ll = int (length xs)
        \<and> h |` dom h0 = h0 \<and> card (dom h - dom h0) = length xs"
proof (cases "list_run ops []")
  case None
  then show ?thesis using ll_run_ok [OF assms owns_init, of ops] by simp
next
  case (Some rx)
  then obtain rs ll h cs where run: "rx = (rs, map snd cs)" "ll_run mf ops linked_list_init h0 = Some (rs, ll, h)" "owns h0 h ll cs"
    using ll_run_ok [OF assms owns_init, of ops] by (cases rx) auto
  have "linked_list_visit_all ll h append_visit [] = Some (map snd cs)" "ll_count ll = int (length cs)"
    using run(3) visit_from_ok [of h None cs append_visit "[]"]
    by (simp_all add: owns_def holds_def linked_list_visit_all_def visit_list_append)
  moreover have "h |` dom h0 = h0" using run(3) by (auto simp: owns_def restrict_map_def fun_eq_iff domIff)
  moreover have "dom h - dom h0 = set (map fst cs)" using run(3) by (auto simp: owns_def)
  then have "card (dom h - dom h0) = length cs"
    using run(3) distinct_card [of "map fst cs"] by (simp add: owns_def holds_def)
  ultimately show ?thesis using Some run(1,2) by auto
qed

theorem linked_list_refines_list_witness:
  "\<exists>ll h. ll_run (\<lambda>h. Suc (Max (insert 0 (dom h)))) [Insert_Tail 5, Insert_Head 4, Insert_Tail 6, Remove 5, Remove_Tail]
       linked_list_init Map.empty = Some ([None, None, None, None, Some (6 :: nat)], ll, h)
     \<and> linked_list_visit_all ll h append_visit [] = Some [4]"
proof -
  let ?mf = "\<lambda>h :: nat memory. Suc (Max (insert 0 (dom h)))"
  have "fresh_addresses ?mf"
    unfolding fresh_addresses_def
  proof (intro allI impI notI)
    fix h :: "nat memory"
    assume "finite (dom h)" and "?mf h \<in> dom h"
    then have "?mf h \<le> Max (insert 0 (dom h))" by (intro Max_ge) simp_all
    then show False by simp
  qed
  from linked_list_refines_list [OF this, of Map.empty "[Insert_Tail 5, Insert_Head 4, Insert_Tail 6, Remove 5, Remove_Tail]"]
  show ?thesis by auto
qed

end
