(* ===== verification/Zutex_Table.thy ===== *)
theory Zutex_Table
  imports Hash_Table
begin

text \<open>
  Zutexes in the KVM monitor: \<^verbatim>\<open>monitors/linux_kvm/monitor/ZutexTable.cpp\<close>, \<^verbatim>\<open>ZutexQueue.cpp\<close> and
  \<^verbatim>\<open>ZutexWaiter.cpp\<close>.  A thread of the guest waits on several words of its memory at once and is queued at each
  of them; waking a word takes threads off its queue, and off all other queues they are in.

  A waiter is the number of its virtual CPU, and a pointer to a queue is the guest address the queue stands for: the
  table has one queue for an address, and following a pointer to a deleted queue is \<^const>\<open>None\<close>.  The linked lists
  of a queue and of a waiter are lists.  Guest memory is an argument, with \<^const>\<open>None\<close> for an address that is not
  mapped.  The table's mutex makes each operation atomic.  Blocking on the event of a waiter, after the mutex is released, is
  the caller's: \<open>zt_wait\<close> tells whether the thread goes to sleep, and it sleeps until its event is set.
\<close>

section \<open>Tables whose keys are compared exactly\<close>

locale exact_key = hash_key +
  assumes cmp_exact: "cmp a b = 0 \<longleftrightarrow> a = b"
begin

lemma present_exact [simp]: "present cmp k M \<longleftrightarrow> k \<in># M"
  by (auto simp: present_def cmp_exact)

lemma lookup_exact:
  assumes "ht_ready hash cmp ht"
  obtains ht' where "hash_table_lookup ht k = (if k \<in># ht_data ht then Some k else None, ht')"
    and "ht_ready hash cmp ht'" and "ht_data ht' = ht_data ht"
proof -
  have wf: "ht_wf ht" and c: "cmp_func ht = cmp" using assms by (auto simp: ht_ready_def)
  obtain r ht' where look: "hash_table_lookup ht k = (r, ht')" by (cases "hash_table_lookup ht k")
  have "ht_ready hash cmp ht'" "ht_data ht' = ht_data ht"
    using table_step_refines [OF assms, of "Lookup k"] look by auto
  moreover have "r = (if k \<in># ht_data ht then Some k else None)"
  proof (cases r)
    case None
    then have "\<forall>e \<in># ht_data ht. cmp k e \<noteq> 0"
      using hash_table_lookup_None [OF wf, of k] look c by auto
    then have "k \<notin># ht_data ht" using cmp_exact by auto
    then show ?thesis using None by simp
  next
    case (Some d)
    then have "d \<in># ht_data ht \<and> cmp k d = 0"
      using hash_table_lookup_Some [OF wf, of k d] look c by auto
    then show ?thesis using Some cmp_exact by auto
  qed
  ultimately show thesis using that look by simp
qed

lemma insert_exact:
  assumes "ht_ready hash cmp ht" and "k \<notin># ht_data ht"
  obtains ht' where "hash_table_insert ht k = Some ht'" and "ht_ready hash cmp ht'" and "ht_data ht' = add_mset k (ht_data ht)"
  using table_step_Insert_Union [OF assms(1), of True k] assms(2) that
  by (auto simp: hash_table_insert_def split: option.splits)

lemma remove_exact:
  assumes "ht_ready hash cmp ht" and "k \<in># ht_data ht"
  obtains ht' where "hash_table_remove ht k = Some ht'" and "ht_ready hash cmp ht'"
    and "set_mset (ht_data ht') = set_mset (ht_data ht) - {k}"
  using table_step_Remove [OF assms(1), of k] assms(2) that
  by (auto simp: cmp_exact split: option.splits)

lemma remove_every_exact:
  assumes "ht_ready hash cmp ht"
  obtains ht' ds where "\<And>ff u. hash_table_remove_every ht ff u = Some (ht', fold (\<lambda>d u. ff u d) ds u)"
    and "distinct ds" and "set ds = set_mset (ht_data ht)" and "hash_table_free ht' = Some ()"
proof -
  have wf: "ht_wf ht" using assms by (simp add: ht_ready_def)
  define e where "e = ht\<lparr>old_table := subtable_init (num_buckets (old_table ht)),
              new_table := subtable_init (num_buckets (new_table ht)), ht_count := 0\<rparr>"
  define ds where "ds = concat (st_buckets (old_table ht)) @ concat (st_buckets (new_table ht))"
  have ds: "mset ds = ht_data ht" by (simp add: ds_def ht_data_def st_data_def)
  have "size (filter_mset (\<lambda>d. cmp k d = 0) (mset ds)) \<le> 1" for k
    using wf assms ds by (simp add: ht_wf_def ht_core_def keys_distinct_def ht_ready_def)
  moreover have "filter_mset (\<lambda>d. cmp k d = 0) (mset ds) = replicate_mset (count (mset ds) k) k" for k
    by (rule multiset_eqI) (auto simp: cmp_exact)
  ultimately have "count (mset ds) k \<le> 1" for k by (metis size_replicate_mset)
  then have "distinct ds" unfolding distinct_count_atmost_1 by (metis One_nat_def count_mset_0_iff le_0_eq le_Suc_eq)
  moreover have "hash_table_remove_every ht ff u = Some (e, fold (\<lambda>d u. ff u d) ds u)" for ff and u :: 'c
    unfolding e_def ds_def hash_table_remove_every_eq [OF wf] by (simp add: hash_table_visit_every_def visit_every_inner_eq)
  moreover have "hash_table_free e = Some ()" by (simp add: hash_table_free_def e_def subtable_free_empty)
  moreover have "set ds = set_mset (ht_data ht)" using ds by (metis set_mset_mset)
  ultimately show thesis using that by blast
qed

end

section \<open>Definitions\<close>

type_synonym wid = nat
type_synonym guest_memory = "u32 \<Rightarrow> u32 option"

record ZutexWaitSpec =
  spec_zutex :: u32
  match_val :: u32

definition zq_hash :: "u32 \<Rightarrow> u32" where
  "zq_hash guest_hdl = guest_hdl"

definition zq_cmp :: "u32 \<Rightarrow> u32 \<Rightarrow> int" where
  "zq_cmp a b = sint (a - b)"

record ZutexTable =
  zt_table :: "u32 hash_table"
  zt_queues :: "u32 \<rightharpoonup> wid list"
  waiting_on_queues :: "wid \<Rightarrow> u32 list"
  waiter_event :: "wid \<Rightarrow> bool"

definition ZutexTable_new :: ZutexTable where
  "ZutexTable_new = \<lparr>zt_table = hash_table_init zq_hash zq_cmp, zt_queues = Map.empty,
     waiting_on_queues = (\<lambda>w. []), waiter_event = (\<lambda>w. False)\<rparr>"

definition zq_push :: "u32 \<Rightarrow> wid \<Rightarrow> ZutexTable \<Rightarrow> ZutexTable option" where
  "zq_push zq zw t = do {
     q \<leftarrow> zt_queues t zq;
     Some (t\<lparr>zt_queues := (zt_queues t)(zq \<mapsto> q @ [zw])\<rparr>) }"

definition zq_pop :: "u32 \<Rightarrow> ZutexTable \<Rightarrow> (wid option \<times> ZutexTable) option" where
  "zq_pop zq t = do {
     q \<leftarrow> zt_queues t zq;
     (case q of [] \<Rightarrow> Some (None, t) | zw # q \<Rightarrow> Some (Some zw, t\<lparr>zt_queues := (zt_queues t)(zq \<mapsto> q)\<rparr>)) }"

definition zq_remove :: "u32 \<Rightarrow> wid \<Rightarrow> ZutexTable \<Rightarrow> ZutexTable option" where
  "zq_remove zq zw t = do {
     q \<leftarrow> zt_queues t zq;
     lite_assert (zw \<in> set q);
     Some (t\<lparr>zt_queues := (zt_queues t)(zq \<mapsto> remove1 zw q)\<rparr>) }"

definition zq_is_empty :: "u32 \<Rightarrow> ZutexTable \<Rightarrow> bool option" where
  "zq_is_empty zq t = map_option (\<lambda>q. q = []) (zt_queues t zq)"

definition append_list :: "wid \<Rightarrow> u32 \<Rightarrow> ZutexTable \<Rightarrow> ZutexTable" where
  "append_list zw zq t = t\<lparr>waiting_on_queues := (waiting_on_queues t)(zw := waiting_on_queues t zw @ [zq])\<rparr>"

definition reset_event :: "wid \<Rightarrow> ZutexTable \<Rightarrow> ZutexTable" where
  "reset_event zw t = t\<lparr>waiter_event := (waiter_event t)(zw := False)\<rparr>"

definition wake_waiter :: "wid \<Rightarrow> ZutexTable \<Rightarrow> ZutexTable" where
  "wake_waiter zw t = t\<lparr>waiter_event := (waiter_event t)(zw := True)\<rparr>"

definition get_queue :: "u32 \<Rightarrow> ZutexTable \<Rightarrow> u32 option \<times> ZutexTable" where
  "get_queue guest_hdl t = (case hash_table_lookup (zt_table t) guest_hdl of (zq, ht) \<Rightarrow> (zq, t\<lparr>zt_table := ht\<rparr>))"

definition get_or_create_queue :: "u32 \<Rightarrow> ZutexTable \<Rightarrow> (u32 \<times> ZutexTable) option" where
  "get_or_create_queue guest_hdl t =
     (case get_queue guest_hdl t of
        (Some zq, t) \<Rightarrow> Some (zq, t)
      | (None, t) \<Rightarrow> do {
          ht \<leftarrow> hash_table_insert (zt_table t) guest_hdl;
          Some (guest_hdl, t\<lparr>zt_table := ht, zt_queues := (zt_queues t)(guest_hdl \<mapsto> [])\<rparr>) })"

text \<open>The callback that deletes an emptied queue.\<close>

definition free_zq :: "ZutexTable option \<Rightarrow> u32 \<Rightarrow> ZutexTable option" where
  "free_zq t zq = do {
     t \<leftarrow> t;
     empty \<leftarrow> zq_is_empty zq t;
     lite_assert empty;
     ht \<leftarrow> hash_table_remove (zt_table t) zq;
     Some (t\<lparr>zt_table := ht, zt_queues := (zt_queues t)(zq := None)\<rparr>) }"

text \<open>The comparison of the words with the values; \<^const>\<open>None\<close> when an address is not mapped.\<close>

fun all_match :: "guest_memory \<Rightarrow> ZutexWaitSpec list \<Rightarrow> bool option" where
  "all_match mem [] = Some True"
| "all_match mem (spec # specs) = do {
     current_guest_val \<leftarrow> mem (spec_zutex spec);
     if current_guest_val \<noteq> match_val spec then Some False else all_match mem specs }"

fun enqueue_waiter :: "wid \<Rightarrow> ZutexWaitSpec list \<Rightarrow> ZutexTable \<Rightarrow> ZutexTable option" where
  "enqueue_waiter waiter [] t = Some t"
| "enqueue_waiter waiter (spec # specs) t = do {
     (zq, t) \<leftarrow> get_or_create_queue (spec_zutex spec) t;
     t \<leftarrow> zq_push zq waiter t;
     enqueue_waiter waiter specs (append_list waiter zq t) }"

definition zt_wait :: "guest_memory \<Rightarrow> ZutexWaitSpec list \<Rightarrow> wid \<Rightarrow> ZutexTable \<Rightarrow> (bool \<times> ZutexTable) option" where
  "zt_wait mem specs waiter t =
     (case all_match mem specs of
        Some True \<Rightarrow> do { t \<leftarrow> enqueue_waiter waiter specs t; Some (True, reset_event waiter t) }
      | Some False \<Rightarrow> Some (False, t)
      | None \<Rightarrow> Some (False, t))"

primrec pop_waiters :: "nat \<Rightarrow> u32 \<Rightarrow> ZutexTable \<Rightarrow> (wid list \<times> ZutexTable) option" where
  "pop_waiters 0 zq t = Some ([], t)"
| "pop_waiters (Suc n) zq t = do {
     (waiter, t) \<leftarrow> zq_pop zq t;
     (case waiter of
        None \<Rightarrow> Some ([], t)
      | Some waiter \<Rightarrow> do {
          (private_wake_queue, t) \<leftarrow> pop_waiters n zq t;
          Some (waiter # private_wake_queue, t) }) }"

fun leave_queues ::
    "u32 \<Rightarrow> wid \<Rightarrow> u32 list \<Rightarrow> u32 hash_table \<Rightarrow> ZutexTable \<Rightarrow> (u32 hash_table \<times> ZutexTable) option" where
  "leave_queues zq waiter [] empty_zq_set t = Some (empty_zq_set, t)"
| "leave_queues zq waiter (wq # rest) empty_zq_set t = do {
     t \<leftarrow> (if wq \<noteq> zq then zq_remove wq waiter t else Some t);
     empty \<leftarrow> zq_is_empty wq t;
     empty_zq_set \<leftarrow>
       (if empty then
          (case hash_table_lookup empty_zq_set wq of
             (None, empty_zq_set) \<Rightarrow> hash_table_insert empty_zq_set wq
           | (Some _, empty_zq_set) \<Rightarrow> Some empty_zq_set)
        else Some empty_zq_set);
     leave_queues zq waiter rest empty_zq_set (t\<lparr>waiting_on_queues := (waiting_on_queues t)(waiter := rest)\<rparr>) }"

fun wake_waiters ::
    "u32 \<Rightarrow> wid list \<Rightarrow> u32 hash_table \<Rightarrow> u32 \<Rightarrow> ZutexTable \<Rightarrow> (u32 hash_table \<times> u32 \<times> ZutexTable) option" where
  "wake_waiters zq [] empty_zq_set num_woken t = Some (empty_zq_set, num_woken, t)"
| "wake_waiters zq (waiter # private_wake_queue) empty_zq_set num_woken t = do {
     (empty_zq_set, t) \<leftarrow> leave_queues zq waiter (waiting_on_queues t waiter) empty_zq_set t;
     wake_waiters zq private_wake_queue empty_zq_set (num_woken + 1) (wake_waiter waiter t) }"

definition zt_wake :: "u32 \<Rightarrow> int \<Rightarrow> ZutexTable \<Rightarrow> (u32 \<times> ZutexTable) option" where
  "zt_wake guest_zutex n_wake t =
     (case get_queue guest_zutex t of
        (None, t) \<Rightarrow> Some (0, t)
      | (Some zq, t) \<Rightarrow> do {
          (private_wake_queue, t) \<leftarrow> pop_waiters (nat n_wake) zq t;
          (empty_zq_set, num_woken, t) \<leftarrow>
            wake_waiters zq private_wake_queue (hash_table_init zq_hash zq_cmp) 0 t;
          (empty_zq_set, t) \<leftarrow> hash_table_remove_every empty_zq_set free_zq (Some t);
          t \<leftarrow> t;
          hash_table_free empty_zq_set;
          Some (num_woken, t) })"

lemma zq_cmp_0: "zq_cmp a b = 0 \<longleftrightarrow> a = b"
proof
  assume "zq_cmp a b = 0"
  then have zero: "sint (a - b) = 0" by (simp add: zq_cmp_def)
  have "a - b = of_int (sint (a - b))" by simp
  also have "\<dots> = 0" by (simp only: zero of_int_0)
  finally show "a = b" by simp
qed (simp add: zq_cmp_def)

interpretation zq_key: exact_key zq_hash zq_cmp
  by unfold_locales (auto simp: zq_cmp_0 zq_hash_def)

section \<open>The invariant of the table\<close>

text \<open>A queue is in the table exactly while it holds a waiter, and queues and waiters know of each other.\<close>

definition qof :: "ZutexTable \<Rightarrow> u32 \<Rightarrow> wid list" where
  "qof t h = (case zt_queues t h of None \<Rightarrow> [] | Some q \<Rightarrow> q)"

definition table_ok :: "ZutexTable \<Rightarrow> bool" where
  "table_ok t \<longleftrightarrow> ht_ready zq_hash zq_cmp (zt_table t) \<and> set_mset (ht_data (zt_table t)) = dom (zt_queues t)"

definition zt_ok :: "ZutexTable \<Rightarrow> bool" where
  "zt_ok t \<longleftrightarrow> table_ok t \<and> (\<forall>h. zt_queues t h \<noteq> Some []) \<and> (\<forall>h. distinct (qof t h))
     \<and> (\<forall>w. distinct (waiting_on_queues t w)) \<and> (\<forall>w h. w \<in> set (qof t h) \<longleftrightarrow> h \<in> set (waiting_on_queues t w))"

lemma zt_ok_new: "zt_ok ZutexTable_new"
  using ht_ready_init [OF zq_key.hash_key_axioms]
  by (simp add: zt_ok_def table_ok_def ZutexTable_new_def qof_def ht_data_def hash_table_init_def)

lemma get_queue_ok:
  assumes "table_ok t"
  obtains ht where "get_queue h t = (if h \<in> dom (zt_queues t) then Some h else None, t\<lparr>zt_table := ht\<rparr>)"
    and "table_ok (t\<lparr>zt_table := ht\<rparr>)"
proof -
  obtain ht where "hash_table_lookup (zt_table t) h = (if h \<in># ht_data (zt_table t) then Some h else None, ht)"
      "ht_ready zq_hash zq_cmp ht" "ht_data ht = ht_data (zt_table t)"
    using zq_key.lookup_exact assms unfolding table_ok_def by metis
  then show thesis using that [of ht] assms by (simp add: get_queue_def table_ok_def)
qed

lemma get_or_create_ok:
  assumes "table_ok t"
  obtains ht where "get_or_create_queue h t = Some (h, t\<lparr>zt_table := ht, zt_queues := (zt_queues t)(h \<mapsto> qof t h)\<rparr>)"
    and "table_ok (t\<lparr>zt_table := ht, zt_queues := (zt_queues t)(h \<mapsto> qof t h)\<rparr>)"
proof -
  obtain ht where get: "get_queue h t = (if h \<in> dom (zt_queues t) then Some h else None, t\<lparr>zt_table := ht\<rparr>)"
      "table_ok (t\<lparr>zt_table := ht\<rparr>)"
    by (rule get_queue_ok [OF assms])
  show thesis
  proof (cases "zt_queues t h")
    case (Some q)
    then show thesis using that [of ht] get by (auto simp: get_or_create_queue_def qof_def fun_upd_idem domIff)
  next
    case None
    then have "h \<notin> dom (zt_queues t)" by auto
    moreover from None obtain ht' where "hash_table_insert ht h = Some ht'" "ht_ready zq_hash zq_cmp ht'" "ht_data ht' = add_mset h (ht_data ht)"
      using zq_key.insert_exact [of ht h] get(2) by (auto simp: table_ok_def)
    ultimately show thesis
      using that [of ht'] get None by (simp add: get_or_create_queue_def qof_def table_ok_def)
  qed
qed

lemma enqueue_waiter_ok:
  assumes "zt_ok t" and "distinct (waiting_on_queues t w @ map spec_zutex specs)"
  shows "\<exists>t'. enqueue_waiter w specs t = Some t' \<and> zt_ok t' \<and> waiter_event t' = waiter_event t
    \<and> waiting_on_queues t' = (waiting_on_queues t)(w := waiting_on_queues t w @ map spec_zutex specs)
    \<and> (\<forall>h. qof t' h = qof t h @ (if h \<in> spec_zutex ` set specs then [w] else []))"
  using assms
proof (induction specs arbitrary: t)
  case Nil
  then show ?case by simp
next
  case (Cons s specs)
  let ?h = "spec_zutex s"
  have ok: "table_ok t" using Cons.prems(1) by (simp add: zt_ok_def)
  obtain ht where get: "get_or_create_queue ?h t = Some (?h, t\<lparr>zt_table := ht, zt_queues := (zt_queues t)(?h \<mapsto> qof t ?h)\<rparr>)"
      "table_ok (t\<lparr>zt_table := ht, zt_queues := (zt_queues t)(?h \<mapsto> qof t ?h)\<rparr>)"
    by (rule get_or_create_ok [OF ok])
  define t1 where "t1 = append_list w ?h (t\<lparr>zt_table := ht, zt_queues := (zt_queues t)(?h \<mapsto> qof t ?h @ [w])\<rparr>)"
  have q: "qof t1 h = qof t h @ (if h = ?h then [w] else [])" for h by (simp add: t1_def qof_def append_list_def)
  have l: "waiting_on_queues t1 = (waiting_on_queues t)(w := waiting_on_queues t w @ [?h])"
    and ev: "waiter_event t1 = waiter_event t" by (simp_all add: t1_def append_list_def)
  have "w \<notin> set (qof t ?h)" using Cons.prems by (simp add: zt_ok_def)
  moreover have "table_ok t1" using get(2) by (simp add: t1_def table_ok_def append_list_def)
  moreover have "zt_queues t1 h \<noteq> Some []" for h using Cons.prems(1) by (simp add: t1_def append_list_def zt_ok_def)
  ultimately have "zt_ok t1" using Cons.prems unfolding zt_ok_def q l by auto
  moreover have "distinct (waiting_on_queues t1 w @ map spec_zutex specs)" using Cons.prems(2) l by simp
  ultimately obtain t' where t': "enqueue_waiter w specs t1 = Some t'" "zt_ok t'" "waiter_event t' = waiter_event t1"
      "waiting_on_queues t' = (waiting_on_queues t1)(w := waiting_on_queues t1 w @ map spec_zutex specs)"
      "\<forall>h. qof t' h = qof t1 h @ (if h \<in> spec_zutex ` set specs then [w] else [])"
    using Cons.IH [of t1] by blast
  have step: "enqueue_waiter w (s # specs) t = enqueue_waiter w specs t1"
    using get(1) by (simp add: zq_push_def t1_def)
  have "?h \<notin> spec_zutex ` set specs" using Cons.prems(2) by auto
  then show ?case unfolding step using t' by (intro exI [of _ t']) (auto simp: q l ev)
qed

lemma zt_wait_ok:
  assumes "zt_ok t" and "waiting_on_queues t w = []" and "distinct (map spec_zutex specs)"
  shows "all_match mem specs = Some True \<Longrightarrow> \<exists>t'. zt_wait mem specs w t = Some (True, t') \<and> zt_ok t'
      \<and> waiter_event t' = (waiter_event t)(w := False)
      \<and> waiting_on_queues t' = (waiting_on_queues t)(w := map spec_zutex specs)
      \<and> (\<forall>h. qof t' h = qof t h @ (if h \<in> spec_zutex ` set specs then [w] else []))"
    and "all_match mem specs \<noteq> Some True \<Longrightarrow> zt_wait mem specs w t = Some (False, t)"
proof -
  show "zt_wait mem specs w t = Some (False, t)" if "all_match mem specs \<noteq> Some True"
    using that by (auto simp: zt_wait_def split: option.splits bool.splits)
  assume m: "all_match mem specs = Some True"
  have reset: "zt_ok (reset_event w t') \<longleftrightarrow> zt_ok t'" "qof (reset_event w t') h = qof t' h"
      "waiter_event (reset_event w t') = (waiter_event t')(w := False)"
      "waiting_on_queues (reset_event w t') = waiting_on_queues t'" for t' h
    by (simp_all add: zt_ok_def table_ok_def reset_event_def qof_def)
  show "\<exists>t'. zt_wait mem specs w t = Some (True, t') \<and> zt_ok t' \<and> waiter_event t' = (waiter_event t)(w := False)
      \<and> waiting_on_queues t' = (waiting_on_queues t)(w := map spec_zutex specs)
      \<and> (\<forall>h. qof t' h = qof t h @ (if h \<in> spec_zutex ` set specs then [w] else []))"
    using enqueue_waiter_ok [OF assms(1), of w specs] assms(2,3) m
    by (auto simp: zt_wait_def reset)
qed

lemma all_match_eq: "all_match mem specs = Some True \<longleftrightarrow> (\<forall>s \<in> set specs. mem (spec_zutex s) = Some (match_val s))"
  by (induction mem specs rule: all_match.induct) (auto split: option.splits simp: opt_simps)

section \<open>Waking\<close>

lemma pop_waiters_ok:
  assumes "zt_queues t zq = Some q"
  shows "pop_waiters n zq t = Some (take n q, t\<lparr>zt_queues := (zt_queues t)(zq \<mapsto> drop n q)\<rparr>)"
  using assms
proof (induction n arbitrary: t q)
  case 0
  then show ?case by (simp add: fun_upd_idem)
next
  case (Suc n)
  show ?case
  proof (cases q)
    case Nil
    then show ?thesis using Suc.prems by (simp add: zq_pop_def fun_upd_idem)
  next
    case (Cons w rest)
    then show ?thesis
      using Suc.prems Suc.IH [of "t\<lparr>zt_queues := (zt_queues t)(zq \<mapsto> rest)\<rparr>" rest] by (simp add: zq_pop_def cong: if_cong)
  qed
qed

definition without :: "wid set \<Rightarrow> (u32 \<rightharpoonup> wid list) \<Rightarrow> u32 \<rightharpoonup> wid list" where
  "without W qs h = map_option (filter (\<lambda>w. w \<notin> W)) (qs h)"

lemma without_twice [simp]: "without W (without V qs) = without (W \<union> V) qs"
  by (auto simp: without_def fun_eq_iff option.map_comp comp_def intro!: option.map_cong0 filter_cong)

lemma without_dom [simp]: "dom (without W qs) = dom qs"
  by (auto simp: without_def)

lemma without_empty [simp]: "without {} qs = qs"
  by (simp add: without_def fun_eq_iff map_option_case split: option.splits)

lemma note_empty_ok:
  assumes "ht_ready zq_hash zq_cmp es"
  obtains es' where "(case hash_table_lookup es wq of (None, s) \<Rightarrow> hash_table_insert s wq | (Some _, s) \<Rightarrow> Some s) = Some es'"
    and "ht_ready zq_hash zq_cmp es'" and "set_mset (ht_data es') = insert wq (set_mset (ht_data es))"
proof -
  obtain es0 where es0: "hash_table_lookup es wq = (if wq \<in># ht_data es then Some wq else None, es0)"
      "ht_ready zq_hash zq_cmp es0" "ht_data es0 = ht_data es"
    by (rule zq_key.lookup_exact [OF assms])
  show thesis
  proof (cases "wq \<in># ht_data es")
    case True
    then show thesis using that [of es0] es0 by (simp add: insert_absorb)
  next
    case False
    then have "wq \<notin># ht_data es0" by (simp add: es0(3))
    then obtain es2 where "hash_table_insert es0 wq = Some es2" "ht_ready zq_hash zq_cmp es2" "ht_data es2 = add_mset wq (ht_data es0)"
      using zq_key.insert_exact [OF es0(2)] by blast
    then show thesis using that [of es2] es0 False by simp
  qed
qed

text \<open>One waiter leaves the queues it is in, which are left in the order of its list.\<close>

lemma leave_queues_ok:
  assumes "ht_ready zq_hash zq_cmp es" and "distinct rest" and "set rest \<subseteq> dom (zt_queues t)"
    and "\<forall>h q. zt_queues t h = Some q \<longrightarrow> distinct q \<and> (w \<in> set q \<longleftrightarrow> h \<in> set rest \<and> h \<noteq> zq)" and "waiting_on_queues t w = rest"
  shows "\<exists>es'. leave_queues zq w rest es t = Some (es', t\<lparr>zt_queues := without {w} (zt_queues t),
        waiting_on_queues := (waiting_on_queues t)(w := [])\<rparr>)
    \<and> ht_ready zq_hash zq_cmp es'
    \<and> set_mset (ht_data es') = set_mset (ht_data es) \<union> {h \<in> set rest. without {w} (zt_queues t) h = Some []}"
  using assms
proof (induction rest arbitrary: es t)
  case Nil
  then have "without {w} (zt_queues t) h = zt_queues t h" for h
    by (cases "zt_queues t h") (auto simp: without_def intro: filter_True)
  then have "without {w} (zt_queues t) = zt_queues t" by (rule ext)
  then show ?case using Nil by (simp add: fun_upd_idem)
next
  case (Cons wq rest)
  obtain q where q: "zt_queues t wq = Some q" using Cons.prems(3) by auto
  have dq: "distinct q" "w \<in> set q \<longleftrightarrow> wq \<noteq> zq" using Cons.prems(4) q by auto
  define q' where "q' = filter (\<lambda>x. x \<noteq> w) q"
  have q': "q' = remove1 w q"
    using dq(1) by (simp add: q'_def distinct_remove1_removeAll removeAll_filter_not_eq) (metis (mono_tags))
  define t1 where "t1 = t\<lparr>zt_queues := (zt_queues t)(wq \<mapsto> q'), waiting_on_queues := (waiting_on_queues t)(w := rest)\<rparr>"
  have removed: "(if wq \<noteq> zq then zq_remove wq w t else Some t) = Some (t\<lparr>zt_queues := (zt_queues t)(wq \<mapsto> q')\<rparr>)"
  proof (cases "wq = zq")
    case True
    then have "q' = q" using dq(2) by (simp add: q' remove1_idem)
    then show ?thesis using True q by (simp add: fun_upd_idem)
  next
    case False
    then show ?thesis using q dq by (simp add: zq_remove_def q')
  qed
  obtain es1 where es1: "(if q' = [] then (case hash_table_lookup es wq of
             (None, empty_zq_set) \<Rightarrow> hash_table_insert empty_zq_set wq
           | (Some _, empty_zq_set) \<Rightarrow> Some empty_zq_set) else Some es) = Some es1"
      "ht_ready zq_hash zq_cmp es1" "set_mset (ht_data es1) = set_mset (ht_data es) \<union> (if q' = [] then {wq} else {})"
  proof (cases "q' = []")
    case True
    obtain es1 where "(case hash_table_lookup es wq of (None, s) \<Rightarrow> hash_table_insert s wq | (Some _, s) \<Rightarrow> Some s) = Some es1"
        "ht_ready zq_hash zq_cmp es1" "set_mset (ht_data es1) = insert wq (set_mset (ht_data es))"
      by (rule note_empty_ok [OF Cons.prems(1)])
    then show thesis using that [of es1] True by simp
  next
    case False
    then show thesis using that [of es] Cons.prems(1) by simp
  qed
  have without1: "without {w} (zt_queues t1) = without {w} (zt_queues t)"
    using q by (auto simp: t1_def without_def fun_eq_iff q'_def)
  have wq: "without {w} (zt_queues t) wq = Some q'" using q by (simp add: without_def q'_def)
  have qs1: "\<forall>h q. zt_queues t1 h = Some q \<longrightarrow> distinct q \<and> (w \<in> set q \<longleftrightarrow> h \<in> set rest \<and> h \<noteq> zq)"
    using Cons.prems(2,4) dq by (auto simp: q'_def t1_def)
  have dom1: "set rest \<subseteq> dom (zt_queues t1)" using Cons.prems(3) by (auto simp: t1_def)
  have "distinct rest" "waiting_on_queues t1 w = rest" using Cons.prems(2) by (simp_all add: t1_def)
  then obtain es' where es': "leave_queues zq w rest es1 t1 = Some (es', t1\<lparr>zt_queues := without {w} (zt_queues t1),
        waiting_on_queues := (waiting_on_queues t1)(w := [])\<rparr>)" "ht_ready zq_hash zq_cmp es'"
      "set_mset (ht_data es') = set_mset (ht_data es1) \<union> {h \<in> set rest. without {w} (zt_queues t1) h = Some []}"
    using Cons.IH [OF es1(2) _ dom1 qs1] by blast
  have step: "leave_queues zq w (wq # rest) es t = leave_queues zq w rest es1 t1"
    using removed es1(1) by (simp add: zq_is_empty_def t1_def)
  have t1: "t1\<lparr>zt_queues := without {w} (zt_queues t1), waiting_on_queues := (waiting_on_queues t1)(w := [])\<rparr>
      = t\<lparr>zt_queues := without {w} (zt_queues t), waiting_on_queues := (waiting_on_queues t)(w := [])\<rparr>"
    unfolding without1 by (simp add: t1_def)
  have "set_mset (ht_data es') = set_mset (ht_data es) \<union> {h \<in> set (wq # rest). without {w} (zt_queues t) h = Some []}"
    using es'(3) es1(3) wq unfolding without1 by auto
  then show ?case unfolding step using es'(1,2) unfolding t1 by blast
qed

lemma without_Some: "without W qs h = Some q' \<longleftrightarrow> (\<exists>q. qs h = Some q \<and> q' = filter (\<lambda>w. w \<notin> W) q)"
  by (auto simp: without_def)

text \<open>The waiters taken off the queue leave all others and are woken; the emptied queues are collected.\<close>

definition popped :: "u32 \<Rightarrow> wid list \<Rightarrow> ZutexTable \<Rightarrow> bool" where
  "popped zq ws t \<longleftrightarrow> distinct ws \<and> (\<forall>h q. zt_queues t h = Some q \<longrightarrow> distinct q)
     \<and> (\<forall>w \<in> set ws. distinct (waiting_on_queues t w) \<and> set (waiting_on_queues t w) \<subseteq> dom (zt_queues t)
          \<and> zq \<in> set (waiting_on_queues t w)
          \<and> (\<forall>h q. zt_queues t h = Some q \<longrightarrow> (w \<in> set q \<longleftrightarrow> h \<in> set (waiting_on_queues t w) \<and> h \<noteq> zq)))"

definition woken :: "wid list \<Rightarrow> ZutexTable \<Rightarrow> ZutexTable" where
  "woken ws t = t\<lparr>zt_queues := without (set ws) (zt_queues t),
     waiting_on_queues := (\<lambda>w. if w \<in> set ws then [] else waiting_on_queues t w),
     waiter_event := (\<lambda>w. w \<in> set ws \<or> waiter_event t w)\<rparr>"

definition left_empty :: "wid list \<Rightarrow> ZutexTable \<Rightarrow> u32 set" where
  "left_empty ws t = {h. (\<exists>w \<in> set ws. h \<in> set (waiting_on_queues t w)) \<and> without (set ws) (zt_queues t) h = Some []}"

lemma woken_Cons:
  assumes "w \<notin> set ws"
  shows "woken ws (wake_waiter w (t\<lparr>zt_queues := without {w} (zt_queues t), waiting_on_queues := (waiting_on_queues t)(w := [])\<rparr>))
    = woken (w # ws) t"
  using assms by (auto simp: woken_def wake_waiter_def fun_eq_iff intro!: arg_cong2 [where f = "\<lambda>x y. waiter_event_update x y"])

lemma left_empty_Cons:
  assumes "popped zq (w # ws) t"
    and "t1 = wake_waiter w (t\<lparr>zt_queues := without {w} (zt_queues t), waiting_on_queues := (waiting_on_queues t)(w := [])\<rparr>)"
  shows "popped zq ws t1"
    and "{h \<in> set (waiting_on_queues t w). without {w} (zt_queues t) h = Some []} \<union> left_empty ws t1 = left_empty (w # ws) t"
proof -
  have w: "w \<notin> set ws" using assms(1) by (simp add: popped_def)
  have qs: "zt_queues t1 = without {w} (zt_queues t)" and lists: "waiting_on_queues t1 = (waiting_on_queues t)(w := [])"
    by (simp_all add: assms(2) wake_waiter_def)
  have list: "waiting_on_queues t1 v = waiting_on_queues t v" if "v \<in> set ws" for v using that w by (auto simp: lists)
  have q1: "zt_queues t1 h = Some q' \<longleftrightarrow> (\<exists>q. zt_queues t h = Some q \<and> q' = filter (\<lambda>x. x \<noteq> w) q)" for h q'
    by (simp add: qs without_Some)
  show "popped zq ws t1"
    unfolding popped_def
  proof (intro conjI ballI allI impI)
    fix v
    assume "v \<in> set ws"
    then have "v \<noteq> w" "waiting_on_queues t1 v = waiting_on_queues t v" using w list by auto
    then show "distinct (waiting_on_queues t1 v)" "set (waiting_on_queues t1 v) \<subseteq> dom (zt_queues t1)"
        "zq \<in> set (waiting_on_queues t1 v)"
      using assms(1) \<open>v \<in> set ws\<close> by (simp_all add: popped_def qs)
    show "v \<in> set q \<longleftrightarrow> h \<in> set (waiting_on_queues t1 v) \<and> h \<noteq> zq" if "zt_queues t1 h = Some q" for h q
      using that assms(1) \<open>v \<in> set ws\<close> \<open>v \<noteq> w\<close> list [OF \<open>v \<in> set ws\<close>] by (auto simp: popped_def q1)
  qed (use assms(1) in \<open>auto simp: popped_def q1\<close>)
  have later: "without {w} (zt_queues t) h = Some [] \<Longrightarrow> without (set (w # ws)) (zt_queues t) h = Some []" for h
    by (auto simp: without_def filter_empty_conv)
  have earlier: "without {w} (zt_queues t) h = Some []"
    if e: "without (set (w # ws)) (zt_queues t) h = Some []" "h \<in> set (waiting_on_queues t w)"
      "\<forall>v \<in> set ws. h \<notin> set (waiting_on_queues t v)" for h
  proof -
    obtain q where q: "zt_queues t h = Some q" "\<forall>x \<in> set q. x \<in> set (w # ws)"
      using e(1) by (auto simp: without_def filter_empty_conv)
    have "v \<notin> set q" if "v \<in> set ws" for v
      using assms(1) q(1) that \<open>\<forall>v \<in> set ws. h \<notin> set (waiting_on_queues t v)\<close> by (auto simp: popped_def)
    then have "\<forall>x \<in> set q. x = w" using q(2) by auto
    then show ?thesis using q(1) by (simp add: without_def filter_empty_conv)
  qed
  have final: "without (set ws) (zt_queues t1) = without (set (w # ws)) (zt_queues t)" by (simp add: qs)
  have lists': "(\<exists>v \<in> set ws. h \<in> set (waiting_on_queues t1 v)) \<longleftrightarrow> (\<exists>v \<in> set ws. h \<in> set (waiting_on_queues t v))" for h
    using list by auto
  show "{h \<in> set (waiting_on_queues t w). without {w} (zt_queues t) h = Some []} \<union> left_empty ws t1 = left_empty (w # ws) t"
    using later earlier unfolding left_empty_def final lists' by auto
qed

lemma wake_waiters_ok:
  assumes "ht_ready zq_hash zq_cmp es" and "popped zq ws t"
  shows "\<exists>es'. wake_waiters zq ws es n t = Some (es', n + of_nat (length ws), woken ws t)
    \<and> ht_ready zq_hash zq_cmp es' \<and> set_mset (ht_data es') = set_mset (ht_data es) \<union> left_empty ws t"
  using assms
proof (induction ws arbitrary: es t n)
  case Nil
  then show ?case by (simp add: woken_def left_empty_def)
next
  case (Cons w ws)
  let ?l = "waiting_on_queues t w"
  define t1 where "t1 = wake_waiter w (t\<lparr>zt_queues := without {w} (zt_queues t), waiting_on_queues := (waiting_on_queues t)(w := [])\<rparr>)"
  note rest = left_empty_Cons [OF Cons.prems(2) t1_def]
  have l: "distinct ?l" "set ?l \<subseteq> dom (zt_queues t)"
      "\<forall>h q. zt_queues t h = Some q \<longrightarrow> distinct q \<and> (w \<in> set q \<longleftrightarrow> h \<in> set ?l \<and> h \<noteq> zq)" and w: "w \<notin> set ws"
    using Cons.prems(2) by (auto simp: popped_def)
  obtain es1 where es1: "leave_queues zq w ?l es t = Some (es1, t\<lparr>zt_queues := without {w} (zt_queues t),
        waiting_on_queues := (waiting_on_queues t)(w := [])\<rparr>)" "ht_ready zq_hash zq_cmp es1"
      "set_mset (ht_data es1) = set_mset (ht_data es) \<union> {h \<in> set ?l. without {w} (zt_queues t) h = Some []}"
    using leave_queues_ok [OF Cons.prems(1) l refl] by blast
  obtain es' where es': "wake_waiters zq ws es1 (n + 1) t1 = Some (es', n + 1 + of_nat (length ws), woken ws t1)"
      "ht_ready zq_hash zq_cmp es'" "set_mset (ht_data es') = set_mset (ht_data es1) \<union> left_empty ws t1"
    using Cons.IH [OF es1(2) rest(1)] by blast
  have "wake_waiters zq (w # ws) es n t = Some (es', n + of_nat (length (w # ws)), woken (w # ws) t)"
    using es1(1) es'(1) woken_Cons [OF w, of t, folded t1_def] by (simp add: t1_def)
  then show ?case using es'(2,3) es1(3) rest(2) by auto
qed

lemma free_queues_ok:
  assumes "table_ok t" and "distinct ds" and "\<forall>h \<in> set ds. zt_queues t h = Some []"
  shows "\<exists>ht. fold (\<lambda>d u. free_zq u d) ds (Some t) = Some (t\<lparr>zt_table := ht, zt_queues := (zt_queues t) |` (- set ds)\<rparr>)
    \<and> table_ok (t\<lparr>zt_table := ht, zt_queues := (zt_queues t) |` (- set ds)\<rparr>)"
  using assms
proof (induction ds arbitrary: t)
  case Nil
  then show ?case by (intro exI [of _ "zt_table t"]) simp
next
  case (Cons d ds)
  obtain ht where ht: "hash_table_remove (zt_table t) d = Some ht" "ht_ready zq_hash zq_cmp ht"
      "set_mset (ht_data ht) = set_mset (ht_data (zt_table t)) - {d}"
    using zq_key.remove_exact [of "zt_table t" d] Cons.prems(1,3) by (auto simp: table_ok_def)
  define t1 where "t1 = t\<lparr>zt_table := ht, zt_queues := (zt_queues t)(d := None)\<rparr>"
  have free: "free_zq (Some t) d = Some t1"
    using ht(1) Cons.prems(3) by (simp add: free_zq_def zq_is_empty_def t1_def)
  have "table_ok t1" using ht(2,3) Cons.prems(1) by (simp add: table_ok_def t1_def)
  moreover have "\<forall>h \<in> set ds. zt_queues t1 h = Some []" using Cons.prems(2,3) by (auto simp: t1_def)
  ultimately obtain ht' where fold: "fold (\<lambda>d u. free_zq u d) ds (Some t1)
        = Some (t1\<lparr>zt_table := ht', zt_queues := (zt_queues t1) |` (- set ds)\<rparr>)"
      "table_ok (t1\<lparr>zt_table := ht', zt_queues := (zt_queues t1) |` (- set ds)\<rparr>)"
    using Cons.IH [of t1] Cons.prems(2) by auto
  have "(zt_queues t1) |` (- set ds) = (zt_queues t) |` (- set (d # ds))"
    by (auto simp: t1_def restrict_map_def fun_eq_iff)
  then have "t1\<lparr>zt_table := ht', zt_queues := (zt_queues t1) |` (- set ds)\<rparr>
      = t\<lparr>zt_table := ht', zt_queues := (zt_queues t) |` (- set (d # ds))\<rparr>" by (simp add: t1_def)
  then show ?case using fold free by (intro exI [of _ ht']) simp
qed

lemma zt_ok_queues:
  assumes "zt_ok t"
  shows "h \<in> set (waiting_on_queues t w) \<longleftrightarrow> (\<exists>p. zt_queues t h = Some p \<and> w \<in> set p)"
    and "zt_queues t h = Some p \<Longrightarrow> distinct p \<and> p \<noteq> []" and "distinct (waiting_on_queues t w)"
proof -
  have "w \<in> set (qof t h) \<longleftrightarrow> h \<in> set (waiting_on_queues t w)" using assms by (simp add: zt_ok_def)
  then show "h \<in> set (waiting_on_queues t w) \<longleftrightarrow> (\<exists>p. zt_queues t h = Some p \<and> w \<in> set p)"
    by (cases "zt_queues t h") (auto simp: qof_def)
  have "distinct (qof t h)" "zt_queues t h \<noteq> Some []" using assms by (simp_all add: zt_ok_def)
  then show "zt_queues t h = Some p \<Longrightarrow> distinct p \<and> p \<noteq> []" by (auto simp: qof_def)
  show "distinct (waiting_on_queues t w)" using assms by (simp add: zt_ok_def)
qed

lemma popped_pop:
  assumes "zt_ok t" and "zt_queues t z = Some q" and "ws = take n q"
  shows "popped z ws (t\<lparr>zt_table := ht, zt_queues := (zt_queues t)(z \<mapsto> drop n q)\<rparr>)"
proof -
  have dist: "distinct q" using zt_ok_queues(2) [OF assms(1,2)] by simp
  have apart: "w \<notin> set (drop n q)" if "w \<in> set ws" for w
    using set_take_disj_set_drop_if_distinct [OF dist, of n n] that assms(3) by auto
  have ws: "w \<in> set q" if "w \<in> set ws" for w using that assms(3) in_set_takeD by fastforce
  show ?thesis
    unfolding popped_def
    using dist apart ws assms zt_ok_queues [OF assms(1)] by (auto simp: domIff)
qed

lemma woken_result:
  assumes "zt_ok t" and "zt_queues t z = Some q" and "ws = take n q"
    and t1: "t1 = t\<lparr>zt_table := ht, zt_queues := (zt_queues t)(z \<mapsto> drop n q)\<rparr>"
    and t': "t' = (woken ws t1)\<lparr>zt_table := ht', zt_queues := (zt_queues (woken ws t1)) |` (- left_empty ws t1)\<rparr>"
    and "table_ok t'"
  shows "zt_ok t'" and "qof t' h = filter (\<lambda>w. w \<notin> set ws) (qof t h)"
    and "waiting_on_queues t' = (\<lambda>w. if w \<in> set ws then [] else waiting_on_queues t w)"
    and "waiter_event t' = (\<lambda>w. w \<in> set ws \<or> waiter_event t w)"
proof -
  have q: "qof t z = q" using assms(2) by (simp add: qof_def)
  have dist: "distinct q" using assms(1) q by (auto simp: zt_ok_def)
  have "filter (\<lambda>w. w \<notin> set ws) (take n q) = []" using assms(3) by (simp add: filter_empty_conv)
  moreover have "filter (\<lambda>w. w \<notin> set ws) q = filter (\<lambda>w. w \<notin> set ws) (take n q) @ filter (\<lambda>w. w \<notin> set ws) (drop n q)"
    by (simp flip: filter_append)
  ultimately have qs: "zt_queues (woken ws t1) = without (set ws) (zt_queues t)"
    using assms(2) by (auto simp: woken_def t1 without_def fun_eq_iff)
  have gone: "left_empty ws t1 = {h. without (set ws) (zt_queues t) h = Some []}"
  proof -
    have "\<exists>w \<in> set ws. h \<in> set (waiting_on_queues t w)" if "without (set ws) (zt_queues t) h = Some []" for h
    proof -
      obtain p where p: "zt_queues t h = Some p" "\<forall>w \<in> set p. w \<in> set ws"
        using \<open>without (set ws) (zt_queues t) h = Some []\<close> by (auto simp: without_def filter_empty_conv)
      moreover have "p \<noteq> []" using p(1) assms(1) by (auto simp: zt_ok_def)
      ultimately obtain w where "w \<in> set p" "w \<in> set ws" by (cases p) auto
      then show ?thesis using p(1) zt_ok_queues(1) [OF assms(1)] by blast
    qed
    then show ?thesis using qs by (auto simp: left_empty_def t1 woken_def)
  qed
  have zq': "zt_queues t' h = (case without (set ws) (zt_queues t) h of Some (w # p) \<Rightarrow> Some (w # p) | _ \<Rightarrow> None)" for h
    unfolding t' gone using qs by (auto simp: restrict_map_def split: option.splits list.splits)
  show qof': "qof t' h = filter (\<lambda>w. w \<notin> set ws) (qof t h)" for h
    by (auto simp: qof_def zq' without_def split: option.splits list.splits)
  show lists: "waiting_on_queues t' = (\<lambda>w. if w \<in> set ws then [] else waiting_on_queues t w)"
    and "waiter_event t' = (\<lambda>w. w \<in> set ws \<or> waiter_event t w)" by (simp_all add: t' woken_def t1 cong: if_cong)
  have "zt_queues t' h \<noteq> Some []" for h by (auto simp: zq' split: option.splits list.splits)
  then show "zt_ok t'" using assms(1,6) unfolding zt_ok_def qof' lists by auto
qed

lemma ht_data_init [simp]: "ht_data (hash_table_init hash cmp) = {#}"
  by (simp add: ht_data_def hash_table_init_def)

text \<open>What waking does: the first waiters of the queue, as many as asked for, leave all queues and are woken.\<close>

lemma zt_wake_ok:
  assumes "zt_ok t" and "ws = take (nat n) (qof t z)"
  shows "\<exists>t'. zt_wake z n t = Some (of_nat (length ws), t') \<and> zt_ok t'
    \<and> (\<forall>h. qof t' h = filter (\<lambda>w. w \<notin> set ws) (qof t h))
    \<and> waiting_on_queues t' = (\<lambda>w. if w \<in> set ws then [] else waiting_on_queues t w)
    \<and> waiter_event t' = (\<lambda>w. w \<in> set ws \<or> waiter_event t w)"
proof -
  have ok: "table_ok t" using assms(1) by (simp add: zt_ok_def)
  obtain ht where get: "get_queue z t = (if z \<in> dom (zt_queues t) then Some z else None, t\<lparr>zt_table := ht\<rparr>)"
      "table_ok (t\<lparr>zt_table := ht\<rparr>)"
    by (rule get_queue_ok [OF ok])
  have same: "zt_ok (t\<lparr>zt_table := ht\<rparr>)" "qof (t\<lparr>zt_table := ht\<rparr>) h = qof t h" for h
    using assms(1) get(2) by (simp_all add: zt_ok_def qof_def)
  show ?thesis
  proof (cases "zt_queues t z")
    case None
    then have "z \<notin> dom (zt_queues t)" "ws = []" using assms(2) by (auto simp: qof_def)
    then show ?thesis using get(1) same by (simp add: zt_wake_def)
  next
    case (Some q)
    let ?t1 = "t\<lparr>zt_table := ht, zt_queues := (zt_queues t)(z \<mapsto> drop (nat n) q)\<rparr>"
    have ws: "ws = take (nat n) q" using assms(2) Some by (simp add: qof_def)
    have pop: "pop_waiters (nat n) z (t\<lparr>zt_table := ht\<rparr>) = Some (ws, ?t1)"
      using pop_waiters_ok [of "t\<lparr>zt_table := ht\<rparr>" z q "nat n"] Some ws by simp
    have pop_ok: "popped z ws ?t1" and ne: "\<And>h. zt_queues t h \<noteq> Some []"
      using popped_pop [OF assms(1) Some ws, of ht] assms(1) by (simp_all add: zt_ok_def)
    obtain es where es: "wake_waiters z ws (hash_table_init zq_hash zq_cmp) 0 ?t1 = Some (es, of_nat (length ws), woken ws ?t1)"
        "ht_ready zq_hash zq_cmp es" "set_mset (ht_data es) = left_empty ws ?t1"
      using wake_waiters_ok [OF ht_ready_init [OF zq_key.hash_key_axioms] pop_ok, of 0] by (auto simp: ht_data_init)
    obtain es' ds where ds: "\<And>ff u. hash_table_remove_every es ff u = Some (es', fold (\<lambda>d u. ff u d) ds (u :: ZutexTable option))"
        "distinct ds" "set ds = left_empty ws ?t1" "hash_table_free es' = Some ()"
      using zq_key.remove_every_exact [OF es(2)] es(3) by metis
    have "table_ok (woken ws ?t1)" using get(2) Some by (auto simp: table_ok_def woken_def)
    moreover have "\<forall>h \<in> set ds. zt_queues (woken ws ?t1) h = Some []" using ds(3) by (auto simp: left_empty_def woken_def)
    ultimately obtain ht' where fold: "fold (\<lambda>d u. free_zq u d) ds (Some (woken ws ?t1))
          = Some ((woken ws ?t1)\<lparr>zt_table := ht', zt_queues := (zt_queues (woken ws ?t1)) |` (- set ds)\<rparr>)"
        "table_ok ((woken ws ?t1)\<lparr>zt_table := ht', zt_queues := (zt_queues (woken ws ?t1)) |` (- set ds)\<rparr>)"
      using free_queues_ok [OF _ ds(2)] by blast
    define t' where "t' = (woken ws ?t1)\<lparr>zt_table := ht', zt_queues := (zt_queues (woken ws ?t1)) |` (- left_empty ws ?t1)\<rparr>"
    have t': "zt_wake z n t = Some (of_nat (length ws), t')"
      using get(1) Some pop es(1) ds(1,4) fold(1) by (simp add: zt_wake_def domI t'_def ds(3))
    have "table_ok t'" using fold(2) by (simp add: t'_def ds(3))
    then show ?thesis using t' woken_result [OF assms(1) Some ws refl t'_def] by (intro exI [of _ t']) simp
  qed
qed

section \<open>Reachable tables\<close>

text \<open>A thread waits with one waiter, so not while it already waits, and each time on different words.\<close>

inductive zutex_reach :: "ZutexTable \<Rightarrow> bool" where
  reach_new: "zutex_reach ZutexTable_new"
| reach_wait: "zutex_reach t \<Longrightarrow> waiting_on_queues t w = [] \<Longrightarrow> distinct (map spec_zutex specs)
    \<Longrightarrow> zt_wait mem specs w t = Some (b, t') \<Longrightarrow> zutex_reach t'"
| reach_wake: "zutex_reach t \<Longrightarrow> zt_wake z n t = Some (k, t') \<Longrightarrow> zutex_reach t'"

definition asleep_while_queued :: "ZutexTable \<Rightarrow> bool" where
  "asleep_while_queued t \<longleftrightarrow> (\<forall>w. waiting_on_queues t w \<noteq> [] \<longrightarrow> \<not> waiter_event t w)"

lemma zutex_reach_ok: "zutex_reach t \<Longrightarrow> zt_ok t \<and> asleep_while_queued t"
proof (induction rule: zutex_reach.induct)
  case reach_new
  then show ?case using zt_ok_new by (simp add: asleep_while_queued_def ZutexTable_new_def)
next
  case (reach_wait t w specs mem b t')
  then show ?case
    using zt_wait_ok [of t w specs mem] by (cases "all_match mem specs = Some True") (auto simp: asleep_while_queued_def)
next
  case (reach_wake t z n k t')
  then show ?case using zt_wake_ok [of t _ n z] by (auto simp: asleep_while_queued_def)
qed

section \<open>A word that is waited on twice\<close>

definition spec_of :: "u32 \<Rightarrow> u32 \<Rightarrow> ZutexWaitSpec" where
  "spec_of z v = \<lparr>spec_zutex = z, match_val = v\<rparr>"

lemma wake_one_stale:
  assumes "table_ok t" and "zt_queues t z = Some (w # q)" and "q \<noteq> []" and "set (waiting_on_queues t w) \<subseteq> {z}"
  shows "\<exists>t'. zt_wake z 1 t = Some (1, t') \<and> table_ok t' \<and> zt_queues t' = (zt_queues t)(z \<mapsto> q)
    \<and> waiting_on_queues t' = (waiting_on_queues t)(w := []) \<and> waiter_event t' = (waiter_event t)(w := True)"
proof -
  obtain ht where get: "get_queue z t = (Some z, t\<lparr>zt_table := ht\<rparr>)" "table_ok (t\<lparr>zt_table := ht\<rparr>)"
    using get_queue_ok [OF assms(1), of z] assms(2) by (metis domI)
  define t1 where "t1 = t\<lparr>zt_table := ht, zt_queues := (zt_queues t)(z \<mapsto> q)\<rparr>"
  have t1: "table_ok t1" "zt_queues t1 z = Some q" using get(2) assms(2) by (auto simp: table_ok_def t1_def)
  have pop: "pop_waiters (nat 1) z (t\<lparr>zt_table := ht\<rparr>) = Some ([w], t1)"
    using assms(2) by (simp add: zq_pop_def t1_def)
  have leave: "leave_queues z w l es s = Some (es, s\<lparr>waiting_on_queues := (waiting_on_queues s)(w := [])\<rparr>)"
    if "set l \<subseteq> {z}" "zt_queues s z = Some q" "waiting_on_queues s w = l" for l s es
    using that
  proof (induction l arbitrary: s)
    case Nil
    then show ?case by (simp add: fun_upd_idem)
  next
    case (Cons a l)
    then show ?case
      using Cons.IH [of "s\<lparr>waiting_on_queues := (waiting_on_queues s)(w := l)\<rparr>"] assms(3)
      by (simp add: zq_is_empty_def cong: if_cong)
  qed
  let ?t2 = "wake_waiter w (t1\<lparr>waiting_on_queues := (waiting_on_queues t1)(w := [])\<rparr>)"
  have "waiting_on_queues t1 = waiting_on_queues t" by (simp add: t1_def)
  then have wake: "wake_waiters z [w] es 0 t1 = Some (es, 1, ?t2)" for es
    using leave [of "waiting_on_queues t w" t1 es] assms(4) t1(2) by simp
  obtain es' where "\<And>ff u. hash_table_remove_every (hash_table_init zq_hash zq_cmp) ff u = Some (es', u :: ZutexTable option)"
      "hash_table_free es' = Some ()"
    using zq_key.remove_every_exact [OF ht_ready_init [OF zq_key.hash_key_axioms]] by (metis fold_simps(1) ht_data_init set_empty set_mset_empty)
  then have "zt_wake z 1 t = Some (1, ?t2)"
    unfolding zt_wake_def using get(1) pop wake by (simp del: pop_waiters.simps wake_waiters.simps nat_1 nat_one_as_int)
  moreover have "table_ok ?t2" using t1(1) by (simp add: table_ok_def wake_waiter_def)
  ultimately show ?thesis by (simp add: wake_waiter_def t1_def)
qed

lemma enqueue_one:
  assumes "table_ok t"
  obtains t' where "enqueue_waiter w (spec_of z x # specs) t = enqueue_waiter w specs t'" and "table_ok t'"
    and "zt_queues t' = (zt_queues t)(z \<mapsto> qof t z @ [w])"
    and "waiting_on_queues t' = (waiting_on_queues t)(w := waiting_on_queues t w @ [z])"
proof -
  obtain ht where ht: "get_or_create_queue z t = Some (z, t\<lparr>zt_table := ht, zt_queues := (zt_queues t)(z \<mapsto> qof t z)\<rparr>)"
      "table_ok (t\<lparr>zt_table := ht, zt_queues := (zt_queues t)(z \<mapsto> qof t z)\<rparr>)"
    by (rule get_or_create_ok [OF assms])
  let ?t = "append_list w z (t\<lparr>zt_table := ht, zt_queues := (zt_queues t)(z \<mapsto> qof t z @ [w])\<rparr>)"
  have "enqueue_waiter w (spec_of z x # specs) t = enqueue_waiter w specs ?t"
    using ht(1) by (simp add: zq_push_def spec_of_def)
  moreover have "table_ok ?t" using ht(2) by (simp add: table_ok_def append_list_def)
  ultimately show thesis by (rule that) (simp_all add: append_list_def)
qed

section \<open>Properties\<close>

text \<open>
  C9: waking a zutex.  On every table that waits and wakes lead to, waking trips no assertion: it takes the
  threads that have waited longest on the word, as many as asked for or as there are, removes them from all the
  queues they are in, sets their events and no others, keeps the order of everyone else and returns their
  number.  A thread that is queued anywhere has its event unset, so it sleeps.
\<close>

theorem zutex_wake_exact:
  assumes "zutex_reach t" and "ws = take (nat n) (qof t z)"
  shows "\<exists>t'. zt_wake z n t = Some (of_nat (length ws), t')
    \<and> (\<forall>h. qof t' h = filter (\<lambda>w. w \<notin> set ws) (qof t h))
    \<and> (\<forall>w. waiter_event t' w \<longleftrightarrow> w \<in> set ws \<or> waiter_event t w)
    \<and> (\<forall>w h. w \<in> set (qof t h) \<longrightarrow> \<not> waiter_event t w)"
proof -
  have ok: "zt_ok t" "asleep_while_queued t" using zutex_reach_ok [OF assms(1)] by simp_all
  have "\<not> waiter_event t w" if "w \<in> set (qof t h)" for w h
  proof -
    have "h \<in> set (waiting_on_queues t w)" using ok(1) that by (simp add: zt_ok_def)
    then have "waiting_on_queues t w \<noteq> []" by auto
    then show ?thesis using ok(2) by (simp add: asleep_while_queued_def)
  qed
  then show ?thesis using zt_wake_ok [OF ok(1) assms(2)] by auto
qed

theorem zutex_wake_exact_witness:
  "\<exists>t t'. zutex_reach t \<and> qof t 4096 = [1, 2] \<and> qof t 8192 = [1]
    \<and> zt_wake 4096 1 t = Some (1, t') \<and> qof t' 4096 = [2] \<and> qof t' 8192 = [] \<and> waiter_event t' 1 \<and> \<not> waiter_event t' 2"
proof -
  let ?mem = "\<lambda>a. Some 0"
  have new: "waiting_on_queues ZutexTable_new w = []" "qof ZutexTable_new h = []" for w h
    by (simp_all add: ZutexTable_new_def qof_def)
  obtain t1 where t1: "zt_wait ?mem [spec_of 4096 0, spec_of 8192 0] 1 ZutexTable_new = Some (True, t1)" "zt_ok t1"
      "waiting_on_queues t1 = (waiting_on_queues ZutexTable_new)(1 := [4096, 8192])"
      "qof t1 4096 = [1]" "qof t1 8192 = [1]"
    using zt_wait_ok(1) [OF zt_ok_new new(1), of "[spec_of 4096 0, spec_of 8192 0]" ?mem 1]
    by (auto simp: spec_of_def new)
  obtain t2 where t2: "zt_wait ?mem [spec_of 4096 0] 2 t1 = Some (True, t2)" "qof t2 4096 = [1, 2]" "qof t2 8192 = [1]"
    using zt_wait_ok(1) [OF t1(2), of 2 "[spec_of 4096 0]" ?mem] t1(3-5) by (auto simp: spec_of_def new)
  have r1: "zutex_reach t1" using reach_wait [OF reach_new new(1) _ t1(1)] by (simp add: spec_of_def)
  have "waiting_on_queues t1 2 = []" by (simp add: t1(3) new)
  then have reach: "zutex_reach t2" using reach_wait [OF r1 _ _ t2(1)] by (simp add: spec_of_def)
  have "[1] = take (nat 1) (qof t2 4096)" by (simp add: t2(2))
  from zutex_wake_exact [OF reach this] obtain t' where t': "zt_wake 4096 1 t2 = Some (1, t')"
      "\<forall>h. qof t' h = filter (\<lambda>w. w \<notin> {1}) (qof t2 h)" "\<forall>w. waiter_event t' w \<longleftrightarrow> w \<in> {1} \<or> waiter_event t2 w"
      "\<forall>w h. w \<in> set (qof t2 h) \<longrightarrow> \<not> waiter_event t2 w" by auto
  have "\<not> waiter_event t2 2" using t'(4) t2(2) by (metis list.set_intros(1) set_subset_Cons subsetD)
  then show ?thesis using reach t2(2,3) t' by (intro exI [of _ t2] exI [of _ t']) simp
qed

text \<open>
  C35: a wake that is lost.  A thread that waits on the same word twice is queued there twice and woken once:
  it stays in the queue although it runs.  A second thread that then waits on the word is not woken by the next
  wake of one thread, which reports that it woke one.
\<close>

theorem zutex_duplicate_loses_wake:
  assumes "zt_ok t" and "waiting_on_queues t w = []" and "waiting_on_queues t v = []" and "v \<noteq> w"
    and "qof t z = []" and "mem z = Some x"
  shows "\<exists>t1 t2 t3 t4. zt_wait mem [spec_of z x, spec_of z x] w t = Some (True, t1)
    \<and> zt_wake z 1 t1 = Some (1, t2) \<and> waiter_event t2 w \<and> w \<in> set (qof t2 z)
    \<and> zt_wait mem [spec_of z x] v t2 = Some (True, t3)
    \<and> zt_wake z 1 t3 = Some (1, t4) \<and> \<not> waiter_event t4 v \<and> v \<in> set (qof t4 z)"
proof -
  have ok: "table_ok t" using assms(1) by (simp add: zt_ok_def)
  obtain ta where ta: "enqueue_waiter w [spec_of z x, spec_of z x] t = enqueue_waiter w [spec_of z x] ta" "table_ok ta"
      "zt_queues ta = (zt_queues t)(z \<mapsto> qof t z @ [w])" "waiting_on_queues ta = (waiting_on_queues t)(w := waiting_on_queues t w @ [z])"
    by (rule enqueue_one [OF ok])
  obtain tb' where tb': "enqueue_waiter w [spec_of z x] ta = enqueue_waiter w [] tb'" "table_ok tb'"
      "zt_queues tb' = (zt_queues ta)(z \<mapsto> qof ta z @ [w])" "waiting_on_queues tb' = (waiting_on_queues ta)(w := waiting_on_queues ta w @ [z])"
    by (rule enqueue_one [OF ta(2)])
  have tb: "zt_queues tb' z = Some [w, w]" "waiting_on_queues tb' = (waiting_on_queues t)(w := [z, z])"
    using ta(3,4) tb'(3,4) assms(2,5) by (simp_all add: qof_def)
  let ?t1 = "reset_event w tb'"
  have t1: "zt_wait mem [spec_of z x, spec_of z x] w t = Some (True, ?t1)"
    unfolding zt_wait_def ta(1) tb'(1) using assms(6) by (simp add: spec_of_def)
  have r: "table_ok ?t1" "zt_queues ?t1 z = Some (w # [w])" "set (waiting_on_queues ?t1 w) \<subseteq> {z}" "waiting_on_queues ?t1 v = []"
    using tb tb'(2) assms(3,4) by (simp_all add: reset_event_def table_ok_def)
  obtain t2 where t2: "zt_wake z 1 ?t1 = Some (1, t2)" "table_ok t2" "zt_queues t2 = (zt_queues ?t1)(z \<mapsto> [w])"
      "waiting_on_queues t2 = (waiting_on_queues ?t1)(w := [])" "waiter_event t2 = (waiter_event ?t1)(w := True)"
    using wake_one_stale [OF r(1,2) _ r(3)] by blast
  obtain tc where tc: "enqueue_waiter v [spec_of z x] t2 = enqueue_waiter v [] tc" "table_ok tc"
      "zt_queues tc = (zt_queues t2)(z \<mapsto> qof t2 z @ [v])" "waiting_on_queues tc = (waiting_on_queues t2)(v := waiting_on_queues t2 v @ [z])"
    by (rule enqueue_one [OF t2(2)])
  let ?t3 = "reset_event v tc"
  have t3: "zt_wait mem [spec_of z x] v t2 = Some (True, ?t3)"
    unfolding zt_wait_def tc(1) using assms(6) by (simp add: spec_of_def)
  have r3: "table_ok ?t3" "zt_queues ?t3 z = Some (w # [v])" "set (waiting_on_queues ?t3 w) \<subseteq> {z}" "\<not> waiter_event ?t3 v"
    using tc(2-4) t2(3,4) assms(4) by (simp_all add: reset_event_def table_ok_def qof_def)
  obtain t4 where t4: "zt_wake z 1 ?t3 = Some (1, t4)" "zt_queues t4 = (zt_queues ?t3)(z \<mapsto> [v])"
      "waiter_event t4 = (waiter_event ?t3)(w := True)"
    using wake_one_stale [OF r3(1,2) _ r3(3)] by blast
  have "waiter_event t2 w" "w \<in> set (qof t2 z)" "\<not> waiter_event t4 v" "v \<in> set (qof t4 z)"
    using t2(3,5) t4(2,3) r3(4) assms(4) by (simp_all add: qof_def)
  then show ?thesis using t1 t2(1) t3 t4(1) by blast
qed

theorem zutex_duplicate_loses_wake_witness:
  "\<exists>t1 t2 t3 t4. zt_wait (\<lambda>a. Some 7) [spec_of 4096 7, spec_of 4096 7] 1 ZutexTable_new = Some (True, t1)
    \<and> zt_wake 4096 1 t1 = Some (1, t2) \<and> waiter_event t2 1 \<and> 1 \<in> set (qof t2 4096)
    \<and> zt_wait (\<lambda>a. Some 7) [spec_of 4096 7] 2 t2 = Some (True, t3)
    \<and> zt_wake 4096 1 t3 = Some (1, t4) \<and> \<not> waiter_event t4 2 \<and> 2 \<in> set (qof t4 4096)"
  by (rule zutex_duplicate_loses_wake [OF zt_ok_new]) (simp_all add: ZutexTable_new_def qof_def)

end
