(* ===== verification/Spec2Isabelle.thy ===== *)
theory Spec2Isabelle
  imports Tree_Math Lite_Lib Hash_Table Zftp_Messages Data_Range Block_Cache Merkle_Trust Request_Builder File_Store File_Answers
    Linked_List Zutex_Table
begin

text \<open>
  \<^bold>\<open>Embassies: the file transfer core and the zutex table.\<close>  Embassies runs unmodified applications in small isolated
  containers.  Everything a container executes and reads arrives through ZFTP, a protocol in which a file is
  named by a hash and every byte is checked against that name: a file is cut into blocks of 64 KiB, the
  hashes of the blocks are the leaves of a binary Merkle tree, and the name is the hash of the metadata and the
  root (\<^verbatim>\<open>src/common/zftp_module\<close>).  The development models this core and the containers it stands on
  (\<^verbatim>\<open>src/common/utils\<close>), from the arithmetic of the tree to the packets.  Apart from files, a container needs
  a way to let its threads sleep: the zutex, which the monitor provides (\<^verbatim>\<open>src/monitors/linux_kvm\<close>).

  \<^bold>\<open>How the parts work together.\<close>  A client asks a \<^verbatim>\<open>ZCachedFile\<close> for bytes.  It computes which bytes it is
  missing, asks a \<^verbatim>\<open>RequestBuilder\<close> for a request that fits one packet, sends it and queues the asker.  A
  server parses the request and, if its own copy of the file is complete enough, fills a reply.  The client
  parses the reply, installs metadata, hashes and data, validates the hashes from the root downwards and the
  blocks against their leaves, and considers the queued requests again.  An origin builds the same tree from
  the blocks upwards.  Blocks are shared by all files through a cache keyed by hash, files and blocks
  survive in a database.

  \<^bold>\<open>Theories and sources.\<close>
  \<^item> \<open>Zoog_Prelude\<close>: the machine words \<open>u8\<close>, \<open>u16\<close>, \<open>u32\<close>, \<^verbatim>\<open>lite_assert\<close>, and facts on words, lists and options.
  \<^item> \<open>Lite_Lib\<close>: \<^verbatim>\<open>utils/LiteLib.c\<close>, the string and memory routines, on byte lists.
  \<^item> \<open>Hash_Table\<close>: \<^verbatim>\<open>utils/hash_table.c\<close>.  The contract of a key (hash and comparison functions) is the locale
    \<open>hash_key\<close>, interpreted by the blocks, the tree nodes and the files.
  \<^item> \<open>Avl_Tree\<close>: \<^verbatim>\<open>utils/avl2.h\<close>, \<^verbatim>\<open>avl2logic.h\<close>.  What a client may rely on is the locale \<open>ordered_collection\<close>,
    interpreted by the tree.
  \<^item> \<open>Linked_List\<close>: \<^verbatim>\<open>utils/linked_list.c\<close>, on an explicit memory of links.
  \<^item> \<open>Tree_Math\<close>: \<^verbatim>\<open>zftp_module/tree_math.c\<close>, the layout functions of \<^verbatim>\<open>zftp_protocol.h\<close> and \<^verbatim>\<open>utils/lite_log2.c\<close>.
  \<^item> \<open>Zftp_Wire\<close>, \<open>Zftp_Messages\<close>: network byte order, the packet structures, and building and parsing requests and
    replies (\<^verbatim>\<open>OutboundRequest.cpp\<close>, \<^verbatim>\<open>ZFileRequest.cpp\<close>, \<^verbatim>\<open>ZFileReplyFromServer.cpp\<close>).
  \<^item> \<open>Zftp_Compression\<close>: the zlib streams and their numbering (\<^verbatim>\<open>ZCompressionImpl.cpp\<close>, \<^verbatim>\<open>ZCompressionZlibStream.cpp\<close>).
  \<^item> \<open>Data_Range\<close>: \<^verbatim>\<open>DataRange.cpp\<close>.
  \<^item> \<open>Block_Cache\<close>: \<^verbatim>\<open>ZBlockCacheRecord.cpp\<close>, \<^verbatim>\<open>ZBlockCache.cpp\<close>, \<^verbatim>\<open>ZBlockDB.cpp\<close>.
  \<^item> \<open>Merkle_File\<close>: the state and the validation half of \<^verbatim>\<open>ZCachedFile.cpp\<close>; \<open>Merkle_Validation\<close> and \<open>Merkle_Trust\<close> hold
    its invariant and what follows from it.
  \<^item> \<open>Origin_File\<close>: \<^verbatim>\<open>ZOriginFile.cpp\<close>.
  \<^item> \<open>Request_Builder\<close>: \<^verbatim>\<open>RequestBuilder.cpp\<close>, on two AVL trees.
  \<^item> \<open>File_Store\<close>: \<^verbatim>\<open>ZDBDatum.cpp\<close>, \<^verbatim>\<open>ZFileDB.cpp\<close>, \<^verbatim>\<open>ZNameDB.cpp\<close>, \<^verbatim>\<open>ZNameRecord.cpp\<close> and marshalling in \<^verbatim>\<open>ZCachedFile.cpp\<close>.
  \<^item> \<open>File_Service\<close>: the request half of \<^verbatim>\<open>ZCachedFile.cpp\<close> and the results \<^verbatim>\<open>ValidFileResult.cpp\<close>, \<^verbatim>\<open>ErrorFileResult.cpp\<close>,
    \<^verbatim>\<open>MemBuf.cpp\<close>, and what probing the origins does to a file and a name (\<^verbatim>\<open>ZCache.cpp\<close>, \<^verbatim>\<open>ZCachedName.cpp\<close>); \<open>File_Answers\<close> shows
    what its answers hold.
  \<^item> \<open>Zutex_Table\<close>: \<^verbatim>\<open>ZutexTable.cpp\<close>, \<^verbatim>\<open>ZutexQueue.cpp\<close> and \<^verbatim>\<open>ZutexWaiter.cpp\<close> of the KVM monitor, on the hash table; a
    table whose keys are compared exactly is the locale \<open>exact_key\<close>, interpreted by the queues.

  \<^bold>\<open>Conventions.\<close>  A structure is a record with the fields of the source and a function is a definition with its
  name; an operation that changes an object returns the new one.  \<^const>\<open>None\<close> is a failed assertion, a null
  dereference or an access outside an array, after which there is no state.  A pointer to a block is its hash, to
  a tree node its location, to an AVL node its position, to a request a number, to a link its address.  Words keep their width, so
  wrap-around is the machine's.  What is not in the sources is an argument: the hash function, the contents of
  fresh memory and the Berkeley database (gathered in \<open>zenv\<close>), zlib (gathered in \<open>zlib\<close>), and what an origin finds on the disk
  (in \<open>zconf\<close>, with the context of the client's compression).

  \<^bold>\<open>What is shown.\<close>
  \<^item> Trust: two files of one name agree, after any replies, on all hashes that are validated along a path from the root, unless
    hashed strings collide; the invariant of the tree survives any replies, forged ones included; the hashes of honest
    replies get validated; valid blocks hash to their names.  A forged pair of hashes below an unknown node shows why a path is needed.
  \<^item> Hashing: an origin computes the reference Merkle hash whatever the order of the blocks.
  \<^item> Transfer: a request is parsed back as it was built, a reply carries exactly the asked hashes and bytes, a built
    request keeps the reply within a packet and asks for something when the known leaves have no gap and one path of hashes
    fits, and the missing set is exact unless a block is filled beyond the range and still not valid.
  \<^item> Service: every request waits or is answered once; considering a request ends.
  \<^item> Stores: a stored file or name is restored; a datum is filled exactly.
  \<^item> Containers: the hash table refines a set of keys, the AVL tree a sorted list, balanced at every moment, the linked list a
    list, with all other memory untouched; searches and walks return what their names say.
  \<^item> Zutexes: on every reachable table (an inductive predicate) waking takes the longest waiting threads off all their queues
    and wakes no others.
  \<^item> Limits: the inputs on which the code trips an assertion, wraps around or reads outside a buffer, where it can.

  \<^bold>\<open>Bounds and fuel.\<close>  A loop over the blocks of a file has 65537 rounds of fuel: a file length fits 32 bits and a
  block has 16, so there are at most 65536 blocks and one more round to stop; that it suffices is proved for taking in
  data (\<open>Merkle_Trust\<close>), for building a request (\<open>Request_Builder\<close>), for the missing set and for filling a reply (\<open>File_Answers\<close>).
  Considering a request and installing an image call each other; two levels are proved to be enough.  Where a result may be \<^const>\<open>None\<close>
  for another reason, what stands for used up fuel is an argument of the loop (\<open>install_data_loop\<close>, \<open>build_request_loop\<close>,
  \<open>consider_request_nolock\<close>), and the outcome is proved not to depend on it.  The walks over an AVL tree are bounded by its number
  of elements, which is proved to be enough.  The walks along a linked list are partial functions, proved to return on every list the operations build.  File lengths up to \<open>0xffff0000\<close> are assumed where a
  whole file is served, since \<open>compute_num_blocks\<close> wraps to zero just above.

  \<^bold>\<open>Not modelled.\<close>  Threads and mutexes: each locked operation is one atomic step, and the mutexes and events built on
  zutexes are left out, as are the waiting lookups of names, certificates, allocators and network headers.  The sockets and threads of
  \<^verbatim>\<open>ZFileServer\<close> and \<^verbatim>\<open>ZFileClient\<close>, the file systems the origins read, zlib, Berkeley DB and SHA-1 are outside
  or are pure input and output.  The monitors, the PALs and the POSIX emulation are glue to a host kernel, a virtual
  machine or guest memory whose behaviour the sources do not define.  Tools that run at build time, demonstrations
  and tests are left out.
\<close>

end
